(* ===== verification/Arc_Prelude.thy ===== *)
theory Arc_Prelude
  imports Main "HOL-Library.Word" "HOL-Library.Monad_Syntax"
begin

unbundle bit_operations_syntax

text \<open>
  Shared vocabulary of the development: the C integer types as words, the
  page constants of \<^verbatim>\<open>mk/arch/amd64/include/memory.h\<close>, and the generic
  facts on words, bounded scans, ring buffers and partial results that the component theories
  use.

  Throughout the development a C function that reads or writes memory it does not own is
  modelled by a result of type \<open>option\<close>: \<open>None\<close> is undefined behaviour (an array access out of
  range, a dereference of freed memory), \<open>Some r\<close> is a defined execution with result \<open>r\<close>.
  Spinlocks are not modelled: each operation is one atomic step.
\<close>

type_synonym u8 = "8 word"
type_synonym u16 = "16 word"
type_synonym u32 = "32 word"
type_synonym u64 = "64 word"

named_theorems arc_word \<open>moving word expressions to natural numbers\<close>
named_theorems arc_ring \<open>contents of ring buffers\<close>

section \<open>Constants\<close>

abbreviation PAGE_SIZE :: u64 where "PAGE_SIZE \<equiv> 4096"

abbreviation NULL :: u64 where "NULL \<equiv> 0"

section \<open>Bits and words\<close>

lemma and_push_bit_iff_bit: "(w AND push_bit n 1 \<noteq> 0) \<longleftrightarrow> bit w n" for w :: "'a::len word"
  using bit_iff_and_push_bit_not_eq_0 [of w n] by simp

lemma and_power_eq_0_iff [simp]: "w AND 2 ^ n = 0 \<longleftrightarrow> \<not> bit w n" for w :: "'a::len word"
  using bit_iff_and_push_bit_not_eq_0 [of w n] by simp

lemma bit_or_power [simp]:
  "bit (w OR 2 ^ n) m \<longleftrightarrow> bit w m \<or> (m = n \<and> n < LENGTH('a))" for w :: "'a::len word"
  by (auto simp: bit_simps)

lemma bit_and_not_power [simp]:
  "bit (w AND NOT (2 ^ n)) m \<longleftrightarrow> bit w m \<and> m \<noteq> n" for w :: "'a::len word"
  by (auto simp: bit_simps dest: bit_imp_le_length)

lemma word_full_iff: "w = - 1 \<longleftrightarrow> (\<forall>n < LENGTH('a). bit w n)" for w :: "'a::len word"
  by (auto simp: bit_eq_iff bit_simps)

lemma and_4095_eq_0_iff [arc_word]: "(w::u64) AND 4095 = 0 \<longleftrightarrow> unat w mod 4096 = 0"
proof -
  have "w AND 4095 = take_bit 12 w"
    by (simp add: take_bit_eq_mask mask_eq_exp_minus_1)
  then have "unat (w AND 4095) = unat w mod 4096"
    by (simp add: take_bit_eq_mod unat_mod_distrib)
  then show ?thesis
    by (simp add: unat_eq_zero [symmetric])
qed

lemma and_not_4095 [arc_word]: "unat ((w::u64) AND NOT 4095) = unat w div 4096 * 4096"
proof -
  have "w AND NOT (mask 12) = push_bit 12 (drop_bit 12 w)"
    by (rule bit_word_eqI) (auto simp: bit_simps)
  then have eq: "w AND NOT 4095 = w div 4096 * 4096"
    by (simp add: mask_eq_exp_minus_1 push_bit_eq_mult drop_bit_eq_div)
  have "unat w div 4096 * 4096 < 2 ^ 64"
    using unsigned_less [of w, where ?'a = nat] div_times_less_eq_dividend [of "unat w" 4096]
    by simp
  then have "unat (w div 4096) * unat (4096 :: u64) < 2 ^ 64"
    by (simp add: unat_div_distrib)
  then show ?thesis
    unfolding eq by (simp add: unat_mult_lem [THEN iffD1] unat_div_distrib)
qed

lemma unat_add_less [arc_word]:
  "unat a + unat b < 2 ^ LENGTH('a) \<Longrightarrow> unat (a + b) = unat a + unat b" for a b :: "'a::len word"
  by (simp add: unat_word_ariths)

lemma unat_of_nat_less [arc_word]: "n < 2 ^ LENGTH('a) \<Longrightarrow> unat (of_nat n :: 'a::len word) = n"
  by (simp add: unat_of_nat)

lemma unat_u32_less: "unat (w :: u32) < 4294967296"
  using unsigned_less [of w, where ?'a = nat] by simp

lemma unat_u64_less: "unat (w :: u64) < 18446744073709551616"
  using unsigned_less [of w, where ?'a = nat] by simp

lemma word_add_overflow_iff: "a + b < a \<longleftrightarrow> 2 ^ LENGTH('a) \<le> unat a + unat b" for a b :: "'a::len word"
  by (metis leI linorder_not_less no_olen_add_nat)

lemma sint_small: "unat n < 2 ^ 31 \<Longrightarrow> sint n = int (unat n)" for n :: "32 word"
proof -
  assume "unat n < 2 ^ 31"
  then have "uint n < 2 ^ 31"
    by (metis of_nat_less_iff of_nat_numeral of_nat_power uint_nat)
  moreover have "0 \<le> uint n" by simp
  ultimately have "signed_take_bit 31 (uint n) = uint n"
    by (intro signed_take_bit_int_eq_self) linarith+
  then show ?thesis using sint_uint [of n] by simp
qed

lemma unat_scast_small: "unat n < 2 ^ 31 \<Longrightarrow> unat (scast n :: u64) = unat n" for n :: "32 word"
  by (simp add: scast_eq sint_small unsigned_ucast_eq take_bit_nat_eq_self)

section \<open>Bounded scans\<close>

text \<open>
  The loop \<^verbatim>\<open>for (i = lo; i < hi; i++) if (P(i)) return i;\<close> is \<^term>\<open>List.find P [lo..<hi]\<close>.
\<close>

lemma find_upt_Some_iff:
  "List.find P [lo..<hi] = Some k \<longleftrightarrow> lo \<le> k \<and> k < hi \<and> P k \<and> (\<forall>j. lo \<le> j \<and> j < k \<longrightarrow> \<not> P j)"
proof
  assume "List.find P [lo..<hi] = Some k"
  then obtain i where i: "i < hi - lo" "P (lo + i)" "k = lo + i" "\<forall>j<i. \<not> P ([lo..<hi] ! j)"
    by (auto simp: find_Some_iff)
  have "\<not> P j" if "lo \<le> j" "j < k" for j
    using i(4) [rule_format, of "j - lo"] that i(1,3) by simp
  with i show "lo \<le> k \<and> k < hi \<and> P k \<and> (\<forall>j. lo \<le> j \<and> j < k \<longrightarrow> \<not> P j)" by auto
next
  assume "lo \<le> k \<and> k < hi \<and> P k \<and> (\<forall>j. lo \<le> j \<and> j < k \<longrightarrow> \<not> P j)"
  then show "List.find P [lo..<hi] = Some k"
    by (auto simp: find_Some_iff intro!: exI [of _ "k - lo"])
qed

lemma find_upt_None_iff: "List.find P [lo..<hi] = None \<longleftrightarrow> (\<forall>j. lo \<le> j \<and> j < hi \<longrightarrow> \<not> P j)"
  by (auto simp: find_None_iff)

lemma find_upt_Some_bound: "List.find P [lo..<hi] = Some k \<Longrightarrow> k < hi"
  by (simp add: find_upt_Some_iff)

section \<open>Partial results\<close>

lemma bind_SomeE:
  assumes "Option.bind m f = Some r"
  obtains x where "m = Some x" and "f x = Some r"
  using assms by (auto simp: bind_eq_Some_conv)

definition nth_opt :: "'a list \<Rightarrow> nat \<Rightarrow> 'a option" where
  "nth_opt xs i = (if i < length xs then Some (xs ! i) else None)"

definition upd_opt :: "'a list \<Rightarrow> nat \<Rightarrow> 'a \<Rightarrow> 'a list option" where
  "upd_opt xs i v = (if i < length xs then Some (xs[i := v]) else None)"

lemma nth_opt_Some [simp]: "i < length xs \<Longrightarrow> nth_opt xs i = Some (xs ! i)"
  by (simp add: nth_opt_def)

lemma upd_opt_Some [simp]: "i < length xs \<Longrightarrow> upd_opt xs i v = Some (xs[i := v])"
  by (simp add: upd_opt_def)

lemma nth_opt_eq_Some_iff: "nth_opt xs i = Some v \<longleftrightarrow> i < length xs \<and> xs ! i = v"
  by (auto simp: nth_opt_def)

lemma upd_opt_eq_Some_iff: "upd_opt xs i v = Some ys \<longleftrightarrow> i < length xs \<and> ys = xs[i := v]"
  by (auto simp: upd_opt_def)

text \<open>A loop over a list whose body may be undefined.\<close>

fun foldM :: "('a \<Rightarrow> 's \<Rightarrow> 's option) \<Rightarrow> 'a list \<Rightarrow> 's \<Rightarrow> 's option" where
  "foldM f [] s = Some s"
| "foldM f (x # xs) s = do { s \<leftarrow> f x s; foldM f xs s }"

lemma foldM_Nil_eq [simp]: "foldM f [] = Some"
  by (rule ext) simp

lemma foldM_append: "foldM f (xs @ ys) s = do { s \<leftarrow> foldM f xs s; foldM f ys s }"
  by (induction xs arbitrary: s) (auto split: bind_split)

lemma foldM_cong:
  "(\<And>x s. x \<in> set xs \<Longrightarrow> f x s = g x s) \<Longrightarrow> foldM f xs s = foldM g xs s"
  by (induction xs arbitrary: s) (auto intro!: Option.bind_cong)

text \<open>The loop \<^verbatim>\<open>for (i = 0; i < n; i++) body(xs[i]);\<close> over an array of length \<open>n\<close>.\<close>

lemma foldM_nth_opt: "foldM (\<lambda>i s. do { x \<leftarrow> nth_opt xs i; f x s }) [0..<length xs] s = foldM f xs s"
proof (induction xs arbitrary: s rule: rev_induct)
  case (snoc x xs)
  have "foldM (\<lambda>i s. do { x \<leftarrow> nth_opt (xs @ [x]) i; f x s }) [0..<length xs] s =
      foldM (\<lambda>i s. do { x \<leftarrow> nth_opt xs i; f x s }) [0..<length xs] s"
    by (rule foldM_cong) (simp add: nth_append)
  then show ?case using snoc by (simp add: foldM_append)
qed simp

lemma foldM_invariant:
  assumes "P s" and "\<And>x s. x \<in> set xs \<Longrightarrow> P s \<Longrightarrow> \<exists>s'. f x s = Some s' \<and> P s'"
  shows "\<exists>s'. foldM f xs s = Some s' \<and> P s'"
  using assms
proof (induction xs arbitrary: s)
  case (Cons x xs)
  then obtain s1 where "f x s = Some s1" "P s1" by fastforce
  then show ?case using Cons by fastforce
qed simp

text \<open>
  A loop whose body always succeeds under an invariant and adds (or removes) a known set to an
  abstraction adds (or removes) the union.
\<close>

lemma foldM_union:
  assumes "\<forall>x\<in>set xs. \<forall>s. I s \<longrightarrow> (\<exists>s'. f x s = Some s' \<and> I s' \<and> a s' = a s \<union> B x)" and "I s"
  shows "\<exists>s'. foldM f xs s = Some s' \<and> I s' \<and> a s' = a s \<union> (\<Union>x\<in>set xs. B x)"
  using assms
proof (induction xs arbitrary: s)
  case (Cons x xs)
  then obtain s1 where s1: "f x s = Some s1" "I s1" "a s1 = a s \<union> B x" by (meson list.set_intros(1))
  then obtain s' where "foldM f xs s1 = Some s'" "I s'" "a s' = a s1 \<union> (\<Union>x\<in>set xs. B x)"
    using Cons.IH [OF _ s1(2)] Cons.prems(1) by (meson list.set_intros(2))
  then show ?case using s1 by auto
qed simp

lemma foldM_diff:
  assumes "\<forall>x\<in>set xs. \<forall>s. I s \<longrightarrow> (\<exists>s'. f x s = Some s' \<and> I s' \<and> a s' = a s - B x)" and "I s"
  shows "\<exists>s'. foldM f xs s = Some s' \<and> I s' \<and> a s' = a s - (\<Union>x\<in>set xs. B x)"
  using assms
proof (induction xs arbitrary: s)
  case (Cons x xs)
  then obtain s1 where s1: "f x s = Some s1" "I s1" "a s1 = a s - B x" by (meson list.set_intros(1))
  then obtain s' where "foldM f xs s1 = Some s'" "I s'" "a s' = a s1 - (\<Union>x\<in>set xs. B x)"
    using Cons.IH [OF _ s1(2)] Cons.prems(1) by (meson list.set_intros(2))
  then show ?case using s1 by auto
qed simp

end
