(* ===== verification/Bitmaps.thy ===== *)
theory Bitmaps
  imports Arc_Prelude
begin

unbundle bit_operations_syntax

text \<open>
  Bitmaps stored as arrays of machine words.  The physical memory manager keeps one bit per page in
  bytes, a capability space one bit per slot in 32-bit words.  Both are instances of the locale
  \<open>bitmap\<close>, whose laws say that a set or a clear changes exactly one bit; its lemmas, proved once,
  say what that does to the set of free indices and to their number.
\<close>

definition bit_at :: "'a::len word list \<Rightarrow> nat \<Rightarrow> bool" where
  "bit_at bm i = bit (bm ! (i div LENGTH('a))) (i mod LENGTH('a))"

definition free_set :: "(nat \<Rightarrow> bool option) \<Rightarrow> nat \<Rightarrow> nat set" where
  "free_set tst n = {i. i < n \<and> tst i = Some False}"

lemma bit_at_or_push_bit:
  fixes bm :: "'a::len word list"
  assumes "i div LENGTH('a) < length bm"
  shows "bit_at (bm[i div LENGTH('a) := bm ! (i div LENGTH('a)) OR push_bit (i mod LENGTH('a)) 1]) j
    \<longleftrightarrow> j = i \<or> bit_at bm j"
proof (cases "j div LENGTH('a) = i div LENGTH('a)")
  case True
  moreover have "j mod LENGTH('a) = i mod LENGTH('a) \<longleftrightarrow> j = i"
    using True by (metis div_mult_mod_eq)
  ultimately show ?thesis
    using assms by (auto simp: bit_at_def)
qed (auto simp: bit_at_def)

lemma bit_at_and_not_push_bit:
  fixes bm :: "'a::len word list"
  assumes "i div LENGTH('a) < length bm"
  shows "bit_at (bm[i div LENGTH('a) := bm ! (i div LENGTH('a)) AND NOT (push_bit (i mod LENGTH('a)) 1)]) j
    \<longleftrightarrow> j \<noteq> i \<and> bit_at bm j"
proof (cases "j div LENGTH('a) = i div LENGTH('a)")
  case True
  moreover have "j mod LENGTH('a) = i mod LENGTH('a) \<longleftrightarrow> j = i"
    using True by (metis div_mult_mod_eq)
  ultimately show ?thesis
    using assms by (auto simp: bit_at_def)
qed (auto simp: bit_at_def)

lemma bit_at_append:
  fixes bm :: "'a::len word list"
  shows "bit_at (bm @ xs) i \<longleftrightarrow>
    (if i < LENGTH('a) * length bm then bit_at bm i else bit_at xs (i - LENGTH('a) * length bm))"
proof (cases "i < LENGTH('a) * length bm")
  case True
  then have "i div LENGTH('a) < length bm" by (simp add: less_mult_imp_div_less mult.commute)
  then show ?thesis using True by (simp add: bit_at_def nth_append)
next
  case False
  then obtain k where k: "i = LENGTH('a) * length bm + k" using le_Suc_ex not_less by blast
  then show ?thesis using False by (simp add: bit_at_def nth_append)
qed

lemma bit_at_zero: "i < LENGTH('a) * n \<Longrightarrow> \<not> bit_at (replicate n (0 :: 'a::len word)) i"
  by (simp add: bit_at_def less_mult_imp_div_less mult.commute)

lemma free_set_code [code]: "free_set tst n = set (filter (\<lambda>i. tst i = Some False) [0..<n])"
  by (auto simp: free_set_def)

lemma finite_free_set [simp]: "finite (free_set tst n)"
  by (simp add: free_set_def)

lemma card_free_set_le: "card (free_set tst n) \<le> n"
proof -
  have "free_set tst n \<subseteq> {..<n}" by (auto simp: free_set_def)
  then show ?thesis using card_mono [of "{..<n}"] by auto
qed

lemma in_free_setI [intro]: "i < n \<Longrightarrow> tst i = Some False \<Longrightarrow> i \<in> free_set tst n"
  by (simp add: free_set_def)

section \<open>The interface\<close>

locale bitmap =
  fixes cap :: "'s \<Rightarrow> nat"
    and test :: "'s \<Rightarrow> nat \<Rightarrow> bool option"
    and set_bit :: "'s \<Rightarrow> nat \<Rightarrow> 's option"
    and clear_bit :: "'s \<Rightarrow> nat \<Rightarrow> 's option"
  assumes test_dom: "test s i \<noteq> None \<longleftrightarrow> i < cap s"
    and set_dom: "set_bit s i \<noteq> None \<longleftrightarrow> i < cap s"
    and clear_dom: "clear_bit s i \<noteq> None \<longleftrightarrow> i < cap s"
    and test_set: "set_bit s i = Some s' \<Longrightarrow> test s' j = (if j = i then Some True else test s j)"
    and test_clear: "clear_bit s i = Some s' \<Longrightarrow> test s' j = (if j = i then Some False else test s j)"
begin

lemma cap_eqI:
  assumes "\<And>j. test s' j \<noteq> None \<longleftrightarrow> test s j \<noteq> None"
  shows "cap s' = cap s"
  using assms unfolding test_dom by (meson linorder_neqE_nat less_irrefl)

lemma cap_set:
  assumes "set_bit s i = Some s'"
  shows "cap s' = cap s"
proof (rule cap_eqI)
  fix j
  have "i < cap s" using assms set_dom [of s i] by simp
  then show "test s' j \<noteq> None \<longleftrightarrow> test s j \<noteq> None"
    using test_set [OF assms, of j] test_dom [of s i] by auto
qed

lemma cap_clear:
  assumes "clear_bit s i = Some s'"
  shows "cap s' = cap s"
proof (rule cap_eqI)
  fix j
  have "i < cap s" using assms clear_dom [of s i] by simp
  then show "test s' j \<noteq> None \<longleftrightarrow> test s j \<noteq> None"
    using test_clear [OF assms, of j] test_dom [of s i] by auto
qed

lemma test_Some: "i < cap s \<Longrightarrow> \<exists>b. test s i = Some b"
  using test_dom [of s i] by auto

lemma set_Some: "i < cap s \<Longrightarrow> \<exists>s'. set_bit s i = Some s'"
  using set_dom [of s i] by auto

lemma clear_Some: "i < cap s \<Longrightarrow> \<exists>s'. clear_bit s i = Some s'"
  using clear_dom [of s i] by auto

lemma free_set_set: "set_bit s i = Some s' \<Longrightarrow> free_set (test s') n = free_set (test s) n - {i}"
  by (auto simp: free_set_def test_set split: if_splits)

lemma free_set_clear:
  "clear_bit s i = Some s' \<Longrightarrow> i < n \<Longrightarrow> free_set (test s') n = insert i (free_set (test s) n)"
  by (auto simp: free_set_def test_clear split: if_splits)

lemma card_free_set:
  "set_bit s i = Some s' \<Longrightarrow> i < n \<Longrightarrow> test s i = Some False \<Longrightarrow>
    Suc (card (free_set (test s') n)) = card (free_set (test s) n)"
  by (simp add: free_set_set in_free_setI card_gt_0_iff) (metis Suc_pred card_gt_0_iff empty_iff finite_free_set in_free_setI)

lemma card_free_clear:
  "clear_bit s i = Some s' \<Longrightarrow> i < n \<Longrightarrow> test s i = Some True \<Longrightarrow>
    card (free_set (test s') n) = Suc (card (free_set (test s) n))"
  by (subst free_set_clear) (auto simp: free_set_def)

lemma free_set_set_clear:
  assumes "set_bit s i = Some s1" and "clear_bit s1 i = Some s2" and "test s i = Some False"
  shows "test s2 = test s"
proof
  fix j
  show "test s2 j = test s j"
    using assms test_set [OF assms(1), of j] test_clear [OF assms(2), of j] by simp
qed

end

end
