(* ===== verification/PageSource.thy ===== *)
theory PageSource
  imports Arc_Prelude
begin

text \<open>
  The interface of a physical page allocator as its clients see it: pages are named by their
  physical address, \<open>avail\<close> is the set of page numbers that can be handed out, NULL is failure.
  The address of page 0 is NULL, so a page 0 that is handed out is lost to the caller; the contract
  says so.  The clients (memory objects, the heap, I/O buffers) use the lemmas of the locale.
\<close>

definition page_no :: "u64 \<Rightarrow> nat" where
  "page_no p = unat (p div PAGE_SIZE)"

lemma page_no_NULL [simp]: "page_no 0 = 0"
  by (simp add: page_no_def)

lemma page_no_eq: "page_no p = unat p div 4096"
  by (simp add: page_no_def unat_div)

lemma page_no_inj: "p AND 4095 = 0 \<Longrightarrow> q AND 4095 = 0 \<Longrightarrow> page_no p = page_no q \<Longrightarrow> p = q"
  unfolding and_4095_eq_0_iff page_no_eq
  by (metis add.right_neutral div_mult_mod_eq word_unat_eq_iff)

lemma page_no_of_nat:
  assumes "k < 2 ^ 32"
  shows "page_no (of_nat k * PAGE_SIZE) = k" and "(of_nat k * PAGE_SIZE) AND 4095 = 0"
  using assms by (simp_all add: page_no_eq and_4095_eq_0_iff unat_word_ariths unat_of_nat_less)

locale page_source =
  fixes inv :: "'s \<Rightarrow> bool" and avail :: "'s \<Rightarrow> nat set" and tracked :: "'s \<Rightarrow> nat"
    and alloc :: "'s \<Rightarrow> ('s \<times> u64) option" and free :: "u64 \<Rightarrow> 's \<Rightarrow> 's option"
  assumes avail_tracked: "k \<in> avail s \<Longrightarrow> k < tracked s"
    and alloc_law: "inv s \<Longrightarrow> \<exists>s' p. alloc s = Some (s', p) \<and> inv s' \<and> tracked s' = tracked s \<and>
      avail s' = avail s - {page_no p} \<and> p AND 4095 = 0 \<and> (p \<noteq> NULL \<longrightarrow> page_no p \<in> avail s)"
    and free_law: "inv s \<Longrightarrow> \<exists>s'. free p s = Some s' \<and> inv s' \<and> tracked s' = tracked s \<and>
      avail s' = (if page_no p < tracked s then insert (page_no p) (avail s) else avail s)"
begin

lemma allocE:
  assumes "inv s"
  obtains s' p where "alloc s = Some (s', p)" and "inv s'" and "tracked s' = tracked s"
    and "avail s' = avail s - {page_no p}" and "p AND 4095 = 0" and "p \<noteq> NULL \<longrightarrow> page_no p \<in> avail s"
  using alloc_law [OF assms] by blast

lemma alloc_free:
  assumes "inv s" and "alloc s = Some (s1, p)" and "p \<noteq> NULL"
  shows "\<exists>s2. free p s1 = Some s2 \<and> inv s2 \<and> tracked s2 = tracked s \<and> avail s2 = avail s"
proof -
  obtain s' q where "alloc s = Some (s', q)" "inv s'" "tracked s' = tracked s"
    "avail s' = avail s - {page_no q}" "q \<noteq> NULL \<longrightarrow> page_no q \<in> avail s"
    using alloc_law [OF assms(1)] by blast
  with assms have s1: "inv s1" "tracked s1 = tracked s" "avail s1 = avail s - {page_no p}" "page_no p \<in> avail s"
    by auto
  then show ?thesis
    using free_law [OF s1(1), of p] avail_tracked [OF s1(4)] by (auto simp: insert_absorb)
qed

lemma free_all:
  assumes "inv s"
  shows "\<exists>s'. foldM (\<lambda>p s. if p \<noteq> 0 then free p s else Some s) ps s = Some s' \<and> inv s' \<and> tracked s' = tracked s \<and>
    avail s' = avail s \<union> {page_no p |p. p \<in> set ps \<and> p \<noteq> 0 \<and> page_no p < tracked s}"
  using assms
proof (induction ps arbitrary: s)
  case (Cons p ps)
  obtain s1 where s1: "(if p \<noteq> 0 then free p s else Some s) = Some s1" "inv s1" "tracked s1 = tracked s"
    "avail s1 = avail s \<union> {page_no q |q. q = p \<and> q \<noteq> 0 \<and> page_no q < tracked s}"
    using free_law [OF Cons.prems, of p] Cons.prems by (cases "p = 0") auto
  from Cons.IH [OF s1(2)] obtain s' where
    "foldM (\<lambda>p s. if p \<noteq> 0 then free p s else Some s) ps s1 = Some s'" "inv s'" "tracked s' = tracked s"
    "avail s' = avail s1 \<union> {page_no q |q. q \<in> set ps \<and> q \<noteq> 0 \<and> page_no q < tracked s}"
    unfolding s1(3) by blast
  then show ?case
    unfolding foldM.simps s1(1) bind.bind_lunit s1(4) by auto
qed simp

end

end
