(* ===== verification/Pmm.thy ===== *)
theory Pmm
  imports Bitmaps PageSource
begin

unbundle bit_operations_syntax

text \<open>
  The physical page allocator of \<^verbatim>\<open>mk/vm/pmm.c\<close> (x86): one bit per page in a byte array, a
  counter of free pages, and the optional reference-count array.  Page indices are natural
  numbers below \<open>2 ^ 32\<close>; sums the code forms in \<^verbatim>\<open>uint32_t\<close> are reduced modulo \<open>2 ^ 32\<close>.
  An access outside the bitmap is \<open>None\<close>.

  The invariant \<open>pmm_inv\<close> says that the counter is the number of clear bits below
  \<open>total_pages\<close> and that the bitmap covers every tracked page.
\<close>

record pmm =
  bitmap_mem :: "u8 list"
  total_pages :: u32
  free_pages :: u32
  refcounts :: "u16 list option"

definition bitmap_set :: "u8 list \<Rightarrow> nat \<Rightarrow> u8 list option" where
  "bitmap_set bm page = do {
     b \<leftarrow> nth_opt bm (page div 8);
     upd_opt bm (page div 8) (b OR push_bit (page mod 8) 1)
   }"

definition bitmap_clear :: "u8 list \<Rightarrow> nat \<Rightarrow> u8 list option" where
  "bitmap_clear bm page = do {
     b \<leftarrow> nth_opt bm (page div 8);
     upd_opt bm (page div 8) (b AND NOT (push_bit (page mod 8) 1))
   }"

definition bitmap_test :: "u8 list \<Rightarrow> nat \<Rightarrow> bool option" where
  "bitmap_test bm page = do {
     b \<leftarrow> nth_opt bm (page div 8);
     Some (b AND push_bit (page mod 8) 1 \<noteq> 0)
   }"

definition set_refcount :: "nat \<Rightarrow> pmm \<Rightarrow> pmm option" where
  "set_refcount i s = (case refcounts s of
     None \<Rightarrow> Some s
   | Some rc \<Rightarrow> do { rc' \<leftarrow> upd_opt rc i 1; Some (s\<lparr>refcounts := Some rc'\<rparr>) })"

fun pmm_alloc_page_loop :: "pmm \<Rightarrow> nat \<Rightarrow> nat \<Rightarrow> (pmm \<times> u64) option" where
  "pmm_alloc_page_loop s i 0 = Some (s, NULL)"
| "pmm_alloc_page_loop s i (Suc n) = do {
     used \<leftarrow> bitmap_test (bitmap_mem s) i;
     if \<not> used then do {
       bm \<leftarrow> bitmap_set (bitmap_mem s) i;
       let s = s\<lparr>bitmap_mem := bm\<rparr>;
       now_used \<leftarrow> bitmap_test bm i;
       if \<not> now_used then pmm_alloc_page_loop s (Suc i) n
       else do {
         s \<leftarrow> set_refcount i (s\<lparr>free_pages := free_pages s - 1\<rparr>);
         Some (s, of_nat i * PAGE_SIZE)
       }
     }
     else pmm_alloc_page_loop s (Suc i) n
   }"

definition pmm_alloc_page :: "pmm \<Rightarrow> (pmm \<times> u64) option" where
  "pmm_alloc_page s =
     (if free_pages s = 0 then Some (s, NULL)
      else pmm_alloc_page_loop s 0 (unat (total_pages s)))"

fun pages_free_run :: "u8 list \<Rightarrow> nat \<Rightarrow> nat \<Rightarrow> bool option" where
  "pages_free_run bm i 0 = Some True"
| "pages_free_run bm i (Suc n) = do {
     used \<leftarrow> bitmap_test bm (i mod 2 ^ 32);
     if used then Some False else pages_free_run bm (Suc i) n
   }"

fun pages_take :: "pmm \<Rightarrow> nat \<Rightarrow> nat \<Rightarrow> pmm option" where
  "pages_take s i 0 = Some s"
| "pages_take s i (Suc n) = do {
     bm \<leftarrow> bitmap_set (bitmap_mem s) (i mod 2 ^ 32);
     s \<leftarrow> set_refcount (i mod 2 ^ 32) (s\<lparr>bitmap_mem := bm, free_pages := free_pages s - 1\<rparr>);
     pages_take s (Suc i) n
   }"

fun pmm_alloc_pages_loop :: "pmm \<Rightarrow> nat \<Rightarrow> nat \<Rightarrow> nat \<Rightarrow> (pmm \<times> u64) option" where
  "pmm_alloc_pages_loop s count i 0 = Some (s, NULL)"
| "pmm_alloc_pages_loop s count i (Suc n) = do {
     run \<leftarrow> pages_free_run (bitmap_mem s) i count;
     if run then do {
       s \<leftarrow> pages_take s i count;
       Some (s, of_nat i * PAGE_SIZE)
     }
     else pmm_alloc_pages_loop s count (Suc i) n
   }"

definition pmm_alloc_pages :: "u32 \<Rightarrow> pmm \<Rightarrow> (pmm \<times> u64) option" where
  "pmm_alloc_pages count s =
     (if count = 0 \<or> free_pages s < count then Some (s, NULL)
      else pmm_alloc_pages_loop s (unat count) 0 (Suc (unat (total_pages s - count))))"

definition pmm_free_index :: "nat \<Rightarrow> pmm \<Rightarrow> pmm option" where
  "pmm_free_index idx s =
     (if idx < unat (total_pages s) then do {
        used \<leftarrow> bitmap_test (bitmap_mem s) idx;
        if used then do {
          bm \<leftarrow> bitmap_clear (bitmap_mem s) idx;
          Some (s\<lparr>bitmap_mem := bm, free_pages := free_pages s + 1\<rparr>)
        }
        else Some s
      }
      else Some s)"

definition pmm_free_page :: "u64 \<Rightarrow> pmm \<Rightarrow> pmm option" where
  "pmm_free_page page s = pmm_free_index (unat (page div PAGE_SIZE)) s"

fun pmm_free_pages_loop :: "u64 \<Rightarrow> nat \<Rightarrow> nat \<Rightarrow> pmm \<Rightarrow> pmm option" where
  "pmm_free_pages_loop start i 0 s = Some s"
| "pmm_free_pages_loop start i (Suc n) s = do {
     s \<leftarrow> pmm_free_index (unat (start + of_nat i)) s;
     pmm_free_pages_loop start (Suc i) n s
   }"

definition pmm_free_pages :: "u64 \<Rightarrow> u32 \<Rightarrow> pmm \<Rightarrow> pmm option" where
  "pmm_free_pages addr count s = pmm_free_pages_loop (addr div PAGE_SIZE) 0 (unat count) s"

section \<open>The invariant\<close>

definition pmm_used :: "pmm \<Rightarrow> nat \<Rightarrow> bool option" where
  "pmm_used s = bitmap_test (bitmap_mem s)"

definition pmm_free :: "pmm \<Rightarrow> nat set" where
  "pmm_free s = free_set (pmm_used s) (unat (total_pages s))"

definition pmm_inv :: "pmm \<Rightarrow> bool" where
  "pmm_inv s \<longleftrightarrow>
     unat (total_pages s) \<le> 8 * length (bitmap_mem s) \<and>
     unat (free_pages s) = card (pmm_free s) \<and>
     (case refcounts s of None \<Rightarrow> True | Some rc \<Rightarrow> unat (total_pages s) \<le> length rc)"

section \<open>The byte bitmap is a bitmap\<close>

lemma bitmap_test_eq: "bitmap_test bm i = (if i < 8 * length bm then Some (bit_at bm i) else None)"
  by (auto simp: bitmap_test_def nth_opt_def bit_at_def)

lemma bitmap_set_eq: "bitmap_set bm i =
    (if i < 8 * length bm then Some (bm[i div 8 := bm ! (i div 8) OR push_bit (i mod 8) 1]) else None)"
  by (auto simp: bitmap_set_def nth_opt_def upd_opt_def)

lemma bitmap_clear_eq: "bitmap_clear bm i =
    (if i < 8 * length bm then Some (bm[i div 8 := bm ! (i div 8) AND NOT (push_bit (i mod 8) 1)]) else None)"
  by (auto simp: bitmap_clear_def nth_opt_def upd_opt_def)

interpretation pb: bitmap "\<lambda>bm. 8 * length bm" bitmap_test bitmap_set bitmap_clear
proof unfold_locales
  fix bm :: "u8 list" and i j :: nat and bm' :: "u8 list"
  show "bitmap_test bm i \<noteq> None \<longleftrightarrow> i < 8 * length bm" by (simp add: bitmap_test_eq)
  show "bitmap_set bm i \<noteq> None \<longleftrightarrow> i < 8 * length bm" by (simp add: bitmap_set_eq)
  show "bitmap_clear bm i \<noteq> None \<longleftrightarrow> i < 8 * length bm" by (simp add: bitmap_clear_eq)
  show "bitmap_test bm' j = (if j = i then Some True else bitmap_test bm j)" if "bitmap_set bm i = Some bm'"
    using that bit_at_or_push_bit [of i bm j]
    by (auto simp: bitmap_set_eq bitmap_test_eq less_mult_imp_div_less mult.commute split: if_splits)
  show "bitmap_test bm' j = (if j = i then Some False else bitmap_test bm j)" if "bitmap_clear bm i = Some bm'"
    using that bit_at_and_not_push_bit [of i bm j]
    by (auto simp: bitmap_clear_eq bitmap_test_eq less_mult_imp_div_less mult.commute split: if_splits)
qed

section \<open>Taking and giving back one page\<close>

text \<open>
  The state after page \<open>k\<close> has been taken: its bit is set, the counter is down by one and its
  reference count is 1.
\<close>

definition take_page :: "nat \<Rightarrow> pmm \<Rightarrow> pmm" where
  "take_page k s = s\<lparr>bitmap_mem := the (bitmap_set (bitmap_mem s) k),
     free_pages := free_pages s - 1,
     refcounts := map_option (\<lambda>rc. rc[k := 1]) (refcounts s)\<rparr>"

lemma pmm_inv_bound: "pmm_inv s \<Longrightarrow> k < unat (total_pages s) \<Longrightarrow> k < 8 * length (bitmap_mem s)"
  by (simp add: pmm_inv_def)

lemma pmm_free_bound: "k \<in> pmm_free s \<Longrightarrow> k < unat (total_pages s)"
  by (simp add: pmm_free_def free_set_def)

lemma finite_pmm_free [simp]: "finite (pmm_free s)"
  by (simp add: pmm_free_def)

lemma in_pmm_free_iff: "k \<in> pmm_free s \<longleftrightarrow> k < unat (total_pages s) \<and> bitmap_test (bitmap_mem s) k = Some False"
  by (auto simp: pmm_free_def free_set_def pmm_used_def)

lemma set_refcount_eq:
  "pmm_inv s \<Longrightarrow> k < unat (total_pages s) \<Longrightarrow>
    set_refcount k (s\<lparr>bitmap_mem := bm, free_pages := f\<rparr>) =
      Some (s\<lparr>bitmap_mem := bm, free_pages := f, refcounts := map_option (\<lambda>rc. rc[k := 1]) (refcounts s)\<rparr>)"
  by (cases "refcounts s") (auto simp: set_refcount_def pmm_inv_def)

lemma total_take_page [simp]: "total_pages (take_page k s) = total_pages s"
  by (simp add: take_page_def)

lemma take_page_inv:
  assumes "pmm_inv s" and "k \<in> pmm_free s"
  shows "pmm_inv (take_page k s)" and "pmm_free (take_page k s) = pmm_free s - {k}"
proof -
  have k: "k < unat (total_pages s)" and f: "bitmap_test (bitmap_mem s) k = Some False"
    using assms(2) by (auto simp: in_pmm_free_iff)
  obtain bm where bm: "bitmap_set (bitmap_mem s) k = Some bm"
    using pb.set_Some pmm_inv_bound [OF assms(1) k] by blast
  show free: "pmm_free (take_page k s) = pmm_free s - {k}"
    using pb.free_set_set [OF bm] by (simp add: pmm_free_def pmm_used_def take_page_def bm)
  have "Suc (card (pmm_free (take_page k s))) = card (pmm_free s)"
    using assms(2) card_Suc_Diff1 [OF finite_pmm_free] unfolding free by blast
  then have "unat (free_pages s - 1) = card (pmm_free (take_page k s))"
    using assms(1) by (simp add: pmm_inv_def unat_sub_if_size)
  then show "pmm_inv (take_page k s)"
    using assms(1) pb.cap_set [OF bm]
    by (cases "refcounts s") (auto simp: pmm_inv_def take_page_def bm)
qed

lemma alloc_step:
  assumes "pmm_inv s" and "k \<in> pmm_free s"
  shows "do { bm \<leftarrow> bitmap_set (bitmap_mem s) k;
      set_refcount k (s\<lparr>bitmap_mem := bm, free_pages := free_pages s - 1\<rparr>) } = Some (take_page k s)"
proof -
  have k: "k < unat (total_pages s)"
    using assms(2) by (auto simp: in_pmm_free_iff)
  obtain bm where bm: "bitmap_set (bitmap_mem s) k = Some bm"
    using pb.set_Some pmm_inv_bound [OF assms(1) k] by blast
  then show ?thesis
    using set_refcount_eq [OF assms(1) k] by (simp add: take_page_def)
qed

lemma free_index_correct:
  assumes "pmm_inv s"
  shows "\<exists>s'. pmm_free_index k s = Some s' \<and> pmm_inv s' \<and> total_pages s' = total_pages s \<and>
    pmm_free s' = (if k < unat (total_pages s) then insert k (pmm_free s) else pmm_free s)"
proof (cases "k < unat (total_pages s)")
  case True
  then obtain b bm where b: "bitmap_test (bitmap_mem s) k = Some b"
    and bm: "bitmap_clear (bitmap_mem s) k = Some bm"
    using pb.test_Some pb.clear_Some pmm_inv_bound [OF assms] by metis
  show ?thesis
  proof (cases b)
    case used: True
    let ?s = "s\<lparr>bitmap_mem := bm, free_pages := free_pages s + 1\<rparr>"
    have "card (pmm_free ?s) = Suc (card (pmm_free s))"
      using pb.card_free_clear [OF bm True] b used by (simp add: pmm_free_def pmm_used_def)
    moreover from this have "unat (free_pages s + 1) = Suc (card (pmm_free s))"
      using assms card_free_set_le [of "pmm_used ?s" "unat (total_pages s)"] unsigned_less [of "total_pages s", where ?'a = nat]
      by (simp add: pmm_inv_def pmm_free_def unat_add_less)
    ultimately have "pmm_inv ?s"
      using assms pb.cap_clear [OF bm] by (cases "refcounts s") (auto simp: pmm_inv_def)
    then show ?thesis
      using True b used bm pb.free_set_clear [OF bm True]
      by (simp add: pmm_free_index_def pmm_free_def pmm_used_def)
  next
    case False
    then have "k \<in> pmm_free s" using True b by (simp add: in_pmm_free_iff)
    then show ?thesis
      using True b False assms by (simp add: pmm_free_index_def insert_absorb)
  qed
qed (use assms in \<open>simp add: pmm_free_index_def\<close>)

section \<open>The scans\<close>

lemma alloc_page_loop_eq:
  assumes "pmm_inv s" and "i + n = unat (total_pages s)"
  shows "pmm_alloc_page_loop s i n =
    (case List.find (\<lambda>k. k \<in> pmm_free s) [i..<i + n] of
       None \<Rightarrow> Some (s, NULL)
     | Some k \<Rightarrow> Some (take_page k s, of_nat k * PAGE_SIZE))"
  using assms(2)
proof (induction n arbitrary: i)
  case (Suc n)
  then have i: "i < unat (total_pages s)" by simp
  then obtain b bm where b: "bitmap_test (bitmap_mem s) i = Some b"
    and bm: "bitmap_set (bitmap_mem s) i = Some bm"
    using pb.test_Some pb.set_Some pmm_inv_bound [OF assms(1)] by metis
  have upt: "[i..<i + Suc n] = i # [Suc i..<Suc i + n]" by (simp add: upt_conv_Cons)
  have free: "i \<in> pmm_free s \<longleftrightarrow> \<not> b" using i b by (auto simp: in_pmm_free_iff)
  show ?case
  proof (cases b)
    case True
    then show ?thesis unfolding upt using Suc b free by simp
  next
    case False
    then have "set_refcount i (s\<lparr>bitmap_mem := bm, free_pages := free_pages s - 1\<rparr>) = Some (take_page i s)"
      using alloc_step [OF assms(1), of i] free bm by simp
    moreover have "bitmap_test bm i = Some True" by (simp add: pb.test_set [OF bm])
    ultimately show ?thesis unfolding upt using False b free bm by simp
  qed
qed simp

lemma find_free_Min:
  assumes "i = 0"
  shows "List.find (\<lambda>k. k \<in> pmm_free s) [i..<unat (total_pages s)] =
    (if pmm_free s = {} then None else Some (Min (pmm_free s)))"
proof (cases "pmm_free s = {}")
  case False
  then have "Min (pmm_free s) \<in> pmm_free s" by simp
  moreover have "j \<notin> pmm_free s" if "j < Min (pmm_free s)" for j
    using that False by (meson Min_le finite_pmm_free leD)
  ultimately show ?thesis
    using False assms by (auto simp: find_upt_Some_iff pmm_free_bound)
qed (auto simp: find_upt_None_iff)

lemma pmm_inv_free_zero: "pmm_inv s \<Longrightarrow> free_pages s = 0 \<longleftrightarrow> pmm_free s = {}"
  by (auto simp: pmm_inv_def unat_eq_zero [symmetric])

lemma pmm_alloc_page_eq:
  assumes "pmm_inv s"
  shows "pmm_alloc_page s = (if pmm_free s = {} then Some (s, NULL)
    else Some (take_page (Min (pmm_free s)) s, of_nat (Min (pmm_free s)) * PAGE_SIZE))"
  using alloc_page_loop_eq [OF assms, of 0 "unat (total_pages s)"]
  by (auto simp: pmm_alloc_page_def pmm_inv_free_zero [OF assms] find_free_Min)

lemma pages_free_run_eq:
  assumes "pmm_inv s" and "i + n \<le> unat (total_pages s)"
  shows "pages_free_run (bitmap_mem s) i n = Some ({i..<i + n} \<subseteq> pmm_free s)"
  using assms(2)
proof (induction n arbitrary: i)
  case (Suc n)
  then have i: "i < unat (total_pages s)" by simp
  then obtain b where b: "bitmap_test (bitmap_mem s) i = Some b"
    using pb.test_Some pmm_inv_bound [OF assms(1)] by metis
  have "i mod 2 ^ 32 = i"
    using i unsigned_less [of "total_pages s", where ?'a = nat] by simp
  moreover have "{i..<i + Suc n} = insert i {Suc i..<Suc i + n}" by auto
  moreover have "i \<in> pmm_free s \<longleftrightarrow> \<not> b" using i b by (auto simp: in_pmm_free_iff)
  ultimately show ?case using Suc b by auto
qed simp

lemma pages_take_correct:
  assumes "pmm_inv s" and "{i..<i + n} \<subseteq> pmm_free s"
  shows "\<exists>s'. pages_take s i n = Some s' \<and> pmm_inv s' \<and> total_pages s' = total_pages s \<and>
    pmm_free s' = pmm_free s - {i..<i + n}"
  using assms
proof (induction n arbitrary: i s)
  case (Suc n)
  then have i: "i \<in> pmm_free s" by auto
  then have m: "i mod 4294967296 = i"
    using pmm_free_bound [OF i] unsigned_less [of "total_pages s", where ?'a = nat] by simp
  note t = take_page_inv [OF Suc.prems(1) i]
  have "{Suc i..<Suc i + n} \<subseteq> pmm_free (take_page i s)"
    using Suc.prems(2) unfolding t(2) by auto
  from Suc.IH [OF t(1) this] obtain s' where
    "pages_take (take_page i s) (Suc i) n = Some s'" "pmm_inv s'" "total_pages s' = total_pages s"
    "pmm_free s' = pmm_free s - {i} - {Suc i..<Suc i + n}"
    unfolding t(2) by auto
  moreover have "pmm_free s - {i} - {Suc i..<Suc i + n} = pmm_free s - {i..<i + Suc n}" by auto
  moreover have "pages_take s i (Suc n) = pages_take (take_page i s) (Suc i) n"
    using alloc_step [OF Suc.prems(1) i] by (simp add: m bind_eq_Some_conv) (auto simp: m)
  ultimately show ?case by metis
qed simp

text \<open>The first pages at which a run of \<open>count\<close> free pages starts.\<close>

definition run_starts :: "nat \<Rightarrow> pmm \<Rightarrow> nat set" where
  "run_starts count s = {i. i + count \<le> unat (total_pages s) \<and> {i..<i + count} \<subseteq> pmm_free s}"

lemma finite_run_starts [simp]: "finite (run_starts count s)"
  by (rule finite_subset [of _ "{..unat (total_pages s)}"]) (auto simp: run_starts_def)

lemma run_starts_bound: "i \<in> run_starts count s \<Longrightarrow> i + count \<le> unat (total_pages s)"
  by (simp add: run_starts_def)

lemma alloc_pages_loop_eq:
  assumes "pmm_inv s" and "i + n + count = Suc (unat (total_pages s))"
  shows "pmm_alloc_pages_loop s count i n =
    (case List.find (\<lambda>k. k \<in> run_starts count s) [i..<i + n] of
       None \<Rightarrow> Some (s, NULL)
     | Some k \<Rightarrow> map_option (\<lambda>s'. (s', of_nat k * PAGE_SIZE)) (pages_take s k count))"
  using assms(2)
proof (induction n arbitrary: i)
  case (Suc n)
  have upt: "[i..<i + Suc n] = i # [Suc i..<Suc i + n]" by (simp add: upt_conv_Cons)
  have "pages_free_run (bitmap_mem s) i count = Some (i \<in> run_starts count s)"
    using pages_free_run_eq [OF assms(1), of i count] Suc.prems by (simp add: run_starts_def)
  then show ?case
    unfolding upt using Suc by (cases "pages_take s i count") auto
qed simp

lemma find_run_starts_Min:
  assumes "count \<le> unat (total_pages s)"
  shows "List.find (\<lambda>k. k \<in> run_starts count s) [0..<Suc (unat (total_pages s) - count)] =
    (if run_starts count s = {} then None else Some (Min (run_starts count s)))"
proof (cases "run_starts count s = {}")
  case False
  then have m: "Min (run_starts count s) \<in> run_starts count s" by simp
  moreover have "j \<notin> run_starts count s" if "j < Min (run_starts count s)" for j
    using that False by (meson Min_le finite_run_starts leD)
  moreover have "Min (run_starts count s) < Suc (unat (total_pages s) - count)"
    using run_starts_bound [OF m] by simp
  ultimately show ?thesis
    using False by (auto simp del: upt_Suc simp: find_upt_Some_iff)
qed (simp del: upt_Suc add: find_upt_None_iff)

lemma run_starts_card:
  assumes "i \<in> run_starts count s"
  shows "count \<le> card (pmm_free s)"
  using assms card_mono [of "pmm_free s" "{i..<i + count}"] by (simp add: run_starts_def)

lemma pmm_inv_count_le: "pmm_inv s \<Longrightarrow> \<not> free_pages s < count \<Longrightarrow> count \<le> total_pages s"
  using card_free_set_le [of "pmm_used s" "unat (total_pages s)"]
  by (simp add: pmm_inv_def pmm_free_def word_less_nat_alt word_le_nat_alt)

lemma pmm_alloc_pages_eq:
  assumes inv: "pmm_inv s" and "count \<noteq> 0"
  shows "pmm_alloc_pages count s =
    (if run_starts (unat count) s = {} then Some (s, NULL)
     else map_option (\<lambda>s'. (s', of_nat (Min (run_starts (unat count) s)) * PAGE_SIZE))
       (pages_take s (Min (run_starts (unat count) s)) (unat count)))"
proof (cases "free_pages s < count")
  case True
  then have "card (pmm_free s) < unat count"
    using inv by (simp add: pmm_inv_def word_less_nat_alt)
  then have "run_starts (unat count) s = {}"
    using run_starts_card by fastforce
  then show ?thesis using True by (simp add: pmm_alloc_pages_def)
next
  case False
  then have le: "count \<le> total_pages s" by (rule pmm_inv_count_le [OF inv])
  then have le': "unat count \<le> unat (total_pages s)" by (simp add: word_le_nat_alt)
  have d: "unat (total_pages s - count) = unat (total_pages s) - unat count"
    using le by (rule unat_sub)
  show ?thesis
    using alloc_pages_loop_eq [OF inv, of 0 "Suc (unat (total_pages s) - unat count)" "unat count"] le' False assms(2)
    unfolding pmm_alloc_pages_def d
    by (simp del: upt_Suc pmm_alloc_pages_loop.simps add: find_run_starts_Min [OF le'])
qed

lemma free_pages_loop_correct:
  assumes "pmm_inv s" and "unat start + i + n < 2 ^ 64"
  shows "\<exists>s'. pmm_free_pages_loop start i n s = Some s' \<and> pmm_inv s' \<and> total_pages s' = total_pages s \<and>
    pmm_free s' = pmm_free s \<union> ({unat start + i..<unat start + i + n} \<inter> {..<unat (total_pages s)})"
  using assms
proof (induction n arbitrary: i s)
  case (Suc n)
  have u: "unat (start + of_nat i) = unat start + i"
    using Suc.prems(2) by (simp add: arc_word)
  from free_index_correct [OF Suc.prems(1), of "unat start + i"] obtain s1 where
    s1: "pmm_free_index (unat start + i) s = Some s1" "pmm_inv s1" "total_pages s1 = total_pages s"
      "pmm_free s1 = (if unat start + i < unat (total_pages s) then insert (unat start + i) (pmm_free s) else pmm_free s)"
    by blast
  from Suc.IH [OF s1(2), of "Suc i"] Suc.prems(2) obtain s' where
    "pmm_free_pages_loop start (Suc i) n s1 = Some s'" "pmm_inv s'" "total_pages s' = total_pages s"
    "pmm_free s' = pmm_free s1 \<union> ({Suc (unat start + i)..<Suc (unat start + i + n)} \<inter> {..<unat (total_pages s)})"
    by (auto simp: s1(3))
  then show ?case
    by (auto simp: u s1 atLeastLessThanSuc_atLeastAtMost)
qed simp

text \<open>A small allocator: sixteen tracked pages, of which 1, 2, 3 and 6 are free.\<close>

definition pmm_example :: pmm where
  "pmm_example = \<lparr>bitmap_mem = [0xB1, 0xFF], total_pages = 16, free_pages = 4, refcounts = Some (replicate 16 1)\<rparr>"

lemma pmm_example_inv: "pmm_inv pmm_example"
  by code_simp

lemma pmm_example_free: "pmm_free pmm_example = {1, 2, 3, 6}"
  by code_simp

lemma pmm_example_runs: "2 \<in> run_starts 2 pmm_example" "run_starts 2 pmm_example = {1, 2}"
  unfolding run_starts_def pmm_example_free by (auto simp: pmm_example_def atLeastLessThanSuc)

section \<open>The allocator is a page source\<close>

lemma pmm_free_u32: "k \<in> pmm_free s \<Longrightarrow> k < 2 ^ 32"
  using pmm_free_bound [of k s] unsigned_less [of "total_pages s", where ?'a = nat] by simp

interpretation ps: page_source pmm_inv pmm_free "\<lambda>s. unat (total_pages s)" pmm_alloc_page pmm_free_page
proof unfold_locales
  fix s :: pmm and k :: nat and p :: u64
  show "k < unat (total_pages s)" if "k \<in> pmm_free s"
    using that by (rule pmm_free_bound)
  show "\<exists>s' p. pmm_alloc_page s = Some (s', p) \<and> pmm_inv s' \<and> unat (total_pages s') = unat (total_pages s) \<and>
      pmm_free s' = pmm_free s - {page_no p} \<and> p AND 4095 = 0 \<and> (p \<noteq> NULL \<longrightarrow> page_no p \<in> pmm_free s)"
    if inv: "pmm_inv s"
  proof (cases "pmm_free s = {}")
    case False
    then have m: "Min (pmm_free s) \<in> pmm_free s" by simp
    show ?thesis
      using False m take_page_inv [OF inv m] page_no_of_nat [OF pmm_free_u32 [OF m]]
      by (simp add: pmm_alloc_page_eq [OF inv])
  qed (simp add: pmm_alloc_page_eq [OF inv] inv)
  show "\<exists>s'. pmm_free_page p s = Some s' \<and> pmm_inv s' \<and> unat (total_pages s') = unat (total_pages s) \<and>
      pmm_free s' = (if page_no p < unat (total_pages s) then insert (page_no p) (pmm_free s) else pmm_free s)"
    if "pmm_inv s"
    using free_index_correct [OF that, of "page_no p"] by (auto simp: pmm_free_page_def page_no_def)
qed

section \<open>Properties\<close>

lemma unat_page_div: "k < 2 ^ 32 \<Longrightarrow> unat ((of_nat k * PAGE_SIZE) div PAGE_SIZE) = k"
  by (simp add: unat_div unat_word_ariths unat_of_nat_less)

text \<open>
  C25. A single-page allocation from a consistent allocator hands out the lowest free page, takes
  exactly that page out of the free set and leaves the allocator consistent; with no free page it
  returns NULL and changes nothing.
\<close>
theorem pmm_alloc_page_correct:
  assumes "pmm_inv s"
  shows "if pmm_free s = {} then pmm_alloc_page s = Some (s, NULL)
    else \<exists>s'. pmm_alloc_page s = Some (s', of_nat (Min (pmm_free s)) * PAGE_SIZE) \<and> pmm_inv s' \<and>
      pmm_free s' = pmm_free s - {Min (pmm_free s)} \<and> total_pages s' = total_pages s"
  using assms take_page_inv [OF assms, of "Min (pmm_free s)"] by (simp add: pmm_alloc_page_eq)

theorem pmm_alloc_page_correct_witness:
  "\<exists>s'. pmm_alloc_page pmm_example = Some (s', 4096) \<and> pmm_free s' = {2, 3, 6} \<and> pmm_inv s'"
  using pmm_alloc_page_correct [OF pmm_example_inv] unfolding pmm_example_free by auto

text \<open>
  C26. A contiguous allocation is first fit: it returns the lowest start of a run of \<open>count\<close> free
  pages and takes exactly those pages; if there is no such run it returns NULL and changes nothing.
\<close>
theorem pmm_alloc_pages_first_fit:
  assumes "pmm_inv s" and "count \<noteq> 0"
  shows "if run_starts (unat count) s = {} then pmm_alloc_pages count s = Some (s, NULL)
    else let i = Min (run_starts (unat count) s) in
      \<exists>s'. pmm_alloc_pages count s = Some (s', of_nat i * PAGE_SIZE) \<and> pmm_inv s' \<and>
        pmm_free s' = pmm_free s - {i..<i + unat count} \<and> total_pages s' = total_pages s"
proof (cases "run_starts (unat count) s = {}")
  case False
  then have "Min (run_starts (unat count) s) \<in> run_starts (unat count) s" by simp
  then show ?thesis
    using pages_take_correct [OF assms(1), of "Min (run_starts (unat count) s)" "unat count"] False
    by (auto simp: pmm_alloc_pages_eq [OF assms] run_starts_def Let_def)
qed (simp add: pmm_alloc_pages_eq [OF assms])

theorem pmm_alloc_pages_first_fit_witness:
  "\<exists>s'. pmm_alloc_pages 2 pmm_example = Some (s', 4096) \<and> pmm_free s' = {3, 6}"
proof -
  have "{1, 2, 3, 6} - {1..<3} = {3, 6::nat}" by auto
  then show ?thesis
    using pmm_alloc_pages_first_fit [OF pmm_example_inv, of 2]
    by (auto simp: pmm_example_runs pmm_example_free)
qed

text \<open>
  C27. Freeing a range makes free exactly the tracked pages of the range and keeps the counter exact,
  whatever part of the range was free before: a double free does not corrupt the counter, and pages
  beyond the tracked memory are ignored.
\<close>
theorem pmm_free_pages_correct:
  assumes "pmm_inv s"
  shows "\<exists>s'. pmm_free_pages addr count s = Some s' \<and> pmm_inv s' \<and> total_pages s' = total_pages s \<and>
    pmm_free s' = pmm_free s \<union>
      {k. unat addr div 4096 \<le> k \<and> k < unat addr div 4096 + unat count \<and> k < unat (total_pages s)}"
proof -
  have b: "unat addr div 4096 < 2 ^ 52" by (simp add: less_mult_imp_div_less unat_u64_less)
  have "unat (addr div PAGE_SIZE) + 0 + unat count < 2 ^ 64"
    using b unat_u32_less [of count] by (simp add: unat_div)
  from free_pages_loop_correct [OF assms this] show ?thesis
    by (auto simp: pmm_free_pages_def unat_div)
qed

theorem pmm_free_pages_correct_witness:
  "\<exists>s'. pmm_free_pages 0x2000 3 pmm_example = Some s' \<and> pmm_free s' = {1, 2, 3, 4, 6} \<and> pmm_inv s'"
proof -
  have "{1, 2, 3, 6} \<union> {k. 2 \<le> k \<and> k < 5 \<and> k < 16} = {1, 2, 3, 4, 6::nat}" by auto
  then show ?thesis
    using pmm_free_pages_correct [OF pmm_example_inv, of "0x2000" 3]
    by (simp add: pmm_example_free) (auto simp: pmm_example_def)
qed

text \<open>
  Allocating a run of pages and freeing it again restores the set of free pages and the free-page
  counter.
\<close>
lemma pmm_alloc_free_round_trip:
  assumes "pmm_inv s" and "count \<noteq> 0" and "run_starts (unat count) s \<noteq> {}"
  shows "\<exists>s1 p s2. pmm_alloc_pages count s = Some (s1, p) \<and> pmm_free_pages p count s1 = Some s2 \<and>
    pmm_free s2 = pmm_free s \<and> free_pages s2 = free_pages s \<and> pmm_inv s2"
proof -
  define i where "i = Min (run_starts (unat count) s)"
  have "i \<in> run_starts (unat count) s" unfolding i_def using assms(3) by simp
  then have sub: "{i..<i + unat count} \<subseteq> pmm_free s" and b: "i + unat count \<le> unat (total_pages s)"
    by (auto simp: run_starts_def)
  obtain s1 where s1: "pages_take s i (unat count) = Some s1" "pmm_inv s1" "total_pages s1 = total_pages s"
    "pmm_free s1 = pmm_free s - {i..<i + unat count}"
    using pages_take_correct [OF assms(1) sub] by blast
  have u: "unat ((of_nat i * PAGE_SIZE) div PAGE_SIZE) = i"
    using b unat_u32_less [of "total_pages s"] by (intro unat_page_div) simp
  have "unat ((of_nat i * PAGE_SIZE) div PAGE_SIZE) + 0 + unat count < 2 ^ 64"
    unfolding u using b unat_u32_less [of "total_pages s"] by simp
  from free_pages_loop_correct [OF s1(2) this] obtain s2 where
    s2: "pmm_free_pages (of_nat i * PAGE_SIZE) count s1 = Some s2" "pmm_inv s2"
      "pmm_free s2 = pmm_free s1 \<union> ({i..<i + unat count} \<inter> {..<unat (total_pages s)})"
    unfolding u pmm_free_pages_def by (auto simp: s1(3))
  have "{i..<i + unat count} \<inter> {..<unat (total_pages s)} = {i..<i + unat count}"
    using b by (simp add: Int_absorb2 subset_eq)
  then have "pmm_free s2 = pmm_free s" using s2(3) s1(4) sub by blast
  moreover from this have "free_pages s2 = free_pages s"
    using s2(2) assms(1) by (simp add: pmm_inv_def word_unat_eq_iff)
  moreover have "pmm_alloc_pages count s = Some (s1, of_nat i * PAGE_SIZE)"
    using assms(3) s1(1) by (simp add: i_def [symmetric] pmm_alloc_pages_eq [OF assms(1,2)])
  ultimately show ?thesis
    using s2(1,2) by blast
qed

lemma pmm_alloc_free_round_trip_witness:
  "\<exists>s1 p s2. pmm_alloc_pages 2 pmm_example = Some (s1, p) \<and> pmm_free_pages p 2 s1 = Some s2 \<and>
    pmm_free s2 = {1, 2, 3, 6}"
  using pmm_alloc_free_round_trip [OF pmm_example_inv, of 2] pmm_example_runs
  by (auto simp: pmm_example_free)

end
