(* ===== verification/PmmInit.thy ===== *)
theory PmmInit
  imports Pmm
begin

unbundle bit_operations_syntax

text \<open>
  Initialisation of the page allocator (\<^verbatim>\<open>pmm_init\<close> in \<^verbatim>\<open>mk/vm/pmm.c\<close>) from the boot loader's
  memory map.  The walk over the boot information is modelled by the list of tags it visits before
  the end tag; an entry of a memory-map tag is a record, the tags the function ignores are
  \<open>TagOther\<close>.  The bootstrap bitmap covers the 4096 pages of the identity-mapped window.

  The tags are read again after the bitmap has been written, and are taken to be unchanged.  That is so when
  the bitmap lies outside the boot information, which the function reserves before it looks for a place.
  When the window has no free page at all, the function does not check that it found a place: it puts the
  bitmap at page 4096, the end of the window, and writes there.  The model returns that place as the code
  does, but holds the bitmap apart from all other memory, so it says nothing about what is overwritten then.

  The theorems say which pages are free afterwards, and that the bitmap is placed in pages that
  belong neither to the kernel image nor to a module nor to the boot information.
\<close>

record mmap_entry =
  mm_addr :: u64
  mm_len :: u64
  mm_type :: u32

datatype mb_tag = TagMmap "mmap_entry list" | TagModule u32 u32 | TagOther

record mboot =
  mb_base :: u64
  mb_total_size :: u32
  mb_tags :: "mb_tag list"

abbreviation BOOTSTRAP_PAGES :: nat where "BOOTSTRAP_PAGES \<equiv> 4096"

fun bmap_range :: "(u8 list \<Rightarrow> nat \<Rightarrow> u8 list option) \<Rightarrow> u8 list \<Rightarrow> nat \<Rightarrow> nat \<Rightarrow> u8 list option" where
  "bmap_range f bm i 0 = Some bm"
| "bmap_range f bm i (Suc n) = do { bm \<leftarrow> f bm i; bmap_range f bm (Suc i) n }"

definition bmap_reserve :: "u32 \<Rightarrow> u32 \<Rightarrow> u8 list \<Rightarrow> u8 list option" where
  "bmap_reserve start end_page bm =
     (let e = (if unat end_page > BOOTSTRAP_PAGES then BOOTSTRAP_PAGES else unat end_page)
      in bmap_range bitmap_set bm (unat start) (e - unat start))"

definition entry_start_page :: "mmap_entry \<Rightarrow> u32" where
  "entry_start_page e = ucast ((mm_addr e + PAGE_SIZE - 1) div PAGE_SIZE)"

definition entry_end_page :: "mmap_entry \<Rightarrow> u32" where
  "entry_end_page e = ucast ((mm_addr e + mm_len e) div PAGE_SIZE)"

definition bootstrap_entry :: "mmap_entry \<Rightarrow> u8 list \<times> u64 \<Rightarrow> (u8 list \<times> u64) option" where
  "bootstrap_entry e = (\<lambda>(bm, mem_end).
     if mm_type e \<noteq> 1 then Some (bm, mem_end)
     else let top = mm_addr e + mm_len e;
              mem_end = (if top > mem_end then top else mem_end);
              start_page = unat (entry_start_page e);
              end_page = unat (entry_end_page e)
       in if start_page \<ge> BOOTSTRAP_PAGES then Some (bm, mem_end)
          else let end_page = (if end_page > BOOTSTRAP_PAGES then BOOTSTRAP_PAGES else end_page)
            in do {
              bm \<leftarrow> bmap_range bitmap_clear bm start_page (end_page - start_page);
              Some (bm, mem_end)
            })"

fun bootstrap_tag :: "mb_tag \<Rightarrow> u8 list \<times> u64 \<Rightarrow> (u8 list \<times> u64) option" where
  "bootstrap_tag (TagMmap es) s = foldM bootstrap_entry es s"
| "bootstrap_tag _ s = Some s"

fun bootstrap_module :: "mb_tag \<Rightarrow> u8 list \<Rightarrow> u8 list option" where
  "bootstrap_module (TagModule ms me) bm = bmap_reserve (ms div 4096) ((me + 4096 - 1) div 4096) bm"
| "bootstrap_module _ bm = Some bm"

definition kernel_end_page :: "u64 \<Rightarrow> u32" where
  "kernel_end_page kernel_end = ucast ((kernel_end + PAGE_SIZE - 1) div PAGE_SIZE)"

text \<open>The bootstrap phase: the reserved bootstrap bitmap and the end of available memory.\<close>

definition pmm_bootstrap :: "u64 \<Rightarrow> mboot \<Rightarrow> (u8 list \<times> u64) option" where
  "pmm_bootstrap kernel_end mb = do {
     (bm, mem_end) \<leftarrow> foldM bootstrap_tag (mb_tags mb) (replicate 512 0xFF, 0);
     bm \<leftarrow> bmap_reserve 0 (kernel_end_page kernel_end) bm;
     bm \<leftarrow> foldM bootstrap_module (mb_tags mb) bm;
     bm \<leftarrow> bmap_reserve (ucast (mb_base mb div PAGE_SIZE))
       (ucast ((mb_base mb + ucast (mb_total_size mb) + PAGE_SIZE - 1) div PAGE_SIZE)) bm;
     Some (bm, mem_end)
   }"

definition bitmap_pages_for :: "u32 \<Rightarrow> nat" where
  "bitmap_pages_for tp =
     (let n = (unat tp div 8 + 4096 - 1) div 4096 in if n = 0 then 1 else n)"

fun find_run :: "u8 list \<Rightarrow> nat \<Rightarrow> nat \<Rightarrow> nat \<Rightarrow> nat \<Rightarrow> nat \<Rightarrow> (nat \<times> nat) option" where
  "find_run bm pages i 0 bstart run = Some (bstart, run)"
| "find_run bm pages i (Suc n) bstart run = do {
     used \<leftarrow> bitmap_test bm i;
     if \<not> used then
       let bstart = (if run = 0 then i else bstart); run = Suc run
       in if run = pages then Some (bstart, run) else find_run bm pages (Suc i) n bstart run
     else find_run bm pages (Suc i) n bstart 0
   }"

fun longest_run :: "u8 list \<Rightarrow> nat \<Rightarrow> nat \<Rightarrow> nat \<Rightarrow> nat \<Rightarrow> nat option" where
  "longest_run bm i 0 r max_run = Some max_run"
| "longest_run bm i (Suc n) r max_run = do {
     used \<leftarrow> bitmap_test bm i;
     if \<not> used then longest_run bm (Suc i) n (Suc r) (if Suc r > max_run then Suc r else max_run)
     else longest_run bm (Suc i) n 0 max_run
   }"

text \<open>The placement of the bitmap: its first page, its number of pages and the pages it tracks.\<close>

definition pmm_place_bitmap :: "u8 list \<Rightarrow> u32 \<Rightarrow> (nat \<times> nat \<times> u32) option" where
  "pmm_place_bitmap bm tp = do {
     let pages = bitmap_pages_for tp;
     (bstart, run) \<leftarrow> find_run bm pages 0 BOOTSTRAP_PAGES BOOTSTRAP_PAGES 0;
     if run \<noteq> pages then do {
       max_run \<leftarrow> longest_run bm 0 BOOTSTRAP_PAGES 0 0;
       let capped = (of_nat max_run :: u64) * 8 * PAGE_SIZE;
       let tp = (ucast (capped div PAGE_SIZE) :: u32);
       let pages = bitmap_pages_for tp;
       (bstart, run) \<leftarrow> find_run bm pages 0 BOOTSTRAP_PAGES BOOTSTRAP_PAGES 0;
       Some (bstart, pages, tp)
     }
     else Some (bstart, pages, tp)
   }"

text \<open>Marking ranges in the real bitmap, with the counter.\<close>

definition init_free_page :: "nat \<Rightarrow> pmm \<Rightarrow> pmm option" where
  "init_free_page i s = do {
     used \<leftarrow> bitmap_test (bitmap_mem s) i;
     if used then do {
       bm \<leftarrow> bitmap_clear (bitmap_mem s) i;
       Some (s\<lparr>bitmap_mem := bm, free_pages := free_pages s + 1\<rparr>)
     }
     else Some s
   }"

definition init_reserve_page :: "nat \<Rightarrow> pmm \<Rightarrow> pmm option" where
  "init_reserve_page i s = do {
     used \<leftarrow> bitmap_test (bitmap_mem s) i;
     if \<not> used then do {
       bm \<leftarrow> bitmap_set (bitmap_mem s) i;
       Some (s\<lparr>bitmap_mem := bm, free_pages := free_pages s - 1\<rparr>)
     }
     else Some s
   }"

definition init_entry :: "mmap_entry \<Rightarrow> pmm \<Rightarrow> pmm option" where
  "init_entry e s =
     (if mm_type e \<noteq> 1 then Some s
      else let start_page = unat (entry_start_page e); end_page = unat (entry_end_page e)
        in if start_page \<ge> unat (total_pages s) then Some s
           else let end_page = (if end_page > unat (total_pages s) then unat (total_pages s) else end_page)
             in foldM init_free_page [start_page..<end_page] s)"

fun init_tag :: "mb_tag \<Rightarrow> pmm \<Rightarrow> pmm option" where
  "init_tag (TagMmap es) s = foldM init_entry es s"
| "init_tag _ s = Some s"

definition init_reserve :: "nat \<Rightarrow> nat \<Rightarrow> pmm \<Rightarrow> pmm option" where
  "init_reserve a b s = foldM init_reserve_page [a..<min b (unat (total_pages s))] s"

fun init_module :: "mb_tag \<Rightarrow> pmm \<Rightarrow> pmm option" where
  "init_module (TagModule ms me) s =
     init_reserve (unat (ms div 4096)) (unat ((me + 4096 - 1) div 4096)) s"
| "init_module _ s = Some s"

definition pmm_init :: "u64 \<Rightarrow> mboot \<Rightarrow> pmm option" where
  "pmm_init kernel_end mb = do {
     (bm, mem_end) \<leftarrow> pmm_bootstrap kernel_end mb;
     (bstart, pages, tp) \<leftarrow> pmm_place_bitmap bm (ucast (mem_end div PAGE_SIZE));
     let s = \<lparr>bitmap_mem = replicate (pages * 4096) 0xFF, total_pages = tp, free_pages = 0, refcounts = None\<rparr>;
     s \<leftarrow> foldM init_tag (mb_tags mb) s;
     s \<leftarrow> init_reserve 0 (unat (kernel_end_page kernel_end)) s;
     s \<leftarrow> init_reserve bstart (bstart + pages) s;
     s \<leftarrow> foldM init_module (mb_tags mb) s;
     init_reserve (unat (mb_base mb div PAGE_SIZE))
       (unat ((mb_base mb + ucast (mb_total_size mb) + PAGE_SIZE - 1) div PAGE_SIZE)) s
   }"

section \<open>Specification\<close>

definition entry_avail :: "mmap_entry \<Rightarrow> nat set" where
  "entry_avail e = (if mm_type e = 1 then {unat (entry_start_page e)..<unat (entry_end_page e)} else {})"

fun tag_avail :: "mb_tag \<Rightarrow> nat set" where
  "tag_avail (TagMmap es) = (\<Union>e\<in>set es. entry_avail e)"
| "tag_avail _ = {}"

fun tag_module :: "mb_tag \<Rightarrow> nat set" where
  "tag_module (TagModule ms me) = {unat (ms div 4096)..<unat ((me + 4096 - 1) div 4096)}"
| "tag_module _ = {}"

definition boot_available :: "mboot \<Rightarrow> nat set" where
  "boot_available mb = (\<Union>t\<in>set (mb_tags mb). tag_avail t)"

definition boot_reserved :: "u64 \<Rightarrow> mboot \<Rightarrow> nat set" where
  "boot_reserved kernel_end mb =
     {..<unat (kernel_end_page kernel_end)} \<union> (\<Union>t\<in>set (mb_tags mb). tag_module t) \<union>
     {unat (mb_base mb div PAGE_SIZE)..<
        unat ((mb_base mb + ucast (mb_total_size mb) + PAGE_SIZE - 1) div PAGE_SIZE)}"

section \<open>The real bitmap\<close>

lemma init_free_page_eq: "k < unat (total_pages s) \<Longrightarrow> init_free_page k s = pmm_free_index k s"
  by (simp add: init_free_page_def pmm_free_index_def)

lemma init_reserve_page_correct:
  assumes "pmm_inv s" and "k < unat (total_pages s)" and "refcounts s = None"
  shows "\<exists>s'. init_reserve_page k s = Some s' \<and>
    (pmm_inv s' \<and> total_pages s' = total_pages s \<and> refcounts s' = None) \<and> pmm_free s' = pmm_free s - {k}"
proof (cases "k \<in> pmm_free s")
  case True
  then have "bitmap_test (bitmap_mem s) k = Some False" by (simp add: in_pmm_free_iff)
  then have "init_reserve_page k s = Some (take_page k s)"
    using alloc_step [OF assms(1) True] assms(3)
    by (auto simp: init_reserve_page_def set_refcount_def bind_eq_Some_conv)
  then show ?thesis
    using take_page_inv [OF assms(1) True] assms(3) by (simp add: take_page_def)
next
  case False
  then have "bitmap_test (bitmap_mem s) k = Some True"
    using assms(2) pb.test_Some [OF pmm_inv_bound [OF assms(1,2)]] by (auto simp: in_pmm_free_iff)
  then show ?thesis
    using False assms by (simp add: init_reserve_page_def)
qed

definition init_ok :: "u32 \<Rightarrow> pmm \<Rightarrow> bool" where
  "init_ok tp s \<longleftrightarrow> pmm_inv s \<and> total_pages s = tp \<and> refcounts s = None"

lemma free_index_refcounts: "pmm_free_index k s = Some s' \<Longrightarrow> refcounts s' = refcounts s"
  by (auto simp: pmm_free_index_def bind_eq_Some_conv split: if_splits)

lemma UN_singleton_upt: "(\<Union>k\<in>set [a..<b]. {k}) = {a..<b}"
  by auto

lemma diff_clip: "A \<subseteq> {..<t} \<Longrightarrow> A - {a..<min b t} = A - {a..<b}" for a b t :: nat
  by auto

lemma pmm_free_subset: "pmm_free s \<subseteq> {..<unat (total_pages s)}"
  by (auto dest: pmm_free_bound)

lemma init_free_page_correct:
  assumes "init_ok tp s" and "k < unat tp"
  shows "\<exists>s'. init_free_page k s = Some s' \<and> init_ok tp s' \<and> pmm_free s' = pmm_free s \<union> {k}"
proof -
  have inv: "pmm_inv s" and t: "total_pages s = tp" and r: "refcounts s = None"
    using assms(1) by (simp_all add: init_ok_def)
  obtain s' where s': "pmm_free_index k s = Some s'" "pmm_inv s'" "total_pages s' = tp"
    "pmm_free s' = insert k (pmm_free s)"
    using free_index_correct [OF inv, of k] assms(2) t by auto
  moreover have "refcounts s' = None" using free_index_refcounts [OF s'(1)] r by simp
  ultimately show ?thesis
    using assms(2) t by (simp add: init_free_page_eq init_ok_def)
qed

lemma free_upt_correct:
  assumes "init_ok tp s" and "b \<le> unat tp"
  shows "\<exists>s'. foldM init_free_page [a..<b] s = Some s' \<and> init_ok tp s' \<and> pmm_free s' = pmm_free s \<union> {a..<b}"
proof -
  have "\<exists>s'. init_free_page k t = Some s' \<and> init_ok tp s' \<and> pmm_free s' = pmm_free t \<union> {k}"
    if "k \<in> set [a..<b]" and "init_ok tp t" for k t
    using that(1) assms(2) by (intro init_free_page_correct [OF that(2)]) simp
  then show ?thesis
    using foldM_union [of "[a..<b]" "init_ok tp" init_free_page pmm_free "\<lambda>k. {k}"] assms(1)
    by (simp only: UN_singleton_upt) blast
qed

lemma init_reserve_correct:
  assumes "init_ok tp s"
  shows "\<exists>s'. init_reserve a b s = Some s' \<and> init_ok tp s' \<and> pmm_free s' = pmm_free s - {a..<b}"
proof -
  have "\<exists>s'. init_reserve_page k t = Some s' \<and> init_ok tp s' \<and> pmm_free s' = pmm_free t - {k}"
    if "k \<in> set [a..<min b (unat tp)]" and "init_ok tp t" for k t
    using that init_reserve_page_correct [of t k] by (simp add: init_ok_def)
  then obtain s' where
    "foldM init_reserve_page [a..<min b (unat tp)] s = Some s'" "init_ok tp s'"
    "pmm_free s' = pmm_free s - {a..<min b (unat tp)}"
    using foldM_diff [of "[a..<min b (unat tp)]" "init_ok tp" init_reserve_page pmm_free "\<lambda>k. {k}"] assms
    by (simp only: UN_singleton_upt) blast
  moreover have "pmm_free s - {a..<min b (unat tp)} = pmm_free s - {a..<b}"
    using assms pmm_free_subset [of s] by (intro diff_clip) (simp add: init_ok_def)
  ultimately show ?thesis
    using assms by (simp add: init_reserve_def init_ok_def)
qed

lemma clip_upt: "{a..<if e > t then t else e} = {a..<e} \<inter> {..<t}" for a e t :: nat
  by auto

lemma clip_upt_empty: "t \<le> a \<Longrightarrow> {a..<e} \<inter> {..<t} = {}" for a e t :: nat
  by auto

lemma init_entry_correct:
  assumes "init_ok tp s"
  shows "\<exists>s'. init_entry e s = Some s' \<and> init_ok tp s' \<and>
    pmm_free s' = pmm_free s \<union> (entry_avail e \<inter> {..<unat tp})"
proof (cases "mm_type e = 1 \<and> unat (entry_start_page e) < unat tp")
  case True
  let ?b = "if unat (entry_end_page e) > unat tp then unat tp else unat (entry_end_page e)"
  have b: "?b \<le> unat tp" by simp
  have "init_entry e s = foldM init_free_page [unat (entry_start_page e)..<?b] s"
    using True assms by (simp add: init_entry_def init_ok_def Let_def)
  moreover have "entry_avail e \<inter> {..<unat tp} = {unat (entry_start_page e)..<?b}"
    using True unfolding entry_avail_def clip_upt by simp
  ultimately show ?thesis
    using free_upt_correct [OF assms b, of "unat (entry_start_page e)"] by (simp only:)
next
  case False
  then have "init_entry e s = Some s"
    using assms by (cases "mm_type e = 1") (simp_all add: init_entry_def init_ok_def Let_def)
  moreover have "entry_avail e \<inter> {..<unat tp} = {}"
    using False by (cases "mm_type e = 1") (simp_all add: entry_avail_def clip_upt_empty)
  ultimately show ?thesis using assms by simp
qed

lemma init_tag_correct:
  assumes "init_ok tp s"
  shows "\<exists>s'. init_tag t s = Some s' \<and> init_ok tp s' \<and> pmm_free s' = pmm_free s \<union> (tag_avail t \<inter> {..<unat tp})"
proof (cases t)
  case (TagMmap es)
  then show ?thesis
    using foldM_union [of es "init_ok tp" init_entry pmm_free "\<lambda>e. entry_avail e \<inter> {..<unat tp}"]
      assms init_entry_correct by (simp only: TagMmap init_tag.simps tag_avail.simps UN_simps) blast
qed (use assms in auto)

lemma init_tags_correct:
  assumes "init_ok tp s"
  shows "\<exists>s'. foldM init_tag ts s = Some s' \<and> init_ok tp s' \<and>
    pmm_free s' = pmm_free s \<union> ((\<Union>t\<in>set ts. tag_avail t) \<inter> {..<unat tp})"
  using foldM_union [of ts "init_ok tp" init_tag pmm_free "\<lambda>t. tag_avail t \<inter> {..<unat tp}"]
    assms init_tag_correct by (simp only: UN_simps) blast

lemma init_module_correct:
  assumes "init_ok tp s"
  shows "\<exists>s'. init_module t s = Some s' \<and> init_ok tp s' \<and> pmm_free s' = pmm_free s - tag_module t"
  using assms init_reserve_correct by (cases t) simp_all

lemma init_modules_correct:
  assumes "init_ok tp s"
  shows "\<exists>s'. foldM init_module ts s = Some s' \<and> init_ok tp s' \<and>
    pmm_free s' = pmm_free s - (\<Union>t\<in>set ts. tag_module t)"
  using foldM_diff [of ts "init_ok tp" init_module pmm_free tag_module] assms init_module_correct by blast

lemma bit_at_full: "bit_at (replicate n (0xFF :: u8)) i" if "i < 8 * n"
proof -
  have "bit (0xFF :: u8) k" if "k < 8" for k
    using that word_full_iff [of "0xFF :: u8"] by simp
  then show ?thesis using that by (simp add: bit_at_def less_mult_imp_div_less mult.commute)
qed

lemma init_ok_start:
  assumes "unat tp \<le> 8 * n"
  shows "init_ok tp \<lparr>bitmap_mem = replicate n 0xFF, total_pages = tp, free_pages = 0, refcounts = None\<rparr>"
    and "pmm_free \<lparr>bitmap_mem = replicate n 0xFF, total_pages = tp, free_pages = 0, refcounts = None\<rparr> = {}"
proof -
  show "pmm_free \<lparr>bitmap_mem = replicate n 0xFF, total_pages = tp, free_pages = 0, refcounts = None\<rparr> = {}"
    using assms bit_at_full by (auto simp: in_pmm_free_iff bitmap_test_eq)
  then show "init_ok tp \<lparr>bitmap_mem = replicate n 0xFF, total_pages = tp, free_pages = 0, refcounts = None\<rparr>"
    using assms by (simp add: init_ok_def pmm_inv_def)
qed

section \<open>The bootstrap bitmap\<close>

definition used_set :: "u8 list \<Rightarrow> nat set" where
  "used_set bm = {i. bitmap_test bm i = Some True}"

lemma used_set_set: "bitmap_set bm i = Some bm' \<Longrightarrow> used_set bm' = used_set bm \<union> {i}"
  by (auto simp: used_set_def pb.test_set split: if_splits)

lemma bmap_range_set:
  assumes "i + n \<le> 8 * length bm"
  shows "\<exists>bm'. bmap_range bitmap_set bm i n = Some bm' \<and> length bm' = length bm \<and>
    used_set bm' = used_set bm \<union> {i..<i + n}"
  using assms
proof (induction n arbitrary: i bm)
  case (Suc n)
  then obtain b where b: "bitmap_set bm i = Some b" using pb.set_Some [of i bm] by auto
  have len: "length b = length bm" using pb.cap_set [OF b] by simp
  obtain bm' where "bmap_range bitmap_set b (Suc i) n = Some bm'" "length bm' = length bm"
    "used_set bm' = used_set b \<union> {Suc i..<Suc i + n}"
    using Suc.IH [of "Suc i" b] Suc.prems len by auto
  moreover have "used_set bm \<union> {i} \<union> {Suc i..<Suc i + n} = used_set bm \<union> {i..<i + Suc n}" by auto
  ultimately show ?case using b used_set_set [OF b] by simp
qed simp

lemma bmap_range_clear:
  assumes "i + n \<le> 8 * length bm"
  shows "\<exists>bm'. bmap_range bitmap_clear bm i n = Some bm' \<and> length bm' = length bm"
  using assms
proof (induction n arbitrary: i bm)
  case (Suc n)
  then obtain b where b: "bitmap_clear bm i = Some b" using pb.clear_Some [of i bm] by auto
  have len: "length b = length bm" using pb.cap_clear [OF b] by simp
  show ?case using Suc.IH [of "Suc i" b] Suc.prems len b by simp
qed simp

lemma bmap_reserve_correct:
  assumes "length bm = 512"
  shows "\<exists>bm'. bmap_reserve a b bm = Some bm' \<and> length bm' = 512 \<and>
    used_set bm' = used_set bm \<union> ({unat a..<unat b} \<inter> {..<BOOTSTRAP_PAGES})"
proof -
  let ?e = "if unat b > BOOTSTRAP_PAGES then BOOTSTRAP_PAGES else unat b"
  have eq: "bmap_reserve a b bm = bmap_range bitmap_set bm (unat a) (?e - unat a)"
    by (simp add: bmap_reserve_def Let_def)
  show ?thesis
  proof (cases "unat a \<le> ?e")
    case True
    then have "unat a + (?e - unat a) = ?e" by simp
    moreover have "?e \<le> 8 * length bm" using assms by simp
    ultimately show ?thesis
      unfolding eq clip_upt [symmetric] using bmap_range_set [of "unat a" "?e - unat a" bm] assms by simp
  next
    case False
    then have "?e - unat a = 0" and "{unat a..<unat b} \<inter> {..<BOOTSTRAP_PAGES} = {}"
      unfolding clip_upt [symmetric] by simp_all
    then show ?thesis unfolding eq using assms by simp
  qed
qed

lemma bootstrap_entry_defined:
  assumes "length (fst s) = 512"
  shows "\<exists>s'. bootstrap_entry e s = Some s' \<and> length (fst s') = 512"
proof -
  let ?s = "unat (entry_start_page e)"
  let ?e = "if unat (entry_end_page e) > BOOTSTRAP_PAGES then BOOTSTRAP_PAGES else unat (entry_end_page e)"
  have "?e \<le> 8 * length (fst s)" using assms by simp
  then have "?s < BOOTSTRAP_PAGES \<Longrightarrow> ?s + (?e - ?s) \<le> 8 * length (fst s)" using assms by linarith
  then show ?thesis
    using bmap_range_clear [of ?s "?e - ?s" "fst s"] assms
    by (cases s) (auto simp: bootstrap_entry_def Let_def not_le)
qed

lemma bootstrap_tag_defined:
  assumes "length (fst s) = 512"
  shows "\<exists>s'. bootstrap_tag t s = Some s' \<and> length (fst s') = 512"
proof (cases t)
  case (TagMmap es)
  then show ?thesis
    using foldM_invariant [of "\<lambda>s. length (fst s) = 512" s es bootstrap_entry] assms bootstrap_entry_defined
    by simp
qed (use assms in auto)

lemma bootstrap_tags_defined:
  "length (fst s) = 512 \<Longrightarrow> \<exists>s'. foldM bootstrap_tag ts s = Some s' \<and> length (fst s') = 512"
  using foldM_invariant [of "\<lambda>s. length (fst s) = 512" s ts bootstrap_tag] bootstrap_tag_defined by simp

lemma bootstrap_modules_correct:
  assumes "length bm = 512"
  shows "\<exists>bm'. foldM bootstrap_module ts bm = Some bm' \<and> length bm' = 512 \<and>
    used_set bm' = used_set bm \<union> ((\<Union>t\<in>set ts. tag_module t) \<inter> {..<BOOTSTRAP_PAGES})"
proof -
  have "\<exists>b'. bootstrap_module t b = Some b' \<and> length b' = 512 \<and>
    used_set b' = used_set b \<union> (tag_module t \<inter> {..<BOOTSTRAP_PAGES})" if "length b = 512" for t b
    using that bmap_reserve_correct by (cases t) simp_all
  then show ?thesis
    using foldM_union [of ts "\<lambda>b. length b = 512" bootstrap_module used_set
      "\<lambda>t. tag_module t \<inter> {..<BOOTSTRAP_PAGES}"] assms
    by (simp only: UN_simps) blast
qed

lemma pmm_bootstrap_correct:
  obtains bm mem_end where "pmm_bootstrap kernel_end mb = Some (bm, mem_end)" and "length bm = 512"
    and "{..<unat (kernel_end_page kernel_end)} \<inter> {..<BOOTSTRAP_PAGES} \<subseteq> used_set bm"
    and "(\<Union>t\<in>set (mb_tags mb). tag_module t) \<inter> {..<BOOTSTRAP_PAGES} \<subseteq> used_set bm"
proof -
  obtain b1 m where 1: "foldM bootstrap_tag (mb_tags mb) (replicate 512 0xFF, 0) = Some (b1, m)" "length b1 = 512"
    using bootstrap_tags_defined [of "(replicate 512 0xFF, 0)" "mb_tags mb"] by auto
  obtain b2 where 2: "bmap_reserve 0 (kernel_end_page kernel_end) b1 = Some b2" "length b2 = 512"
    "{..<unat (kernel_end_page kernel_end)} \<inter> {..<BOOTSTRAP_PAGES} \<subseteq> used_set b2"
    using bmap_reserve_correct [OF 1(2), of 0 "kernel_end_page kernel_end"]
    by (auto simp: atLeast0LessThan)
  obtain b3 where 3: "foldM bootstrap_module (mb_tags mb) b2 = Some b3" "length b3 = 512"
    "used_set b3 = used_set b2 \<union> ((\<Union>t\<in>set (mb_tags mb). tag_module t) \<inter> {..<BOOTSTRAP_PAGES})"
    using bootstrap_modules_correct [OF 2(2), of "mb_tags mb"] by blast
  obtain b4 where 4: "bmap_reserve (ucast (mb_base mb div PAGE_SIZE))
       (ucast ((mb_base mb + ucast (mb_total_size mb) + PAGE_SIZE - 1) div PAGE_SIZE)) b3 = Some b4"
    "length b4 = 512" "used_set b3 \<subseteq> used_set b4"
    using bmap_reserve_correct [OF 3(2)] by blast
  have "pmm_bootstrap kernel_end mb = Some (b4, m)"
    unfolding pmm_bootstrap_def 1 using 2(1) 3(1) 4(1) by simp
  then show ?thesis using 2(3) 3(3) 4(2,3) by (intro that) blast+
qed

section \<open>Placement of the bitmap\<close>

lemma find_run_correct:
  assumes "find_run bm pages i n b run = Some (b', run')" and "run < pages"
    and "run > 0 \<Longrightarrow> b + run = i" and "\<And>k. b \<le> k \<Longrightarrow> k < b + run \<Longrightarrow> bitmap_test bm k = Some False"
  shows "(run' = pages \<and> b' + pages \<le> i + n \<and> (\<forall>k. b' \<le> k \<and> k < b' + pages \<longrightarrow> bitmap_test bm k = Some False))
    \<or> run' < pages"
  using assms
proof (induction n arbitrary: i b run)
  case (Suc n)
  then obtain u where u: "bitmap_test bm i = Some u" by (auto simp: bind_eq_Some_conv)
  show ?case
  proof (cases u)
    case True
    then show ?thesis using Suc.IH [of "Suc i" b 0] Suc.prems u by simp
  next
    case False
    let ?b = "if run = 0 then i else b"
    have free: "bitmap_test bm k = Some False" if "?b \<le> k" "k < ?b + Suc run" for k
      using that Suc.prems(4) [of k] Suc.prems(3) u False by (cases "k = i") (auto split: if_splits)
    have bi: "?b + Suc run = Suc i" using Suc.prems(3) by auto
    show ?thesis
    proof (cases "Suc run = pages")
      case True
      then have "b' = ?b" "run' = pages" using Suc.prems(1) u False by (auto simp: Let_def)
      then show ?thesis using free bi True by auto
    next
      case neq: False
      then have "find_run bm pages (Suc i) n ?b (Suc run) = Some (b', run')"
        using Suc.prems(1) u False by (simp add: Let_def)
      then show ?thesis using Suc.IH [of "Suc i" ?b "Suc run"] free bi neq Suc.prems(2) by simp
    qed
  qed
qed simp

lemma find_run_defined:
  "i + n \<le> 8 * length bm \<Longrightarrow> \<exists>r. find_run bm pages i n b run = Some r"
proof (induction n arbitrary: i b run)
  case (Suc n)
  then obtain u where "bitmap_test bm i = Some u" using pb.test_Some [of i bm] by auto
  then show ?case using Suc by (simp add: Let_def)
qed simp

lemma find_run_single:
  "find_run bm (Suc 0) i n b 0 = Some (b', r) \<Longrightarrow> r = 0 \<Longrightarrow> b' = b"
  by (induction n arbitrary: i) (auto simp: bind_eq_Some_conv Let_def split: if_splits)

lemma longest_run_defined:
  assumes "i + n \<le> 8 * length bm" and "m \<le> i" and "r \<le> i"
  shows "\<exists>m'. longest_run bm i n r m = Some m' \<and> m' \<le> i + n"
  using assms
proof (induction n arbitrary: i r m)
  case (Suc n)
  then obtain u where u: "bitmap_test bm i = Some u" using pb.test_Some [of i bm] by auto
  show ?case
    using Suc.IH [of "Suc i" m 0] Suc.IH [of "Suc i" "if Suc r > m then Suc r else m" "Suc r"] Suc.prems u
    by (cases u) simp_all
qed simp

lemma bitmap_pages_for_pos: "0 < bitmap_pages_for tp"
  by (simp add: bitmap_pages_for_def Let_def)

lemma bitmap_pages_for_small: "unat tp \<le> 32768 \<Longrightarrow> bitmap_pages_for tp = Suc 0"
  unfolding bitmap_pages_for_def Let_def by (cases "unat tp div 8 = 0") (auto simp: div_eq_0_iff)

lemma capped_total:
  "m \<le> 4096 \<Longrightarrow> unat (ucast (((of_nat m :: u64) * 8 * PAGE_SIZE) div PAGE_SIZE) :: u32) = 8 * m"
  by (simp add: unsigned_ucast_eq unat_div unat_word_ariths unat_of_nat_less take_bit_nat_eq_self)

lemma find_run_zero:
  assumes "find_run bm pages 0 BOOTSTRAP_PAGES BOOTSTRAP_PAGES 0 = Some (b, run)" and "0 < pages"
  shows "(run = pages \<and> b + pages \<le> BOOTSTRAP_PAGES \<and> (\<forall>k. b \<le> k \<and> k < b + pages \<longrightarrow> bitmap_test bm k = Some False))
    \<or> run < pages"
  using find_run_correct [OF assms(1,2)] by auto

lemma place_bitmap_correct:
  assumes "length bm = 512"
  obtains b pages tp' where "pmm_place_bitmap bm tp = Some (b, pages, tp')"
    and "b < BOOTSTRAP_PAGES \<Longrightarrow> b + pages \<le> BOOTSTRAP_PAGES \<and> {b..<b + pages} \<inter> used_set bm = {}"
proof -
  have len: "0 + BOOTSTRAP_PAGES \<le> 8 * length bm" using assms by simp
  obtain b run where 1: "find_run bm (bitmap_pages_for tp) 0 BOOTSTRAP_PAGES BOOTSTRAP_PAGES 0 = Some (b, run)"
    using find_run_defined [OF len] by (metis surj_pair)
  have disj: "{c..<c + n} \<inter> used_set bm = {}"
    if "\<forall>k. c \<le> k \<and> k < c + n \<longrightarrow> bitmap_test bm k = Some False" for c n
    using that by (force simp: used_set_def)
  show ?thesis
  proof (cases "run = bitmap_pages_for tp")
    case True
    have "pmm_place_bitmap bm tp = Some (b, bitmap_pages_for tp, tp)"
      using 1 True by (simp add: pmm_place_bitmap_def)
    moreover have "b + bitmap_pages_for tp \<le> BOOTSTRAP_PAGES"
      and "\<forall>k. b \<le> k \<and> k < b + bitmap_pages_for tp \<longrightarrow> bitmap_test bm k = Some False"
      using find_run_zero [OF 1 bitmap_pages_for_pos] True by simp_all
    ultimately show ?thesis
      using disj [of b "bitmap_pages_for tp"] that by metis
  next
    case False
    obtain m where m: "longest_run bm 0 BOOTSTRAP_PAGES 0 0 = Some m" "m \<le> BOOTSTRAP_PAGES"
      using longest_run_defined [OF len, of 0 0] by auto
    let ?t = "ucast (((of_nat m :: u64) * 8 * PAGE_SIZE) div PAGE_SIZE) :: u32"
    have p: "bitmap_pages_for ?t = Suc 0"
      using capped_total [OF m(2)] m(2) by (intro bitmap_pages_for_small) simp
    obtain b2 r2 where 2: "find_run bm (Suc 0) 0 BOOTSTRAP_PAGES BOOTSTRAP_PAGES 0 = Some (b2, r2)"
      using find_run_defined [OF len] by (metis surj_pair)
    have "pmm_place_bitmap bm tp = Some (b2, Suc 0, ?t)"
      using 1 False m(1) 2 p by (simp add: pmm_place_bitmap_def Let_def)
    moreover have "b2 = BOOTSTRAP_PAGES" if "r2 = 0" using find_run_single [OF 2] that by simp
    moreover have "b2 + Suc 0 \<le> BOOTSTRAP_PAGES \<and> {b2..<b2 + Suc 0} \<inter> used_set bm = {}"
      if "b2 < BOOTSTRAP_PAGES"
      using find_run_zero [OF 2] disj [of b2 "Suc 0"] that calculation(2) by fastforce
    ultimately show ?thesis using that by metis
  qed
qed

text \<open>
  A boot with pages 1 to 8 available, the kernel image in pages 0 and 1, a module in page 4 and the
  boot information in page 5.
\<close>

definition boot_example :: mboot where
  "boot_example = \<lparr>mb_base = 0x5000, mb_total_size = 100, mb_tags =
     [TagOther, TagMmap [\<lparr>mm_addr = 0x1000, mm_len = 0x8000, mm_type = 1\<rparr>, \<lparr>mm_addr = 0, mm_len = 0x1000, mm_type = 2\<rparr>],
      TagModule 0x4000 0x4800]\<rparr>"

definition boot_example_bitmap :: "u8 list" where
  "boot_example_bitmap = [0x33, 0xFE] @ replicate 510 0xFF"

lemma boot_example_bootstrap: "pmm_bootstrap 0x2000 boot_example = Some (boot_example_bitmap, 0x9000)"
  by code_simp

lemma boot_example_place: "pmm_place_bitmap boot_example_bitmap 9 = Some (2, 1, 9)"
  by code_simp

lemma boot_example_sets:
  "boot_available boot_example = {1..<9}"
  "boot_reserved 0x2000 boot_example = {..<2} \<union> {4..<5} \<union> {5..<6}"
  "(\<Union>t\<in>set (mb_tags boot_example). tag_module t) = {4..<5}"
  "unat (kernel_end_page 0x2000) = 2"
  by (simp_all add: boot_available_def boot_reserved_def boot_example_def entry_avail_def
    entry_start_page_def entry_end_page_def kernel_end_page_def)

lemma boot_example_free:
  "{Suc 0..<9} \<inter> {..<9} - insert 2 ({..<2} \<union> {4..<5} \<union> {5..<6}) = {3, 6, 7, 8::nat}"
  by code_simp

lemma disjoint_window:
  "R \<subseteq> W \<Longrightarrow> A \<inter> W \<subseteq> U \<Longrightarrow> B \<inter> W \<subseteq> U \<Longrightarrow> R \<inter> U = {} \<Longrightarrow> R \<inter> (A \<union> B) = {}"
  by blast

section \<open>Properties of initialisation\<close>

text \<open>
  C28. Initialisation always gets through the bootstrap phase and finds a place for its bitmap, and if the
  bitmap covers the tracked pages it ends in a consistent allocator whose free pages are exactly the
  available pages of the memory map below the tracked top, minus the kernel image, the modules, the
  boot information and the pages of the bitmap itself.
\<close>
theorem pmm_init_free_pages:
  "\<exists>bm mem_end b pages tp.
     pmm_bootstrap kernel_end mb = Some (bm, mem_end) \<and>
     pmm_place_bitmap bm (ucast (mem_end div PAGE_SIZE)) = Some (b, pages, tp) \<and>
     (unat tp \<le> 8 * (pages * 4096) \<longrightarrow>
       (\<exists>s. pmm_init kernel_end mb = Some s \<and> pmm_inv s \<and> total_pages s = tp \<and>
          pmm_free s = boot_available mb \<inter> {..<unat tp} - (boot_reserved kernel_end mb \<union> {b..<b + pages})))"
proof -
  obtain bm mem_end where 1: "pmm_bootstrap kernel_end mb = Some (bm, mem_end)" "length bm = 512"
    by (rule pmm_bootstrap_correct)
  obtain b pages tp where 2: "pmm_place_bitmap bm (ucast (mem_end div PAGE_SIZE)) = Some (b, pages, tp)"
    by (rule place_bitmap_correct [OF 1(2), of "ucast (mem_end div PAGE_SIZE)"]) (assumption | blast)+
  have "\<exists>s. pmm_init kernel_end mb = Some s \<and> pmm_inv s \<and> total_pages s = tp \<and>
      pmm_free s = boot_available mb \<inter> {..<unat tp} - (boot_reserved kernel_end mb \<union> {b..<b + pages})"
    if "unat tp \<le> 8 * (pages * 4096)"
  proof -
    let ?s = "\<lparr>bitmap_mem = replicate (pages * 4096) 0xFF, total_pages = tp, free_pages = 0, refcounts = None\<rparr>"
    let ?mi = "unat (mb_base mb div PAGE_SIZE)"
    let ?me = "unat ((mb_base mb + ucast (mb_total_size mb) + PAGE_SIZE - 1) div PAGE_SIZE)"
    note start = init_ok_start [OF that]
    obtain s1 where s1: "foldM init_tag (mb_tags mb) ?s = Some s1" "init_ok tp s1"
      "pmm_free s1 = boot_available mb \<inter> {..<unat tp}"
      using init_tags_correct [OF start(1)] unfolding start(2) boot_available_def by (metis Un_empty_left)
    obtain s2 where s2: "init_reserve 0 (unat (kernel_end_page kernel_end)) s1 = Some s2" "init_ok tp s2"
      "pmm_free s2 = pmm_free s1 - {..<unat (kernel_end_page kernel_end)}"
      using init_reserve_correct [OF s1(2)] unfolding atLeast0LessThan [symmetric] by blast
    obtain s3 where s3: "init_reserve b (b + pages) s2 = Some s3" "init_ok tp s3"
      "pmm_free s3 = pmm_free s2 - {b..<b + pages}"
      using init_reserve_correct [OF s2(2)] by blast
    obtain s4 where s4: "foldM init_module (mb_tags mb) s3 = Some s4" "init_ok tp s4"
      "pmm_free s4 = pmm_free s3 - (\<Union>t\<in>set (mb_tags mb). tag_module t)"
      using init_modules_correct [OF s3(2)] by blast
    obtain s5 where s5: "init_reserve ?mi ?me s4 = Some s5" "init_ok tp s5" "pmm_free s5 = pmm_free s4 - {?mi..<?me}"
      using init_reserve_correct [OF s4(2)] by blast
    have "pmm_init kernel_end mb = Some s5"
      unfolding pmm_init_def 1 using 2 s1(1) s2(1) s3(1) s4(1) s5(1) by simp
    moreover have "pmm_free s5 = boot_available mb \<inter> {..<unat tp} - (boot_reserved kernel_end mb \<union> {b..<b + pages})"
      unfolding s5(3) s4(3) s3(3) s2(3) s1(3) boot_reserved_def by blast
    ultimately show ?thesis using s5(2) by (auto simp: init_ok_def)
  qed
  then show ?thesis using 1 2 by blast
qed

theorem pmm_init_free_pages_witness:
  "\<exists>s. pmm_init 0x2000 boot_example = Some s \<and> pmm_inv s \<and> total_pages s = 9 \<and> pmm_free s = {3, 6, 7, 8}"
  using pmm_init_free_pages [of "0x2000" boot_example]
  by (simp add: boot_example_bootstrap boot_example_place boot_example_sets boot_example_free)

text \<open>
  C29. The bitmap is never placed over pages of the identity-mapped window that hold the kernel image or a
  boot module: whenever a place inside the window is chosen, the whole run lies in the window and is
  disjoint from both.
\<close>
theorem pmm_bitmap_placement_safe:
  "\<exists>bm mem_end b pages tp.
     pmm_bootstrap kernel_end mb = Some (bm, mem_end) \<and>
     pmm_place_bitmap bm (ucast (mem_end div PAGE_SIZE)) = Some (b, pages, tp) \<and>
     (b < BOOTSTRAP_PAGES \<longrightarrow> b + pages \<le> BOOTSTRAP_PAGES \<and>
        {b..<b + pages} \<inter> ({..<unat (kernel_end_page kernel_end)} \<union> (\<Union>t\<in>set (mb_tags mb). tag_module t)) = {})"
proof -
  obtain bm mem_end where 1: "pmm_bootstrap kernel_end mb = Some (bm, mem_end)" "length bm = 512"
    "{..<unat (kernel_end_page kernel_end)} \<inter> {..<BOOTSTRAP_PAGES} \<subseteq> used_set bm"
    "(\<Union>t\<in>set (mb_tags mb). tag_module t) \<inter> {..<BOOTSTRAP_PAGES} \<subseteq> used_set bm"
    by (rule pmm_bootstrap_correct)
  obtain b pages tp where 2: "pmm_place_bitmap bm (ucast (mem_end div PAGE_SIZE)) = Some (b, pages, tp)"
    "b < BOOTSTRAP_PAGES \<Longrightarrow> b + pages \<le> BOOTSTRAP_PAGES \<and> {b..<b + pages} \<inter> used_set bm = {}"
    by (rule place_bitmap_correct [OF 1(2), of "ucast (mem_end div PAGE_SIZE)"]) (assumption | blast)+
  have "{b..<b + pages} \<inter> ({..<unat (kernel_end_page kernel_end)} \<union> (\<Union>t\<in>set (mb_tags mb). tag_module t)) = {}"
    if "b < BOOTSTRAP_PAGES"
  proof -
    have sub: "{b..<b + pages} \<subseteq> {..<BOOTSTRAP_PAGES}"
      using 2(2) [OF that] by (meson atLeastLessThan_iff lessThan_iff less_le_trans subsetI)
    show ?thesis
      by (rule disjoint_window [OF sub 1(3,4) conjunct2 [OF 2(2) [OF that]]])
  qed
  with 1(1) 2 show ?thesis by metis
qed

theorem pmm_bitmap_placement_safe_witness:
  "\<exists>bm b pages. pmm_bootstrap 0x2000 boot_example = Some (bm, 0x9000) \<and>
    pmm_place_bitmap bm 9 = Some (b, pages, 9) \<and> b < BOOTSTRAP_PAGES \<and>
    {b..<b + pages} \<inter> ({..<2} \<union> {4..<5}) = {}"
proof -
  obtain bm mem_end b pages tp where *: "pmm_bootstrap 0x2000 boot_example = Some (bm, mem_end)"
    "pmm_place_bitmap bm (ucast (mem_end div PAGE_SIZE)) = Some (b, pages, tp)"
    "b < BOOTSTRAP_PAGES \<longrightarrow> {b..<b + pages} \<inter> ({..<2} \<union> {4..<5}) = {}"
    using pmm_bitmap_placement_safe [of "0x2000" boot_example] unfolding boot_example_sets by blast
  then have "bm = boot_example_bitmap" "mem_end = 0x9000"
    by (simp_all add: boot_example_bootstrap)
  moreover from this have "b = 2" "tp = 9"
    using *(2) by (simp_all add: boot_example_place)
  ultimately show ?thesis using *(1,2,3) by (intro exI [of _ bm] exI [of _ b] exI [of _ pages]) simp
qed

end
