(* ===== verification/RingBuf.thy ===== *)
theory RingBuf
  imports Arc_Prelude
begin

text \<open>
  Ring buffers.  The message queue of a port, the request ring of an I/O channel and the buffer of a
  pipe are arrays with a head index and a count of stored elements; \<open>ring_contents\<close> reads such an
  array as the list of its elements, oldest first.

  The locale \<open>drain\<close> is the contract of a queue's consumer over this abstraction, and \<open>fifo\<close> extends it to
  a bounded queue.  Their lemmas, proved once, say that fetching hands out the stored elements in order, and
  that a burst of insertions comes out again in the same order, after what was there before.
\<close>

definition ring_contents :: "'a list \<Rightarrow> nat \<Rightarrow> nat \<Rightarrow> 'a list" where
  "ring_contents xs head count = map (\<lambda>i. xs ! ((head + i) mod length xs)) [0..<count]"

lemma length_ring_contents [simp]: "length (ring_contents xs head count) = count"
  by (simp add: ring_contents_def)

lemma nth_ring_contents [arc_ring]:
  "i < count \<Longrightarrow> ring_contents xs head count ! i = xs ! ((head + i) mod length xs)"
  by (simp add: ring_contents_def)

lemma ring_contents_0 [simp]: "ring_contents xs head 0 = []"
  by (simp add: ring_contents_def)

lemma ring_index_inj:
  fixes i j n head :: nat
  assumes "i < n" and "j < n" and "(head + i) mod n = (head + j) mod n"
  shows "i = j"
proof -
  have aux: "\<lbrakk>i < n; j < n; (head + i) mod n = (head + j) mod n; i \<le> j\<rbrakk> \<Longrightarrow> i = j" for i j :: nat
  proof -
    assume a: "i < n" "j < n" "(head + i) mod n = (head + j) mod n" "i \<le> j"
    then have "n dvd (head + j) - (head + i)" using mod_eq_dvd_iff_nat [of "head + i" "head + j" n] by simp
    then have "n dvd j - i" by simp
    then show "i = j" using a by (metis diff_is_0_eq dvd_imp_le le_antisym less_imp_diff_less linorder_not_less neq0_conv)
  qed
  show ?thesis using assms aux [of i j] aux [of j i] by (metis nat_le_linear)
qed

lemma ring_contents_snoc [arc_ring]:
  assumes "count < length xs"
  shows "ring_contents (xs[(head + count) mod length xs := x]) head (Suc count) = ring_contents xs head count @ [x]"
proof (rule nth_equalityI)
  fix i
  assume "i < length (ring_contents (xs[(head + count) mod length xs := x]) head (Suc count))"
  then have i: "i < Suc count" by simp
  show "ring_contents (xs[(head + count) mod length xs := x]) head (Suc count) ! i = (ring_contents xs head count @ [x]) ! i"
  proof (cases "i = count")
    case True
    have "(head + count) mod length xs < length xs" using assms by (intro mod_less_divisor) linarith
    then show ?thesis using True by (simp add: nth_ring_contents nth_append)
  next
    case False
    then have "i < count" using i by simp
    moreover have "(head + i) mod length xs \<noteq> (head + count) mod length xs"
      using ring_index_inj [of i "length xs" count head] \<open>i < count\<close> assms by auto
    ultimately show ?thesis by (simp add: nth_ring_contents nth_append)
  qed
qed simp

lemma ring_contents_tl [arc_ring]:
  assumes "0 < count"
  shows "ring_contents xs (Suc head mod length xs) (count - 1) = tl (ring_contents xs head count)"
  by (rule nth_equalityI) (use assms in \<open>auto simp: nth_ring_contents nth_tl mod_add_left_eq\<close>)

lemma ring_contents_hd [arc_ring]:
  "0 < count \<Longrightarrow> head < length xs \<Longrightarrow> hd (ring_contents xs head count) = xs ! head"
  by (simp add: ring_contents_def hd_map)

lemma ring_contents_linear: "count \<le> length xs \<Longrightarrow> ring_contents xs 0 count = take count xs"
  by (rule nth_equalityI) (auto simp: nth_ring_contents)

lemma ring_contents_zip:
  assumes "length ys = length xs" and "0 < length xs"
  shows "ring_contents (zip xs ys) head count = zip (ring_contents xs head count) (ring_contents ys head count)"
  by (rule nth_equalityI) (use assms in \<open>auto simp: nth_ring_contents\<close>)

lemma ring_tail_step: "0 < c \<Longrightarrow> (Suc h mod n + (c - 1)) mod n = (h + c) mod n" for c h n :: nat
  by (simp only: mod_add_left_eq) simp

section \<open>The queue interface\<close>

fun deq_many :: "('s \<Rightarrow> ('a \<times> 's) option) \<Rightarrow> nat \<Rightarrow> 's \<Rightarrow> ('a list \<times> 's) option" where
  "deq_many dq 0 s = Some ([], s)"
| "deq_many dq (Suc n) s = do { (x, s) \<leftarrow> dq s; (xs, s) \<leftarrow> deq_many dq n s; Some (x # xs, s) }"

text \<open>The consumer's side: what \<open>deq\<close> promises of the front of the queue.\<close>

locale drain =
  fixes ok :: "'s \<Rightarrow> bool"
    and contents :: "'s \<Rightarrow> 'v list"
    and limit :: "'s \<Rightarrow> nat"
    and view :: "'a \<Rightarrow> 'v"
    and deq :: "'s \<Rightarrow> ('a \<times> 's) option"
  assumes deq_law: "ok s \<Longrightarrow> contents s \<noteq> [] \<Longrightarrow>
      \<exists>y s'. deq s = Some (y, s') \<and> ok s' \<and> contents s = view y # contents s' \<and> limit s' = limit s"
begin

lemma deq_all:
  assumes "ok s" and "contents s = vs @ ws"
  shows "\<exists>ys s'. deq_many deq (length vs) s = Some (ys, s') \<and> map view ys = vs \<and> ok s' \<and> contents s' = ws \<and>
    limit s' = limit s"
  using assms
proof (induction vs arbitrary: s)
  case (Cons v vs)
  then obtain y s1 where s1: "deq s = Some (y, s1)" "ok s1" "contents s = view y # contents s1" "limit s1 = limit s"
    using deq_law [of s] by auto
  then have "contents s1 = vs @ ws" "view y = v" using Cons.prems(2) by auto
  then show ?case using Cons.IH [of s1] s1 by auto
qed simp

end

text \<open>A bounded queue: a producer that appends, and the consumer above.\<close>

locale fifo = drain ok contents limit view deq
  for ok :: "'s \<Rightarrow> bool" and contents :: "'s \<Rightarrow> 'v list" and limit :: "'s \<Rightarrow> nat"
    and view :: "'a \<Rightarrow> 'v" and deq :: "'s \<Rightarrow> ('a \<times> 's) option" +
  fixes valid :: "'a \<Rightarrow> bool"
    and enq :: "'a \<Rightarrow> 's \<Rightarrow> 's option"
  assumes enq_law: "ok s \<Longrightarrow> valid x \<Longrightarrow> length (contents s) < limit s \<Longrightarrow>
      \<exists>s'. enq x s = Some s' \<and> ok s' \<and> contents s' = contents s @ [view x] \<and> limit s' = limit s"
begin

lemma enq_all:
  assumes "ok s" and "list_all valid xs" and "length (contents s) + length xs \<le> limit s"
  shows "\<exists>s'. foldM enq xs s = Some s' \<and> ok s' \<and> contents s' = contents s @ map view xs \<and> limit s' = limit s"
  using assms
proof (induction xs arbitrary: s)
  case (Cons x xs)
  then obtain s1 where s1: "enq x s = Some s1" "ok s1" "contents s1 = contents s @ [view x]" "limit s1 = limit s"
    using enq_law [of s x] by auto
  then show ?case using Cons.IH [of s1] Cons.prems by auto
qed simp

text \<open>What is put in comes out in the same order, after what was there before.\<close>

lemma burst_round_trip:
  assumes "ok s" and "list_all valid xs" and "length (contents s) + length xs \<le> limit s"
  shows "\<exists>s1 ys s2. foldM enq xs s = Some s1 \<and>
    deq_many deq (length (contents s) + length xs) s1 = Some (ys, s2) \<and>
    map view ys = contents s @ map view xs \<and> ok s2 \<and> contents s2 = []"
proof -
  obtain s1 where "foldM enq xs s = Some s1" "ok s1" "contents s1 = (contents s @ map view xs) @ []"
    using enq_all [OF assms] by auto
  then show ?thesis using deq_all [of s1 "contents s @ map view xs" "[]"] by auto
qed

end

end
