(* ===== verification/Ports.thy ===== *)
theory Ports
  imports RingBuf
begin

unbundle bit_operations_syntax

text \<open>
  Port objects of \<^verbatim>\<open>mk/vm/port.c\<close>: the global port table with its reference counts, the growable
  message ring of a port, and the list of blocked receivers.

  Live port objects are a partial map from addresses to structures; an access to an address with
  no object is \<open>None\<close> (use after free).  \<^verbatim>\<open>kmalloc\<close> is not part of this component: what its calls
  return, the uninitialised contents of the memory included, is an argument (\<open>port_mem\<close>,
  \<open>queue_mem\<close>), with the documented behaviour (fresh address, memory of the requested size)
  as the predicates \<open>port_mem_ok\<close> and \<open>queue_mem_ok\<close>.  Calls into the scheduler are recorded in order as
  \<open>sched_event\<close>s; \<open>known_threads\<close> tells which thread numbers \<^verbatim>\<open>thread_find\<close> finds.  Reference counts are C integers,
  modelled without a bound: a count is the number of slots and calls that hold the port.
\<close>

record ipc_dispose =
  d_type :: u32
  d_rights :: u32
  d_handle :: u64

record ipc_msg =
  msg_id :: u32
  data_size :: u32
  data :: "u8 list"
  ndispose :: u32
  dispose :: "ipc_dispose list"

record ipc_port =
  magic :: u32
  ref_count :: int
  queue :: "ipc_msg list"
  queue_senders :: "u32 list"
  queue_size :: u32
  queue_head :: u32
  queue_tail :: u32
  queue_count :: u32
  pending_notify :: int
  waiters :: "u32 list"
  waiter_count :: nat

datatype sched_event = WakeThread u32 | RemoveThread u32 | BlockThread u32 | AddThread u32 | SleepTicks u64

record pstate =
  port_table :: "u64 list"
  ports :: "u64 \<rightharpoonup> ipc_port"
  sched_events :: "sched_event list"
  known_threads :: "u32 \<Rightarrow> bool"

abbreviation PORT_MIN_QUEUE_SIZE :: u32 where "PORT_MIN_QUEUE_SIZE \<equiv> 16"
abbreviation PORT_MAX_QUEUE_SIZE :: u32 where "PORT_MAX_QUEUE_SIZE \<equiv> 2048"
abbreviation PORT_MAGIC :: u32 where "PORT_MAGIC \<equiv> 0x504F5254"
abbreviation PORT_TABLE_MAX :: nat where "PORT_TABLE_MAX \<equiv> 512"
abbreviation PORT_WAITERS_MAX :: nat where "PORT_WAITERS_MAX \<equiv> 8"
abbreviation IPC_DATA_SIZE :: nat where "IPC_DATA_SIZE \<equiv> 64"
abbreviation IPC_DISPOSE_MAX :: nat where "IPC_DISPOSE_MAX \<equiv> 4"

abbreviation IPC_OK :: int where "IPC_OK \<equiv> 0"
abbreviation IPC_ERR_NOSLOT :: int where "IPC_ERR_NOSLOT \<equiv> - 1"
abbreviation IPC_ERR_FULL :: int where "IPC_ERR_FULL \<equiv> - 2"
abbreviation IPC_ERR_EMPTY :: int where "IPC_ERR_EMPTY \<equiv> - 3"
abbreviation IPC_ERR_TIMEOUT :: int where "IPC_ERR_TIMEOUT \<equiv> - 4"
abbreviation IPC_ERR_FAULT :: int where "IPC_ERR_FAULT \<equiv> - 5"
abbreviation IPC_ERR_INVAL :: int where "IPC_ERR_INVAL \<equiv> - 6"

section \<open>The port table\<close>

definition table_find :: "u64 \<Rightarrow> 'a pstate_scheme \<Rightarrow> nat option" where
  "table_find p st = List.find (\<lambda>i. port_table st ! i = p) [0..<PORT_TABLE_MAX]"

definition port_ref_raw :: "u64 \<Rightarrow> 'a pstate_scheme \<Rightarrow> ('a pstate_scheme \<times> u64) option" where
  "port_ref_raw raw st =
     (if raw = NULL then Some (st, NULL)
      else case table_find raw st of
        None \<Rightarrow> Some (st, NULL)
      | Some i \<Rightarrow> do {
          p \<leftarrow> ports st raw;
          if magic p \<noteq> PORT_MAGIC then Some (st, NULL)
          else Some (st\<lparr>ports := (ports st)(raw \<mapsto> p\<lparr>ref_count := ref_count p + 1\<rparr>)\<rparr>, raw)
        })"

definition port_drop_ref :: "u64 \<Rightarrow> 'a pstate_scheme \<Rightarrow> 'a pstate_scheme option" where
  "port_drop_ref port st = (case table_find port st of
      None \<Rightarrow> Some st
    | Some i \<Rightarrow> do {
        p \<leftarrow> ports st port;
        if ref_count p - 1 \<le> 0
        then Some (st\<lparr>port_table := (port_table st)[i := NULL], ports := (ports st)(port := None)\<rparr>)
        else Some (st\<lparr>ports := (ports st)(port \<mapsto> p\<lparr>ref_count := ref_count p - 1\<rparr>)\<rparr>)
      })"

definition port_release :: "u64 \<Rightarrow> 'a pstate_scheme \<Rightarrow> 'a pstate_scheme option" where
  "port_release port st = (if port = NULL then Some st else port_drop_ref port st)"

section \<open>The message ring\<close>

record queue_mem =
  qm_queue :: "ipc_msg list option"
  qm_senders :: "u32 list option"

definition copy_ring :: "ipc_port \<Rightarrow> ipc_msg list \<times> u32 list \<Rightarrow> (ipc_msg list \<times> u32 list) option" where
  "copy_ring port = foldM (\<lambda>i (new_q, new_senders).
     let src = unat ((queue_head port + of_nat i) mod queue_size port) in do {
       m \<leftarrow> nth_opt (queue port) src;
       t \<leftarrow> nth_opt (queue_senders port) src;
       new_q \<leftarrow> upd_opt new_q i m;
       new_senders \<leftarrow> upd_opt new_senders i t;
       Some (new_q, new_senders)
     }) [0..<unat (queue_count port)]"

definition grown_size :: "ipc_port \<Rightarrow> u32" where
  "grown_size port = (if queue_size port < PORT_MIN_QUEUE_SIZE then PORT_MIN_QUEUE_SIZE else queue_size port * 2)"

definition port_grow_queue :: "queue_mem \<Rightarrow> ipc_port \<Rightarrow> (ipc_port \<times> int) option" where
  "port_grow_queue mem port =
     (if grown_size port > PORT_MAX_QUEUE_SIZE then Some (port, - 1)
      else case qm_queue mem of
        None \<Rightarrow> Some (port, - 1)
      | Some q \<Rightarrow> (case qm_senders mem of
          None \<Rightarrow> Some (port, - 1)
        | Some sn \<Rightarrow> do {
            (new_q, new_senders) \<leftarrow> copy_ring port (q, sn);
            Some (port\<lparr>queue := new_q, queue_senders := new_senders, queue_size := grown_size port,
              queue_head := 0, queue_tail := queue_count port\<rparr>, 0)
          }))"

definition memcpy_prefix :: "'a list \<Rightarrow> 'a list \<Rightarrow> nat \<Rightarrow> 'a list option" where
  "memcpy_prefix dst src n =
     (if n \<le> length dst \<and> n \<le> length src then Some (take n src @ drop n dst) else None)"

definition store_msg :: "ipc_msg \<Rightarrow> ipc_msg \<Rightarrow> ipc_msg option" where
  "store_msg msg slot = do {
     let size = (if unat (data_size msg) > IPC_DATA_SIZE then of_nat IPC_DATA_SIZE else data_size msg);
     d \<leftarrow> memcpy_prefix (data slot) (data msg) (unat size);
     let nd = (if unat (ndispose msg) > IPC_DISPOSE_MAX then of_nat IPC_DISPOSE_MAX else ndispose msg);
     ds \<leftarrow> memcpy_prefix (dispose slot) (dispose msg) (unat nd);
     Some (slot\<lparr>msg_id := msg_id msg, data_size := size, data := d, ndispose := nd, dispose := ds\<rparr>)
   }"

definition port_put :: "ipc_msg \<Rightarrow> u32 \<Rightarrow> ipc_port \<Rightarrow> ipc_port option" where
  "port_put msg sender port = do {
     slot \<leftarrow> nth_opt (queue port) (unat (queue_tail port));
     slot \<leftarrow> store_msg msg slot;
     q \<leftarrow> upd_opt (queue port) (unat (queue_tail port)) slot;
     sn \<leftarrow> upd_opt (queue_senders port) (unat (queue_tail port)) sender;
     Some (port\<lparr>queue := q, queue_senders := sn,
       queue_tail := (queue_tail port + 1) mod queue_size port, queue_count := queue_count port + 1\<rparr>)
   }"

text \<open>Copying a stored message out, over the caller's (partly uninitialised) buffer.\<close>

definition load_msg :: "ipc_msg \<Rightarrow> ipc_msg \<Rightarrow> ipc_msg option" where
  "load_msg slot msg = do {
     d \<leftarrow> memcpy_prefix (data msg) (data slot) (unat (data_size slot));
     ds \<leftarrow> memcpy_prefix (dispose msg) (dispose slot) (unat (ndispose slot));
     Some (msg\<lparr>msg_id := msg_id slot, data_size := data_size slot, data := d,
       ndispose := ndispose slot, dispose := ds\<rparr>)
   }"

definition port_take :: "ipc_msg \<Rightarrow> ipc_port \<Rightarrow> ((ipc_msg \<times> u32) \<times> ipc_port) option" where
  "port_take buf port = do {
     slot \<leftarrow> nth_opt (queue port) (unat (queue_head port));
     sender \<leftarrow> nth_opt (queue_senders port) (unat (queue_head port));
     msg \<leftarrow> load_msg slot buf;
     Some ((msg, sender), port\<lparr>queue_head := (queue_head port + 1) mod queue_size port,
       queue_count := queue_count port - 1\<rparr>)
   }"

section \<open>Blocked receivers\<close>

definition port_wait_register_locked :: "u32 \<Rightarrow> ipc_port \<Rightarrow> ipc_port option" where
  "port_wait_register_locked tid port =
     (if \<exists>i < waiter_count port. waiters port ! i = tid then Some port
      else if waiter_count port \<ge> PORT_WAITERS_MAX then Some port
      else do {
        w \<leftarrow> upd_opt (waiters port) (waiter_count port) tid;
        Some (port\<lparr>waiters := w, waiter_count := waiter_count port + 1\<rparr>)
      })"

definition port_wake_all_locked :: "(u32 \<Rightarrow> bool) \<Rightarrow> ipc_port \<Rightarrow> ipc_port \<times> sched_event list" where
  "port_wake_all_locked known port =
     (port\<lparr>waiter_count := 0\<rparr>, map WakeThread (filter known (take (waiter_count port) (waiters port))))"

section \<open>Creation, destruction, notification\<close>

record port_mem =
  pm_ptr :: u64
  pm_queue :: "ipc_msg list option"
  pm_senders :: "u32 list option"
  pm_waiters :: "u32 list"

definition port_create :: "port_mem \<Rightarrow> 'a pstate_scheme \<Rightarrow> 'a pstate_scheme \<times> u64" where
  "port_create mem st =
     (if pm_ptr mem = NULL then (st, NULL)
      else case pm_queue mem of None \<Rightarrow> (st, NULL) | Some q \<Rightarrow>
        (case pm_senders mem of None \<Rightarrow> (st, NULL) | Some sn \<Rightarrow>
          (case List.find (\<lambda>i. port_table st ! i = NULL) [0..<PORT_TABLE_MAX] of
             None \<Rightarrow> (st, NULL)
           | Some i \<Rightarrow>
               (st\<lparr>ports := (ports st)(pm_ptr mem \<mapsto>
                  \<lparr>magic = PORT_MAGIC, ref_count = 1, queue = q, queue_senders = sn,
                   queue_size = PORT_MIN_QUEUE_SIZE, queue_head = 0, queue_tail = 0, queue_count = 0,
                   pending_notify = 0, waiters = pm_waiters mem, waiter_count = 0\<rparr>),
                 port_table := (port_table st)[i := pm_ptr mem]\<rparr>, pm_ptr mem))))"

definition port_update :: "u64 \<Rightarrow> ipc_port \<Rightarrow> 'a pstate_scheme \<Rightarrow> 'a pstate_scheme" where
  "port_update a p st = st\<lparr>ports := (ports st)(a \<mapsto> p)\<rparr>"

definition emit :: "sched_event list \<Rightarrow> 'a pstate_scheme \<Rightarrow> 'a pstate_scheme" where
  "emit es st = st\<lparr>sched_events := sched_events st @ es\<rparr>"

definition port_destroy :: "u64 \<Rightarrow> 'a pstate_scheme \<Rightarrow> ('a pstate_scheme \<times> int) option" where
  "port_destroy port st =
     (if port = NULL then Some (st, - 1)
      else do {
        p \<leftarrow> ports st port;
        if magic p \<noteq> PORT_MAGIC then Some (st, - 1)
        else do {
          let (p, evs) = port_wake_all_locked (known_threads st) p;
          let st = emit evs (port_update port (p\<lparr>magic := 0\<rparr>) st);
          st \<leftarrow> port_drop_ref port st;
          Some (st, 0)
        }
      })"

definition port_notify :: "u64 \<Rightarrow> 'a pstate_scheme \<Rightarrow> ('a pstate_scheme \<times> int) option" where
  "port_notify port st =
     (if port = NULL then Some (st, IPC_ERR_NOSLOT)
      else do {
        p \<leftarrow> ports st port;
        if magic p \<noteq> PORT_MAGIC then Some (st, IPC_ERR_NOSLOT)
        else do {
          let (p, evs) = port_wake_all_locked (known_threads st) (p\<lparr>pending_notify := 1\<rparr>);
          Some (emit evs (port_update port p st), IPC_OK)
        }
      })"

section \<open>Well-formed ports\<close>

definition msg_wf :: "ipc_msg \<Rightarrow> bool" where
  "msg_wf m \<longleftrightarrow> length (data m) = IPC_DATA_SIZE \<and> length (dispose m) = IPC_DISPOSE_MAX"

definition msg_bounded :: "ipc_msg \<Rightarrow> bool" where
  "msg_bounded m \<longleftrightarrow> unat (data_size m) \<le> IPC_DATA_SIZE \<and> unat (ndispose m) \<le> IPC_DISPOSE_MAX"

text \<open>What a message says: its id, its data and its capability descriptors, without the padding.\<close>

definition msg_payload :: "ipc_msg \<Rightarrow> u32 \<times> u8 list \<times> ipc_dispose list" where
  "msg_payload m = (msg_id m, take (unat (data_size m)) (data m), take (unat (ndispose m)) (dispose m))"

definition port_ring :: "ipc_port \<Rightarrow> (ipc_msg \<times> u32) list" where
  "port_ring p = ring_contents (zip (queue p) (queue_senders p)) (unat (queue_head p)) (unat (queue_count p))"

definition port_contents :: "ipc_port \<Rightarrow> ((u32 \<times> u8 list \<times> ipc_dispose list) \<times> u32) list" where
  "port_contents p = map (map_prod msg_payload id) (port_ring p)"

definition port_wf :: "ipc_port \<Rightarrow> bool" where
  "port_wf p \<longleftrightarrow>
     length (queue p) = unat (queue_size p) \<and> length (queue_senders p) = unat (queue_size p) \<and>
     PORT_MIN_QUEUE_SIZE \<le> queue_size p \<and> queue_size p \<le> PORT_MAX_QUEUE_SIZE \<and>
     unat (queue_head p) < unat (queue_size p) \<and>
     unat (queue_tail p) = (unat (queue_head p) + unat (queue_count p)) mod unat (queue_size p) \<and>
     unat (queue_count p) \<le> unat (queue_size p) \<and>
     list_all msg_wf (queue p) \<and> list_all (\<lambda>(m, _). msg_bounded m) (port_ring p) \<and>
     length (waiters p) = PORT_WAITERS_MAX \<and> waiter_count p \<le> PORT_WAITERS_MAX \<and>
     distinct (take (waiter_count p) (waiters p))"

lemma port_wfD:
  assumes "port_wf p"
  shows "length (queue p) = unat (queue_size p)" "length (queue_senders p) = unat (queue_size p)"
    "16 \<le> unat (queue_size p)" "unat (queue_size p) \<le> 2048"
    "unat (queue_head p) < unat (queue_size p)"
    "unat (queue_tail p) = (unat (queue_head p) + unat (queue_count p)) mod unat (queue_size p)"
    "unat (queue_count p) \<le> unat (queue_size p)"
    "list_all msg_wf (queue p)" "list_all (\<lambda>(m, _). msg_bounded m) (port_ring p)"
  using assms by (simp_all add: port_wf_def word_le_nat_alt)

lemma memcpy_prefix_Some [simp]:
  "n \<le> length dst \<Longrightarrow> n \<le> length src \<Longrightarrow> memcpy_prefix dst src n = Some (take n src @ drop n dst)"
  by (simp add: memcpy_prefix_def)

lemma clip_u32: "unat (if unat w > k then of_nat k else w :: u32) = min (unat w) k" if "k < 2 ^ 32"
  using that by (simp add: unat_of_nat_less min_def)

lemma store_msg_correct:
  assumes "msg_wf msg" and "msg_wf slot"
  shows "\<exists>m. store_msg msg slot = Some m \<and> msg_wf m \<and> msg_bounded m \<and> msg_payload m = msg_payload msg"
proof -
  let ?n = "if unat (data_size msg) > IPC_DATA_SIZE then of_nat IPC_DATA_SIZE else data_size msg"
  let ?k = "if unat (ndispose msg) > IPC_DISPOSE_MAX then of_nat IPC_DISPOSE_MAX else ndispose msg"
  have n: "unat ?n = min (unat (data_size msg)) IPC_DATA_SIZE" by (rule clip_u32) simp
  have k: "unat ?k = min (unat (ndispose msg)) IPC_DISPOSE_MAX" by (rule clip_u32) simp
  have len: "length (data msg) = IPC_DATA_SIZE" "length (data slot) = IPC_DATA_SIZE"
    "length (dispose msg) = IPC_DISPOSE_MAX" "length (dispose slot) = IPC_DISPOSE_MAX"
    using assms by (simp_all add: msg_wf_def)
  let ?m = "slot\<lparr>msg_id := msg_id msg, data_size := ?n, data := take (unat ?n) (data msg) @ drop (unat ?n) (data slot),
    ndispose := ?k, dispose := take (unat ?k) (dispose msg) @ drop (unat ?k) (dispose slot)\<rparr>"
  have "store_msg msg slot = Some ?m"
    using len unfolding store_msg_def Let_def by (simp add: n k del: of_nat_numeral)
  moreover have "msg_wf ?m" "msg_bounded ?m" using len n k by (simp_all add: msg_wf_def msg_bounded_def)
  moreover have "msg_payload ?m = msg_payload msg"
    using len by (simp add: msg_payload_def n k min_def)
  ultimately show ?thesis by blast
qed

lemma load_msg_correct:
  assumes "msg_wf slot" and "msg_bounded slot" and "msg_wf buf"
  shows "\<exists>m. load_msg slot buf = Some m \<and> msg_wf m \<and> msg_bounded m \<and> msg_payload m = msg_payload slot"
  using assms by (simp add: load_msg_def msg_wf_def msg_bounded_def msg_payload_def)

lemma ring_step_u32:
  "unat a < unat n \<Longrightarrow> unat n \<le> 2048 \<Longrightarrow> unat ((a + 1) mod n) = Suc (unat a) mod unat n" for a n :: u32
  by (simp add: unat_mod unat_add_less)

lemma queue_count_incr: "port_wf p \<Longrightarrow> queue_count p < queue_size p \<Longrightarrow> unat (queue_count p + 1) = Suc (unat (queue_count p))"
  using port_wfD(4) [of p] by (simp add: unat_add_less word_less_nat_alt)

lemma port_ring_put:
  assumes "port_wf p" and "queue_count p < queue_size p"
  shows "port_ring (p\<lparr>queue := (queue p)[unat (queue_tail p) := m],
      queue_senders := (queue_senders p)[unat (queue_tail p) := t],
      queue_tail := tl', queue_count := queue_count p + 1\<rparr>) = port_ring p @ [(m, t)]"
proof -
  have "unat (queue_count p) < length (zip (queue p) (queue_senders p))"
    using assms port_wfD [OF assms(1)] by (simp add: word_less_nat_alt)
  then show ?thesis
    using ring_contents_snoc [of "unat (queue_count p)" "zip (queue p) (queue_senders p)" "unat (queue_head p)" "(m, t)"]
      port_wfD [OF assms(1)] queue_count_incr [OF assms]
    by (simp add: port_ring_def zip_update)
qed

text \<open>The fields of a port other than its message ring.\<close>

definition port_rest :: "ipc_port \<Rightarrow> u32 \<times> int \<times> u32 \<times> int \<times> u32 list \<times> nat" where
  "port_rest p = (magic p, ref_count p, queue_size p, pending_notify p, waiters p, waiter_count p)"

lemma port_put_correct:
  assumes wf: "port_wf p" and room: "queue_count p < queue_size p" and "msg_wf msg"
  shows "\<exists>p'. port_put msg t p = Some p' \<and> port_wf p' \<and> port_contents p' = port_contents p @ [(msg_payload msg, t)] \<and>
    port_rest p' = port_rest p"
proof -
  note d = port_wfD [OF wf]
  let ?i = "unat (queue_tail p)" and ?n = "unat (queue_size p)"
  have i: "?i < ?n" using d(3,6) by simp
  then have "msg_wf (queue p ! ?i)" using d(1,8) by (simp add: list_all_length)
  then obtain m where m: "store_msg msg (queue p ! ?i) = Some m" "msg_wf m" "msg_bounded m" "msg_payload m = msg_payload msg"
    using store_msg_correct assms(3) by blast
  let ?p = "p\<lparr>queue := (queue p)[?i := m], queue_senders := (queue_senders p)[?i := t],
    queue_tail := (queue_tail p + 1) mod queue_size p, queue_count := queue_count p + 1\<rparr>"
  have ring: "port_ring ?p = port_ring p @ [(m, t)]" by (rule port_ring_put [OF wf room])
  have put: "port_put msg t p = Some ?p" using i d(1,2) m(1) by (simp add: port_put_def)
  have "unat (queue_tail ?p) = (unat (queue_head p) + unat (queue_count ?p)) mod ?n"
    using ring_step_u32 [of "queue_tail p" "queue_size p"] i d(4,6) queue_count_incr [OF wf room]
    by (simp add: mod_Suc_eq)
  moreover have "unat (queue_count ?p) \<le> ?n"
    using room queue_count_incr [OF wf room] by (simp add: word_less_nat_alt)
  moreover have "list_all msg_wf (queue ?p)"
    using d(8) m(2) by (auto simp: list_all_iff dest: set_update_subset_insert [THEN subsetD])
  moreover have "list_all (\<lambda>(m, _). msg_bounded m) (port_ring ?p)"
    using d(9) m(3) unfolding ring by simp
  ultimately have "port_wf ?p" using wf by (simp add: port_wf_def)
  then show ?thesis using put ring m(4) by (simp add: port_contents_def port_rest_def)
qed

lemma port_ring_take:
  assumes "port_wf p" and "0 < queue_count p"
  shows "port_ring p = (queue p ! unat (queue_head p), queue_senders p ! unat (queue_head p)) #
    port_ring (p\<lparr>queue_head := (queue_head p + 1) mod queue_size p, queue_count := queue_count p - 1\<rparr>)"
proof -
  note d = port_wfD [OF assms(1)]
  let ?z = "zip (queue p) (queue_senders p)" and ?h = "unat (queue_head p)" and ?c = "unat (queue_count p)"
  have c: "0 < ?c" using assms(2) by (simp add: word_less_nat_alt)
  have h: "?h < length ?z" using d(1,2,5) by simp
  have "ring_contents ?z ?h ?c \<noteq> []" using c by (metis length_0_conv length_ring_contents less_irrefl)
  then have "ring_contents ?z ?h ?c = ?z ! ?h # ring_contents ?z (Suc ?h mod length ?z) (?c - 1)"
    using ring_contents_tl [OF c, of ?z ?h] ring_contents_hd [OF c h] by (metis list.collapse)
  moreover have "unat (queue_count p - 1) = ?c - 1" using c by (simp add: unat_sub_if_size)
  moreover have "unat ((queue_head p + 1) mod queue_size p) = Suc ?h mod length ?z"
    using ring_step_u32 [of "queue_head p" "queue_size p"] d by simp
  ultimately show ?thesis using h d(1,2) by (simp add: port_ring_def)
qed

lemma port_take_correct:
  assumes wf: "port_wf p" and some: "0 < queue_count p" and "msg_wf buf"
  shows "\<exists>m t p'. port_take buf p = Some ((m, t), p') \<and> port_wf p' \<and> msg_wf m \<and> msg_bounded m \<and>
    port_contents p = (msg_payload m, t) # port_contents p' \<and>
    port_rest p' = port_rest p"
proof -
  note d = port_wfD [OF wf]
  let ?h = "unat (queue_head p)"
  let ?p = "p\<lparr>queue_head := (queue_head p + 1) mod queue_size p, queue_count := queue_count p - 1\<rparr>"
  note ring = port_ring_take [OF wf some]
  have "msg_wf (queue p ! ?h)" using d(1,5,8) by (simp add: list_all_length)
  moreover have "msg_bounded (queue p ! ?h)" and rest: "list_all (\<lambda>(m, _). msg_bounded m) (port_ring ?p)"
    using d(9) unfolding ring by simp_all
  ultimately obtain m where m: "load_msg (queue p ! ?h) buf = Some m" "msg_wf m" "msg_bounded m"
    "msg_payload m = msg_payload (queue p ! ?h)"
    using load_msg_correct assms(3) by blast
  have take: "port_take buf p = Some ((m, queue_senders p ! ?h), ?p)"
    using d(1,2,5) m(1) by (simp add: port_take_def)
  have c: "unat (queue_count p - 1) = unat (queue_count p) - 1" "0 < unat (queue_count p)"
    using some by (simp_all add: unat_sub_if_size word_less_nat_alt)
  have h: "unat ((queue_head p + 1) mod queue_size p) = Suc ?h mod unat (queue_size p)"
    by (rule ring_step_u32 [OF d(5,4)])
  have "unat (queue_tail p) = (unat (queue_head ?p) + unat (queue_count ?p)) mod unat (queue_size p)"
    using d(6) ring_tail_step [OF c(2), of ?h "unat (queue_size p)"] by (simp add: c(1) h)
  moreover have "unat (queue_count ?p) \<le> unat (queue_size p)" using d(7) c by simp
  moreover have "unat (queue_head ?p) < unat (queue_size p)" using h d(3) by simp
  ultimately have "port_wf ?p" using wf rest by (simp add: port_wf_def)
  moreover have "port_contents p = (msg_payload m, queue_senders p ! ?h) # port_contents ?p"
    unfolding port_contents_def ring using m(4) by simp
  ultimately show ?thesis using take m(2,3) by (simp add: port_rest_def)
qed

section \<open>Growing the ring\<close>

definition queue_mem_ok :: "queue_mem \<Rightarrow> ipc_port \<Rightarrow> bool" where
  "queue_mem_ok mem p \<longleftrightarrow>
     (\<forall>q. qm_queue mem = Some q \<longrightarrow> length q = unat (grown_size p) \<and> list_all msg_wf q) \<and>
     (\<forall>sn. qm_senders mem = Some sn \<longrightarrow> length sn = unat (grown_size p))"

definition copy_step :: "ipc_port \<Rightarrow> nat \<Rightarrow> ipc_msg list \<times> u32 list \<Rightarrow> (ipc_msg list \<times> u32 list) option" where
  "copy_step port i s = (case s of (new_q, new_senders) \<Rightarrow>
     let src = unat ((queue_head port + of_nat i) mod queue_size port) in do {
       m \<leftarrow> nth_opt (queue port) src;
       t \<leftarrow> nth_opt (queue_senders port) src;
       new_q \<leftarrow> upd_opt new_q i m;
       new_senders \<leftarrow> upd_opt new_senders i t;
       Some (new_q, new_senders)
     })"

lemma copy_ring_eq: "copy_ring port = foldM (copy_step port) [0..<unat (queue_count port)]"
  unfolding copy_ring_def copy_step_def by (simp add: case_prod_unfold)

lemma copy_step_eq:
  assumes "port_wf p" and "i < unat (queue_count p)" and "unat (queue_size p) \<le> length q" and "length sn = length q"
  shows "copy_step p i (q, sn) =
    Some (q[i := fst (port_ring p ! i)], sn[i := snd (port_ring p ! i)])"
proof -
  note d = port_wfD [OF assms(1)]
  have "unat (queue_head p + of_nat i) = unat (queue_head p) + i"
    using d assms(2) by (simp add: arc_word)
  then have src: "unat ((queue_head p + of_nat i) mod queue_size p) = (unat (queue_head p) + i) mod unat (queue_size p)"
    by (simp add: unat_mod)
  moreover have "(unat (queue_head p) + i) mod unat (queue_size p) < unat (queue_size p)"
    using d(3) by (intro mod_less_divisor) linarith
  ultimately show ?thesis
    using d assms by (simp add: copy_step_def Let_def port_ring_def nth_ring_contents)
qed

lemma copy_steps:
  assumes "port_wf p" and "k \<le> unat (queue_count p)" and "unat (queue_size p) \<le> length q" and "length sn = length q"
  shows "foldM (copy_step p) [0..<k] (q, sn) =
    Some (map fst (take k (port_ring p)) @ drop k q, map snd (take k (port_ring p)) @ drop k sn)"
  using assms(2)
proof (induction k)
  case (Suc k)
  have len: "length (port_ring p) = unat (queue_count p)" by (simp add: port_ring_def)
  have k: "k < length q" "k < length sn" using Suc.prems port_wfD(7) [OF assms(1)] assms(3,4) by simp_all
  let ?q = "map fst (take k (port_ring p)) @ drop k q" and ?s = "map snd (take k (port_ring p)) @ drop k sn"
  have "length ?q = length q" "length ?s = length sn"
    using k Suc.prems len by simp_all
  then have "copy_step p k (?q, ?s) = Some (?q[k := fst (port_ring p ! k)], ?s[k := snd (port_ring p ! k)])"
    using Suc.prems assms by (intro copy_step_eq) simp_all
  moreover have "?q[k := fst (port_ring p ! k)] = map fst (take (Suc k) (port_ring p)) @ drop (Suc k) q"
    using k Suc.prems len by (simp add: list_update_append take_Suc_conv_app_nth min_def Cons_nth_drop_Suc [symmetric])
  moreover have "?s[k := snd (port_ring p ! k)] = map snd (take (Suc k) (port_ring p)) @ drop (Suc k) sn"
    using k Suc.prems len by (simp add: list_update_append take_Suc_conv_app_nth min_def Cons_nth_drop_Suc [symmetric])
  ultimately show ?case
    using Suc by (simp add: foldM_append)
qed simp

lemma grown_size_eq: "port_wf p \<Longrightarrow> unat (grown_size p) = 2 * unat (queue_size p)"
  using port_wfD(3,4) [of p] by (simp add: grown_size_def word_less_nat_alt unat_word_ariths)

lemma set_ring_contents: "head < length xs \<Longrightarrow> set (ring_contents xs head count) \<subseteq> set xs"
  by (auto simp: ring_contents_def intro!: nth_mem mod_less_divisor)

lemma port_grow_correct:
  assumes wf: "port_wf p" and mem: "queue_mem_ok mem p"
  shows "\<exists>p' r. port_grow_queue mem p = Some (p', r) \<and> port_wf p' \<and> port_contents p' = port_contents p \<and>
    (r = - 1 \<and> p' = p \<or> r = 0 \<and> unat (queue_size p') = 2 * unat (queue_size p)) \<and> ref_count p' = ref_count p \<and>
    magic p' = magic p"
proof (cases "grown_size p > PORT_MAX_QUEUE_SIZE \<or> qm_queue mem = None \<or> qm_senders mem = None")
  case True
  then show ?thesis using wf by (auto simp: port_grow_queue_def split: option.splits)
next
  case False
  then obtain q sn where q: "qm_queue mem = Some q" "qm_senders mem = Some sn" and small: "grown_size p \<le> PORT_MAX_QUEUE_SIZE"
    by auto
  note d = port_wfD [OF wf] and g = grown_size_eq [OF wf]
  let ?c = "unat (queue_count p)"
  have len: "length q = 2 * unat (queue_size p)" "length sn = 2 * unat (queue_size p)" and wq: "list_all msg_wf q"
    using mem q g by (simp_all add: queue_mem_ok_def)
  have ring_len: "length (port_ring p) = ?c" by (simp add: port_ring_def)
  let ?q = "map fst (port_ring p) @ drop ?c q" and ?s = "map snd (port_ring p) @ drop ?c sn"
  let ?p = "p\<lparr>queue := ?q, queue_senders := ?s, queue_size := grown_size p, queue_head := 0, queue_tail := queue_count p\<rparr>"
  have "copy_ring p (q, sn) = Some (?q, ?s)"
    unfolding copy_ring_eq using copy_steps [OF wf order_refl, of q sn] len ring_len by simp
  then have grow: "port_grow_queue mem p = Some (?p, 0)"
    using q small by (simp add: port_grow_queue_def not_less [symmetric])
  have "zip ?q ?s = port_ring p @ zip (drop ?c q) (drop ?c sn)"
    by (simp add: zip_append zip_map_fst_snd)
  then have ring: "port_ring ?p = port_ring p"
    using ring_contents_linear [of ?c "zip ?q ?s"] ring_len d(7) len by (simp add: port_ring_def [of ?p])
  have "set (map fst (port_ring p)) \<subseteq> set (queue p)"
    using set_ring_contents [of "unat (queue_head p)" "zip (queue p) (queue_senders p)" ?c] d(1,2,5)
    by (auto simp: port_ring_def dest!: subsetD set_zip_leftD)
  then have "list_all msg_wf ?q" using d(8) wq by (auto simp: list_all_iff dest: in_set_dropD)
  then have "port_wf ?p"
    using wf d g small len ring ring_len unfolding port_wf_def by (simp add: word_le_nat_alt)
  then show ?thesis using grow ring g by (simp add: port_contents_def)
qed

section \<open>The message ring is a queue\<close>

definition blank_msg :: ipc_msg where
  "blank_msg = \<lparr>msg_id = 0, data_size = 0, data = replicate IPC_DATA_SIZE 0, ndispose = 0,
     dispose = replicate IPC_DISPOSE_MAX \<lparr>d_type = 0, d_rights = 0, d_handle = 0\<rparr>\<rparr>"

lemma blank_msg_wf [simp]: "msg_wf blank_msg"
  by (simp add: msg_wf_def blank_msg_def)

lemma length_port_contents: "length (port_contents p) = unat (queue_count p)"
  by (simp add: port_contents_def port_ring_def)

interpretation mq: fifo port_wf port_contents "\<lambda>p. unat (queue_size p)" "map_prod msg_payload id" "port_take blank_msg"
  "\<lambda>(m, t). msg_wf m" "\<lambda>(m, t). port_put m t"
proof unfold_locales
  fix p :: ipc_port and x :: "ipc_msg \<times> u32"
  assume wf: "port_wf p"
  obtain m t where x: "x = (m, t)" by (cases x)
  show "\<exists>p'. (case x of (m, t) \<Rightarrow> port_put m t) p = Some p' \<and> port_wf p' \<and>
      port_contents p' = port_contents p @ [map_prod msg_payload id x] \<and> unat (queue_size p') = unat (queue_size p)"
    if "case x of (m, t) \<Rightarrow> msg_wf m" and "length (port_contents p) < unat (queue_size p)"
  proof -
    have "queue_count p < queue_size p" "msg_wf m" using that x by (simp_all add: length_port_contents word_less_nat_alt)
    from port_put_correct [OF wf this, of t] obtain p' where p': "port_put m t p = Some p'" "port_wf p'"
      "port_contents p' = port_contents p @ [(msg_payload m, t)]"
      "port_rest p' = port_rest p"
      by blast
    moreover from p'(4) have "queue_size p' = queue_size p" by (simp add: port_rest_def)
    ultimately show ?thesis using x by auto
  qed
  show "\<exists>y p'. port_take blank_msg p = Some (y, p') \<and> port_wf p' \<and>
      port_contents p = map_prod msg_payload id y # port_contents p' \<and> unat (queue_size p') = unat (queue_size p)"
    if "port_contents p \<noteq> []"
  proof -
    have "unat (queue_count p) \<noteq> 0" using that length_port_contents [of p] by (metis length_0_conv)
    then have "0 < queue_count p" by (simp add: word_less_nat_alt)
    from port_take_correct [OF wf this blank_msg_wf] obtain m t p' where p': "port_take blank_msg p = Some ((m, t), p')" "port_wf p'"
      "port_contents p = (msg_payload m, t) # port_contents p'"
      "port_rest p' = port_rest p"
      by blast
    moreover from p'(4) have "queue_size p' = queue_size p" by (simp add: port_rest_def)
    ultimately show ?thesis by auto
  qed
qed

section \<open>Waiters\<close>

lemma port_wait_register_correct:
  assumes "port_wf p"
  shows "\<exists>p'. port_wait_register_locked tid p = Some p' \<and> port_wf p' \<and> port_contents p' = port_contents p \<and>
    ref_count p' = ref_count p \<and> magic p' = magic p \<and>
    set (take (waiter_count p') (waiters p')) =
      set (take (waiter_count p) (waiters p)) \<union> (if waiter_count p < PORT_WAITERS_MAX then {tid} else {})
    \<or> port_wait_register_locked tid p = Some p \<and> tid \<in> set (take (waiter_count p) (waiters p))"
proof (cases "tid \<in> set (take (waiter_count p) (waiters p))")
  case True
  then have "\<exists>i < waiter_count p. waiters p ! i = tid" by (auto simp: in_set_conv_nth)
  then show ?thesis using True by (simp add: port_wait_register_locked_def)
next
  case False
  have len: "length (waiters p) = 8" "waiter_count p \<le> 8" "distinct (take (waiter_count p) (waiters p))"
    using assms by (simp_all add: port_wf_def)
  then have no: "\<not> (\<exists>i < waiter_count p. waiters p ! i = tid)"
    using False by (auto simp: in_set_conv_nth)
  show ?thesis
  proof (cases "waiter_count p < PORT_WAITERS_MAX")
    case True
    let ?p = "p\<lparr>waiters := (waiters p)[waiter_count p := tid], waiter_count := waiter_count p + 1\<rparr>"
    have eq: "port_wait_register_locked tid p = Some ?p"
      unfolding port_wait_register_locked_def if_not_P [OF no] using True len by simp
    have tk: "take (Suc (waiter_count p)) ((waiters p)[waiter_count p := tid]) = take (waiter_count p) (waiters p) @ [tid]"
      using True len by (simp add: take_Suc_conv_app_nth)
    have "port_wf ?p" using assms True False len(3) tk by (simp add: port_wf_def port_ring_def)
    then show ?thesis using eq tk True by (auto simp: port_contents_def port_ring_def)
  next
    case full: False
    then show ?thesis using no assms by (simp add: port_wait_register_locked_def)
  qed
qed

lemma port_wake_all_wf:
  assumes "port_wf p"
  shows "port_wf (fst (port_wake_all_locked known p))" and "port_contents (fst (port_wake_all_locked known p)) = port_contents p"
  using assms by (simp_all add: port_wake_all_locked_def port_wf_def port_contents_def port_ring_def)

section \<open>The table and its references\<close>

definition ports_inv :: "'a pstate_scheme \<Rightarrow> bool" where
  "ports_inv st \<longleftrightarrow>
     length (port_table st) = PORT_TABLE_MAX \<and>
     (\<forall>i < PORT_TABLE_MAX. \<forall>j < PORT_TABLE_MAX.
        port_table st ! i \<noteq> NULL \<longrightarrow> port_table st ! i = port_table st ! j \<longrightarrow> i = j) \<and>
     (\<forall>a. ports st a \<noteq> None \<longleftrightarrow> a \<noteq> NULL \<and> (\<exists>i < PORT_TABLE_MAX. port_table st ! i = a)) \<and>
     (\<forall>a p. ports st a = Some p \<longrightarrow> port_wf p \<and> 1 \<le> ref_count p)"

lemma ports_invD:
  assumes "ports_inv st"
  shows "length (port_table st) = PORT_TABLE_MAX"
    and "\<lbrakk>i < PORT_TABLE_MAX; j < PORT_TABLE_MAX; port_table st ! i \<noteq> NULL; port_table st ! i = port_table st ! j\<rbrakk> \<Longrightarrow> i = j"
    and "ports st a \<noteq> None \<longleftrightarrow> a \<noteq> NULL \<and> (\<exists>i < PORT_TABLE_MAX. port_table st ! i = a)"
    and "ports st a = Some p \<Longrightarrow> port_wf p \<and> 1 \<le> ref_count p"
  using assms unfolding ports_inv_def by blast+

lemma table_find_Some: "table_find a st = Some i \<Longrightarrow> i < PORT_TABLE_MAX \<and> port_table st ! i = a"
  by (simp add: table_find_def find_upt_Some_iff)

lemma table_find_None_iff:
  assumes "ports_inv st" and "a \<noteq> NULL"
  shows "table_find a st = None \<longleftrightarrow> ports st a = None"
  using ports_invD(3) [OF assms(1), of a] assms(2) by (auto simp: table_find_def find_upt_None_iff)

lemma ports_inv_update:
  assumes "ports_inv st" and "ports st a \<noteq> None" and "port_wf p" and "1 \<le> ref_count p"
  shows "ports_inv (st\<lparr>ports := (ports st)(a \<mapsto> p)\<rparr>)"
  using assms by (simp add: ports_inv_def)

lemma ports_inv_port_update:
  "ports_inv st \<Longrightarrow> ports st a \<noteq> None \<Longrightarrow> port_wf p \<Longrightarrow> 1 \<le> ref_count p \<Longrightarrow> ports_inv (port_update a p st)"
  by (simp add: port_update_def ports_inv_update)

lemma ports_inv_emit [simp]: "ports_inv (emit es st) = ports_inv st"
  by (simp add: emit_def ports_inv_def)

lemma ports_emit [simp]: "ports (emit es st) = ports st" "port_table (emit es st) = port_table st"
  by (simp_all add: emit_def)

lemma ports_port_update [simp]: "ports (port_update a p st) = (ports st)(a \<mapsto> p)"
    "port_table (port_update a p st) = port_table st" "sched_events (port_update a p st) = sched_events st"
  by (simp_all add: port_update_def)

lemma ports_inv_free:
  assumes inv: "ports_inv st" and i: "i < PORT_TABLE_MAX" "port_table st ! i = a" "a \<noteq> NULL"
  shows "ports_inv (st\<lparr>port_table := (port_table st)[i := NULL], ports := (ports st)(a := None)\<rparr>)"
proof -
  note d = ports_invD [OF inv]
  let ?t = "(port_table st)[i := NULL]"
  have nth: "?t ! j = (if j = i then NULL else port_table st ! j)" if "j < PORT_TABLE_MAX" for j
    using that d(1) by simp
  have ex: "(\<exists>j < PORT_TABLE_MAX. ?t ! j = b) \<longleftrightarrow> b \<noteq> a \<and> (\<exists>j < PORT_TABLE_MAX. port_table st ! j = b)" if "b \<noteq> NULL" for b
    using that i d(2) [of i] nth by metis
  have "\<forall>x < PORT_TABLE_MAX. \<forall>y < PORT_TABLE_MAX. ?t ! x \<noteq> NULL \<longrightarrow> ?t ! x = ?t ! y \<longrightarrow> x = y"
    using nth d(2) by metis
  moreover have "\<forall>b. ((ports st)(a := None)) b \<noteq> None \<longleftrightarrow> b \<noteq> NULL \<and> (\<exists>j < PORT_TABLE_MAX. ?t ! j = b)"
    using ex d(3) by (metis fun_upd_apply)
  moreover have "\<forall>b p. ((ports st)(a := None)) b = Some p \<longrightarrow> port_wf p \<and> 1 \<le> ref_count p"
    using d(4) by simp
  ultimately show ?thesis
    unfolding ports_inv_def using d(1) by simp
qed

lemma port_drop_ref_correct:
  assumes "ports_inv st" and "a \<noteq> NULL"
  shows "\<exists>st'. port_drop_ref a st = Some st' \<and> ports_inv st' \<and>
    ports st' = (ports st)(a := (case ports st a of None \<Rightarrow> None
      | Some p \<Rightarrow> if ref_count p \<le> 1 then None else Some (p\<lparr>ref_count := ref_count p - 1\<rparr>))) \<and>
    sched_events st' = sched_events st"
proof (cases "ports st a")
  case None
  then show ?thesis
    using assms table_find_None_iff [OF assms] by (simp add: port_drop_ref_def fun_upd_idem)
next
  case (Some p)
  then obtain i where i: "table_find a st = Some i" using table_find_None_iff [OF assms] by auto
  note ti = table_find_Some [OF i]
  have p: "port_wf p" "1 \<le> ref_count p" using ports_invD(4) [OF assms(1) Some] by auto
  have wf: "port_wf (p\<lparr>ref_count := r\<rparr>)" for r using p(1) by (simp add: port_wf_def port_ring_def)
  show ?thesis
  proof (cases "ref_count p \<le> 1")
    case True
    then show ?thesis
      using Some i ports_inv_free [OF assms(1) _ _ assms(2)] ti by (simp add: port_drop_ref_def)
  next
    case False
    then show ?thesis
      using Some i ports_inv_update [OF assms(1) _ wf] by (simp add: port_drop_ref_def)
  qed
qed

lemma port_ref_raw_correct:
  assumes "ports_inv st"
  shows "(case ports st a of
      Some p \<Rightarrow> if magic p = PORT_MAGIC
        then \<exists>st'. port_ref_raw a st = Some (st', a) \<and> ports_inv st' \<and> st' = port_update a (p\<lparr>ref_count := ref_count p + 1\<rparr>) st
        else port_ref_raw a st = Some (st, NULL)
    | None \<Rightarrow> port_ref_raw a st = Some (st, NULL))"
proof (cases "ports st a")
  case None
  then show ?thesis
    using table_find_None_iff [OF assms, of a] by (auto simp: port_ref_raw_def)
next
  case (Some p)
  then have a: "a \<noteq> NULL" using ports_invD(3) [OF assms, of a] by auto
  then obtain i where i: "table_find a st = Some i" using table_find_None_iff [OF assms a] Some by auto
  have p: "port_wf p" "1 \<le> ref_count p" using ports_invD(4) [OF assms Some] by auto
  have "port_wf (p\<lparr>ref_count := ref_count p + 1\<rparr>)" using p(1) by (simp add: port_wf_def port_ring_def)
  then show ?thesis
    using Some a i p ports_inv_update [OF assms, of a] by (simp add: port_ref_raw_def port_update_def)
qed

definition port_mem_ok :: "port_mem \<Rightarrow> 'a pstate_scheme \<Rightarrow> bool" where
  "port_mem_ok mem st \<longleftrightarrow>
     (pm_ptr mem \<noteq> NULL \<longrightarrow> ports st (pm_ptr mem) = None) \<and>
     (\<forall>q. pm_queue mem = Some q \<longrightarrow> length q = 16 \<and> list_all msg_wf q) \<and>
     (\<forall>sn. pm_senders mem = Some sn \<longrightarrow> length sn = 16) \<and>
     length (pm_waiters mem) = PORT_WAITERS_MAX"

lemma ports_inv_insert:
  assumes inv: "ports_inv st" and i: "i < PORT_TABLE_MAX" "port_table st ! i = NULL"
    and a: "a \<noteq> NULL" "ports st a = None" and p: "port_wf p" "1 \<le> ref_count p"
  shows "ports_inv (st\<lparr>ports := (ports st)(a \<mapsto> p), port_table := (port_table st)[i := a]\<rparr>)"
proof -
  note d = ports_invD [OF inv]
  let ?t = "(port_table st)[i := a]"
  have nth: "?t ! j = (if j = i then a else port_table st ! j)" if "j < PORT_TABLE_MAX" for j
    using that d(1) by simp
  have na: "port_table st ! j \<noteq> a" if "j < PORT_TABLE_MAX" for j
    using that d(3) [of a] a by auto
  have ex: "(\<exists>j < PORT_TABLE_MAX. ?t ! j = b) \<longleftrightarrow> b = a \<or> (\<exists>j < PORT_TABLE_MAX. port_table st ! j = b)" if "b \<noteq> NULL" for b
    using that i nth by metis
  have "\<forall>x < PORT_TABLE_MAX. \<forall>y < PORT_TABLE_MAX. ?t ! x \<noteq> NULL \<longrightarrow> ?t ! x = ?t ! y \<longrightarrow> x = y"
    using nth d(2) na by metis
  moreover have "\<forall>b. ((ports st)(a \<mapsto> p)) b \<noteq> None \<longleftrightarrow> b \<noteq> NULL \<and> (\<exists>j < PORT_TABLE_MAX. ?t ! j = b)"
    using ex d(3) a(1) by (metis fun_upd_apply option.distinct(1))
  moreover have "\<forall>b q. ((ports st)(a \<mapsto> p)) b = Some q \<longrightarrow> port_wf q \<and> 1 \<le> ref_count q"
    using d(4) p by (metis fun_upd_apply option.inject)
  ultimately show ?thesis
    unfolding ports_inv_def using d(1) by simp
qed

lemma port_create_correct:
  assumes "ports_inv st" and "port_mem_ok mem st"
  shows "(\<exists>st'. port_create mem st = (st', pm_ptr mem) \<and> pm_ptr mem \<noteq> NULL \<and> ports_inv st' \<and> ports st (pm_ptr mem) = None \<and>
      (\<exists>p. ports st' = (ports st)(pm_ptr mem \<mapsto> p) \<and> magic p = PORT_MAGIC \<and> ref_count p = 1 \<and>
         port_contents p = [] \<and> pending_notify p = 0) \<and> sched_events st' = sched_events st)
    \<or> port_create mem st = (st, NULL)"
proof (cases "pm_ptr mem = NULL \<or> pm_queue mem = None \<or> pm_senders mem = None \<or>
    List.find (\<lambda>i. port_table st ! i = NULL) [0..<PORT_TABLE_MAX] = None")
  case True
  then have "port_create mem st = (st, NULL)" by (auto simp: port_create_def split: option.splits)
  then show ?thesis by blast
next
  case False
  then obtain q sn i where q: "pm_ptr mem \<noteq> NULL" "pm_queue mem = Some q" "pm_senders mem = Some sn"
    "List.find (\<lambda>i. port_table st ! i = NULL) [0..<PORT_TABLE_MAX] = Some i" by auto
  then have i: "i < PORT_TABLE_MAX" "port_table st ! i = NULL" by (auto simp: find_upt_Some_iff)
  have a: "ports st (pm_ptr mem) = None" and len: "length q = 16" "list_all msg_wf q" "length sn = 16"
    "length (pm_waiters mem) = 8" using assms(2) q by (simp_all add: port_mem_ok_def)
  let ?p = "\<lparr>magic = PORT_MAGIC, ref_count = 1, queue = q, queue_senders = sn,
     queue_size = PORT_MIN_QUEUE_SIZE, queue_head = 0, queue_tail = 0, queue_count = 0,
     pending_notify = 0, waiters = pm_waiters mem, waiter_count = 0\<rparr>"
  let ?st = "st\<lparr>ports := (ports st)(pm_ptr mem \<mapsto> ?p), port_table := (port_table st)[i := pm_ptr mem]\<rparr>"
  have wf: "port_wf ?p" using len by (simp add: port_wf_def port_ring_def)
  have "ports_inv ?st" using ports_inv_insert [OF assms(1) i q(1) a wf] by simp
  moreover have "port_create mem st = (?st, pm_ptr mem)" using q by (simp add: port_create_def)
  moreover have "port_contents ?p = []" by (simp add: port_contents_def port_ring_def)
  ultimately show ?thesis using a q(1) by fastforce
qed

lemma port_destroy_live:
  assumes "ports_inv st" and "ports st a = Some p" and "magic p = PORT_MAGIC"
  shows "\<exists>st'. port_destroy a st = Some (st', 0) \<and> ports_inv st' \<and>
    ports st' = (ports st)(a := (if ref_count p \<le> 1 then None
      else Some (p\<lparr>waiter_count := 0, magic := 0, ref_count := ref_count p - 1\<rparr>))) \<and>
    sched_events st' = sched_events st @ map WakeThread (filter (known_threads st) (take (waiter_count p) (waiters p)))"
proof -
  have a: "a \<noteq> NULL" using ports_invD(3) [OF assms(1), of a] assms(2) by auto
  have p: "port_wf p" "1 \<le> ref_count p" using ports_invD(4) [OF assms(1,2)] by auto
  let ?p = "p\<lparr>waiter_count := 0, magic := 0\<rparr>"
  let ?st = "emit (map WakeThread (filter (known_threads st) (take (waiter_count p) (waiters p)))) (port_update a ?p st)"
  have "port_wf ?p" using p(1) by (simp add: port_wf_def port_ring_def)
  then have "ports_inv ?st" using ports_inv_port_update [OF assms(1)] assms(2) p(2) by simp
  from port_drop_ref_correct [OF this a] show ?thesis
    using a assms(2,3) by (auto simp: port_destroy_def port_wake_all_locked_def emit_def port_update_def)
qed

lemma port_notify_live:
  assumes "ports_inv st" and "ports st a = Some p" and "magic p = PORT_MAGIC"
  shows "\<exists>st'. port_notify a st = Some (st', IPC_OK) \<and> ports_inv st' \<and>
    ports st' = (ports st)(a \<mapsto> p\<lparr>pending_notify := 1, waiter_count := 0\<rparr>) \<and>
    sched_events st' = sched_events st @ map WakeThread (filter (known_threads st) (take (waiter_count p) (waiters p)))"
proof -
  have a: "a \<noteq> NULL" using ports_invD(3) [OF assms(1), of a] assms(2) by auto
  have p: "port_wf p" "1 \<le> ref_count p" using ports_invD(4) [OF assms(1,2)] by auto
  have "port_wf (p\<lparr>pending_notify := 1, waiter_count := 0\<rparr>)" using p(1) by (simp add: port_wf_def port_ring_def)
  then have "ports_inv (port_update a (p\<lparr>pending_notify := 1, waiter_count := 0\<rparr>) st)"
    using ports_inv_port_update [OF assms(1)] assms(2) p(2) by simp
  then show ?thesis
    using a assms(2,3) by (simp add: port_notify_def port_wake_all_locked_def) (simp add: emit_def)
qed

lemma port_release_correct:
  assumes "ports_inv st"
  shows "\<exists>st'. port_release a st = Some st' \<and> ports_inv st' \<and>
    ports st' = (ports st)(a := (case ports st a of None \<Rightarrow> None
      | Some p \<Rightarrow> if ref_count p = 1 then None else Some (p\<lparr>ref_count := ref_count p - 1\<rparr>)))"
proof (cases "a = NULL")
  case True
  then have "ports st a = None" using ports_invD(3) [OF assms, of a] by simp
  then show ?thesis using assms True by (simp add: port_release_def fun_upd_idem)
next
  case False
  have "ref_count p \<le> 1 \<longleftrightarrow> ref_count p = 1" if "ports st a = Some p" for p
    using ports_invD(4) [OF assms that] by auto
  then show ?thesis
    using port_drop_ref_correct [OF assms False] False
    by (cases "ports st a") (auto simp: port_release_def)
qed

lemma port_release_if:
  "ports_inv st \<Longrightarrow> \<exists>st'. (if b then port_release a st else Some st) = Some st' \<and> ports_inv st'"
  using port_release_correct [of st a] by (cases b) auto

text \<open>A port with an empty queue of 16 slots, and a table that holds only it.\<close>

definition example_port :: ipc_port where
  "example_port = \<lparr>magic = PORT_MAGIC, ref_count = 1, queue = replicate 16 blank_msg, queue_senders = replicate 16 0,
     queue_size = 16, queue_head = 14, queue_tail = 14, queue_count = 0, pending_notify = 0,
     waiters = replicate 8 0, waiter_count = 0\<rparr>"

definition example_pstate :: pstate where
  "example_pstate = \<lparr>port_table = 0x1000 # replicate 511 NULL, ports = [0x1000 \<mapsto> example_port], sched_events = [], known_threads = (\<lambda>_. True)\<rparr>"

lemma example_port_wf: "port_wf example_port"
  by (simp add: port_wf_def example_port_def port_ring_def list_all_iff)

lemma example_table_nth: "j < PORT_TABLE_MAX \<Longrightarrow> (0x1000 # replicate 511 NULL) ! j = (if j = 0 then 0x1000 else NULL)"
  by (cases j) simp_all

lemma example_pstate_inv: "ports_inv example_pstate"
  unfolding ports_inv_def
  by (auto simp: example_pstate_def example_table_nth example_port_wf example_port_def [THEN arg_cong [of _ _ ref_count]]
    split: if_splits intro!: exI [of _ 0])

section \<open>Properties\<close>

text \<open>
  C21. Releasing a reference is safe whatever the pointer: from a consistent table it is always defined,
  even for a stale address; it frees the port exactly when the last reference goes, keeps
  every other port as it is and leaves the table consistent.
\<close>
theorem port_release_safe:
  assumes "ports_inv st"
  shows "\<exists>st'. port_release a st = Some st' \<and> ports_inv st' \<and>
    ports st' = (ports st)(a := (case ports st a of None \<Rightarrow> None
      | Some p \<Rightarrow> if ref_count p = 1 then None else Some (p\<lparr>ref_count := ref_count p - 1\<rparr>)))"
  using port_release_correct [OF assms] .

theorem port_release_safe_witness:
  "(\<exists>st'. port_release 0x1000 example_pstate = Some st' \<and> ports st' 0x1000 = None) \<and>
   (\<exists>st'. port_release 0x2000 example_pstate = Some st' \<and> ports st' 0x1000 = Some example_port)"
  using port_release_safe [OF example_pstate_inv, of "0x1000"] port_release_safe [OF example_pstate_inv, of "0x2000"]
  by (auto simp: example_pstate_def example_port_def)

text \<open>
  A reference taken through the table and released again leaves every port unchanged: the two sides of
  the lookup protocol of the system calls balance.
\<close>
lemma port_ref_release_balanced:
  assumes "ports_inv st"
  shows "\<exists>st1 r st2. port_ref_raw a st = Some (st1, r) \<and> port_release r st1 = Some st2 \<and>
    ports st2 = ports st \<and> (r = a \<or> r = NULL) \<and>
    (r \<noteq> NULL \<longleftrightarrow> (\<exists>p. ports st a = Some p \<and> magic p = PORT_MAGIC))"
proof (cases "\<exists>p. ports st a = Some p \<and> magic p = PORT_MAGIC")
  case True
  then obtain p where p: "ports st a = Some p" "magic p = PORT_MAGIC" by blast
  let ?st = "port_update a (p\<lparr>ref_count := ref_count p + 1\<rparr>) st"
  have ref: "port_ref_raw a st = Some (?st, a)" and inv: "ports_inv ?st"
    using port_ref_raw_correct [OF assms, of a] p by auto
  have a: "a \<noteq> NULL" using ports_invD(3) [OF assms, of a] p by auto
  have "1 \<le> ref_count p" using ports_invD(4) [OF assms p(1)] by simp
  then show ?thesis
    using port_drop_ref_correct [OF inv a] ref a p by (auto simp: port_release_def fun_upd_idem)
next
  case False
  then have "port_ref_raw a st = Some (st, NULL)"
    using port_ref_raw_correct [OF assms, of a] by (auto split: option.splits if_splits)
  then show ?thesis using False by (simp add: port_release_def)
qed

lemma port_ref_release_balanced_witness:
  "\<exists>st1 st2. port_ref_raw 0x1000 example_pstate = Some (st1, 0x1000) \<and> port_release 0x1000 st1 = Some st2 \<and>
    ports st2 = ports example_pstate"
  using port_ref_release_balanced [OF example_pstate_inv, of "0x1000"]
  by (auto simp: example_pstate_def example_port_def)

text \<open>
  C20. Ports deliver in order: messages put on a port's ring while there is room come out again in the order
  they were put in, each with its payload (clipped to the 64 data bytes and 4 descriptors a message
  can carry) and its recorded sender, after everything that was queued before.
\<close>
theorem port_queue_fifo:
  assumes "port_wf p" and "\<forall>(m, t) \<in> set msgs. msg_wf m"
    and "unat (queue_count p) + length msgs \<le> unat (queue_size p)"
  shows "\<exists>p1 out p2. foldM (\<lambda>(m, t). port_put m t) msgs p = Some p1 \<and>
    deq_many (port_take blank_msg) (unat (queue_count p) + length msgs) p1 = Some (out, p2) \<and>
    map (map_prod msg_payload id) out = port_contents p @ map (map_prod msg_payload id) msgs \<and>
    port_wf p2 \<and> port_contents p2 = []"
proof -
  have "list_all (\<lambda>(m, t). msg_wf m) msgs" using assms(2) by (simp add: list_all_iff)
  then show ?thesis using mq.burst_round_trip [OF assms(1), of msgs] assms(3) by (simp add: length_port_contents)
qed

definition hello_msg :: ipc_msg where
  "hello_msg = blank_msg\<lparr>msg_id := 7, data_size := 2, data := [1, 2] @ replicate 62 0\<rparr>"

theorem port_queue_fifo_witness:
  "\<exists>p1 out p2. foldM (\<lambda>(m, t). port_put m t) [(hello_msg, 3), (blank_msg, 4), (hello_msg, 5)] example_port = Some p1 \<and>
    deq_many (port_take blank_msg) 3 p1 = Some (out, p2) \<and>
    map (map_prod msg_payload id) out = [((7, [1, 2], []), 3), ((0, [], []), 4), ((7, [1, 2], []), 5)]"
proof -
  let ?ms = "[(hello_msg, 3), (blank_msg, 4), (hello_msg, 5)]"
  have "msg_wf hello_msg" by (simp add: hello_msg_def msg_wf_def blank_msg_def)
  then have v: "\<forall>(m, t) \<in> set ?ms. msg_wf m" by simp
  have e: "port_contents example_port = []" "unat (queue_count example_port) + length ?ms = 3"
    by (simp_all add: port_contents_def port_ring_def example_port_def)
  have n: "unat (queue_count example_port) + length ?ms \<le> unat (queue_size example_port)"
    by (simp add: example_port_def)
  have pl: "msg_payload hello_msg = (7, [1, 2], [])" "msg_payload blank_msg = (0, [], [])"
    by (simp_all add: msg_payload_def hello_msg_def blank_msg_def)
  from port_queue_fifo [OF example_port_wf v n] show ?thesis
    unfolding e by (simp only: list.map append_Nil map_prod_simp id_apply pl) (elim exE conjE, intro exI conjI)
qed

text \<open>
  Growing a full ring loses nothing: whatever memory the allocator hands out, growing either fails and
  leaves the port as it was, or doubles the capacity with the queued messages and their senders in
  the same order.
\<close>
lemma port_grow_keeps_messages:
  assumes "port_wf p" and "queue_mem_ok mem p"
  shows "\<exists>p' r. port_grow_queue mem p = Some (p', r) \<and> port_wf p' \<and> port_contents p' = port_contents p \<and>
    (r = - 1 \<and> p' = p \<or> r = 0 \<and> unat (queue_size p') = 2 * unat (queue_size p))"
  using port_grow_correct [OF assms] by blast

lemma port_grow_keeps_messages_witness:
  "\<exists>p' r. port_grow_queue \<lparr>qm_queue = Some (replicate 32 blank_msg), qm_senders = Some (replicate 32 9)\<rparr> example_port = Some (p', r) \<and>
    port_contents p' = port_contents example_port"
proof -
  have "queue_mem_ok \<lparr>qm_queue = Some (replicate 32 blank_msg), qm_senders = Some (replicate 32 9)\<rparr> example_port"
    by (simp add: queue_mem_ok_def grown_size_def example_port_def list_all_iff)
  from port_grow_keeps_messages [OF example_port_wf this] show ?thesis by blast
qed

end
