(* ===== verification/IoChannel.thy ===== *)
theory IoChannel
  imports Ports
begin

unbundle bit_operations_syntax

text \<open>
  I/O channels of \<^verbatim>\<open>mk/vm/io_channel.c\<close>: request rings through which the kernel hands I/O work to
  user-level drivers.  The state is the list of created channels (at most 8; the C counter
  \<^verbatim>\<open>channel_count\<close> is its length) and the calls made to the scheduler.

  \<^verbatim>\<open>io_channel_request\<close> blocks in the middle: it is modelled by \<open>io_channel_submit\<close>, which runs up to the
  point where the thread parks, and \<open>io_channel_finish\<close>, one evaluation of the wait loop (\<open>None\<close> means
  that the thread waits on).  What other threads do in between are further operations.

  Arguments for code outside the component: the identifier of the calling thread, the result of
  \<^verbatim>\<open>copy_to_user\<close>, and which thread identifiers \<^verbatim>\<open>thread_find\<close> knows.
\<close>

record io_request =
  request_id :: u64
  opcode :: u32
  req_flags :: u32
  req_arg :: "u64 list"
  buf_phys :: u64
  buf_size :: u64

record io_entry =
  req :: io_request
  completed :: bool
  io_result :: int
  waiting_tid :: u32

record io_channel =
  ch_name :: string
  ch_queue :: "io_entry list"
  ch_head :: nat
  ch_tail :: nat
  ch_count :: nat
  next_seq :: u64
  owner_pid :: int

record io_state =
  channels :: "io_channel list"
  io_events :: "sched_event list"

abbreviation IO_CHANNEL_MAX :: nat where "IO_CHANNEL_MAX \<equiv> 8"
abbreviation IO_CHANNEL_MAX_NAME :: nat where "IO_CHANNEL_MAX_NAME \<equiv> 48"
abbreviation IO_CHANNEL_QUEUE_DEPTH :: nat where "IO_CHANNEL_QUEUE_DEPTH \<equiv> 16"

definition zero_request :: io_request where
  "zero_request = \<lparr>request_id = 0, opcode = 0, req_flags = 0, req_arg = [0, 0, 0, 0], buf_phys = 0, buf_size = 0\<rparr>"

definition zero_io_entry :: io_entry where
  "zero_io_entry = \<lparr>req = zero_request, completed = False, io_result = 0, waiting_tid = 0\<rparr>"

section \<open>Creation and ownership\<close>

definition find_channel :: "string \<Rightarrow> io_state \<Rightarrow> nat option" where
  "find_channel name st = List.find (\<lambda>i. ch_name (channels st ! i) = name) [0..<length (channels st)]"

definition new_channel :: "string \<Rightarrow> io_channel" where
  "new_channel name = \<lparr>ch_name = take (IO_CHANNEL_MAX_NAME - 1) name,
     ch_queue = replicate IO_CHANNEL_QUEUE_DEPTH zero_io_entry, ch_head = 0, ch_tail = 0, ch_count = 0,
     next_seq = 1, owner_pid = 0\<rparr>"

definition io_channel_create :: "string \<Rightarrow> io_state \<Rightarrow> io_state \<times> int" where
  "io_channel_create name st =
     (if length (channels st) \<ge> IO_CHANNEL_MAX then (st, - 1)
      else case find_channel name st of
          Some i \<Rightarrow> (st, int i)
        | None \<Rightarrow> (st\<lparr>channels := channels st @ [new_channel name]\<rparr>, int (length (channels st))))"

definition handle_ok :: "int \<Rightarrow> io_state \<Rightarrow> bool" where
  "handle_ok handle st \<longleftrightarrow> \<not> (handle < 0 \<or> handle \<ge> int (length (channels st)))"

definition chan_at :: "int \<Rightarrow> io_state \<Rightarrow> io_channel" where
  "chan_at handle st = channels st ! nat handle"

definition set_chan :: "int \<Rightarrow> io_channel \<Rightarrow> io_state \<Rightarrow> io_state" where
  "set_chan handle ch st = st\<lparr>channels := (channels st)[nat handle := ch]\<rparr>"

definition io_channel_set_owner :: "int \<Rightarrow> int \<Rightarrow> io_state \<Rightarrow> io_state \<times> int" where
  "io_channel_set_owner handle pid st =
     (if \<not> handle_ok handle st \<or> pid \<le> 0 then (st, - 1)
      else if owner_pid (chan_at handle st) \<noteq> 0 then (st, - 1)
      else (set_chan handle ((chan_at handle st)\<lparr>owner_pid := pid\<rparr>) st, 0))"

definition io_channel_owner_ok :: "int \<Rightarrow> int \<Rightarrow> io_state \<Rightarrow> bool" where
  "io_channel_owner_ok handle pid st = (handle_ok handle st \<and> owner_pid (chan_at handle st) = pid)"

definition io_channel_lookup :: "string \<Rightarrow> io_state \<Rightarrow> int" where
  "io_channel_lookup name st = (case find_channel name st of Some i \<Rightarrow> int i | None \<Rightarrow> - 1)"

definition entry_grants :: "u64 \<Rightarrow> u64 \<Rightarrow> io_entry \<Rightarrow> bool" where
  "entry_grants phys sz e \<longleftrightarrow> \<not> (completed e \<or> buf_size (req e) = 0) \<and>
     (let start = buf_phys (req e); endp = start + buf_size (req e)
      in phys \<ge> start \<and> sz \<le> endp - phys \<and> phys + sz \<le> endp)"

definition io_channel_buf_owned :: "int \<Rightarrow> u64 \<Rightarrow> u64 \<Rightarrow> io_state \<Rightarrow> bool" where
  "io_channel_buf_owned pid phys sz st =
     (if pid \<le> 0 \<or> sz = 0 then False
      else list_ex (\<lambda>ch. owner_pid ch = pid \<and> list_ex (entry_grants phys sz) (ch_queue ch)) (channels st))"

definition io_channel_owned_by :: "int \<Rightarrow> io_state \<Rightarrow> nat" where
  "io_channel_owned_by pid st =
     (if pid \<le> 0 then 0 else length (filter (\<lambda>ch. owner_pid ch = pid) (channels st)))"

section \<open>Requests\<close>

definition chan_put :: "u32 \<Rightarrow> io_request \<Rightarrow> io_channel \<Rightarrow> io_channel option" where
  "chan_put tid r ch = do {
     q \<leftarrow> upd_opt (ch_queue ch) (ch_tail ch)
       \<lparr>req = r\<lparr>request_id := next_seq ch\<rparr>, completed = False, io_result = 0, waiting_tid = tid\<rparr>;
     Some (ch\<lparr>ch_queue := q, next_seq := next_seq ch + 1,
       ch_tail := (ch_tail ch + 1) mod IO_CHANNEL_QUEUE_DEPTH, ch_count := ch_count ch + 1\<rparr>)
   }"

definition io_channel_submit :: "u32 \<Rightarrow> int \<Rightarrow> io_request \<Rightarrow> io_state \<Rightarrow> (io_state \<times> (int + nat)) option" where
  "io_channel_submit tid handle r st =
     (if \<not> handle_ok handle st then Some (st, Inl (- 1))
      else if ch_count (chan_at handle st) \<ge> IO_CHANNEL_QUEUE_DEPTH then Some (st, Inl (- 1))
      else do {
        ch \<leftarrow> chan_put tid r (chan_at handle st);
        Some ((set_chan handle ch st)\<lparr>io_events := io_events st @ [BlockThread tid]\<rparr>, Inr (ch_tail (chan_at handle st)))
      })"

definition io_channel_finish :: "int \<Rightarrow> nat \<Rightarrow> io_state \<Rightarrow> (u64 \<times> int) option" where
  "io_channel_finish handle slot st = do {
     e \<leftarrow> nth_opt (ch_queue (chan_at handle st)) slot;
     if completed e then Some (request_id (req e), io_result e) else None
   }"

definition chan_take :: "io_channel \<Rightarrow> (io_request \<times> io_channel) option" where
  "chan_take ch = do {
     e \<leftarrow> nth_opt (ch_queue ch) (ch_head ch);
     Some (req e, ch\<lparr>ch_head := (ch_head ch + 1) mod IO_CHANNEL_QUEUE_DEPTH, ch_count := ch_count ch - 1\<rparr>)
   }"

definition io_channel_get_request :: "bool \<Rightarrow> int \<Rightarrow> io_state \<Rightarrow> (io_state \<times> int \<times> io_request option) option" where
  "io_channel_get_request copy_ok handle st =
     (if \<not> handle_ok handle st then Some (st, - 1, None)
      else if ch_count (chan_at handle st) = 0 then Some (st, 0, None)
      else do {
        (r, ch) \<leftarrow> chan_take (chan_at handle st);
        let st = set_chan handle ch st;
        if \<not> copy_ok then Some (st, - 1, None) else Some (st, 1, Some r)
      })"

definition find_pending :: "u64 \<Rightarrow> io_channel \<Rightarrow> nat option" where
  "find_pending rid ch = List.find (\<lambda>i. \<not> completed (ch_queue ch ! i) \<and> request_id (req (ch_queue ch ! i)) = rid)
     [0..<IO_CHANNEL_QUEUE_DEPTH]"

definition io_channel_complete :: "(u32 \<Rightarrow> bool) \<Rightarrow> int \<Rightarrow> u64 \<Rightarrow> int \<Rightarrow> io_state \<Rightarrow> io_state \<times> int" where
  "io_channel_complete thread_known handle rid result st =
     (if \<not> handle_ok handle st then (st, - 1)
      else let ch = chan_at handle st
        in case find_pending rid ch of
             None \<Rightarrow> (st, - 1)
           | Some i \<Rightarrow>
               let e = ch_queue ch ! i; wake_tid = waiting_tid e;
                   ch = ch\<lparr>ch_queue := (ch_queue ch)[i := e\<lparr>io_result := result, completed := True, waiting_tid := 0\<rparr>]\<rparr>;
                   st = set_chan handle ch st
               in (if wake_tid \<noteq> 0 \<and> thread_known wake_tid
                   then st\<lparr>io_events := io_events st @ [WakeThread wake_tid]\<rparr> else st, 0))"

definition io_channel_init :: "io_state \<Rightarrow> io_state" where
  "io_channel_init st = st\<lparr>channels := []\<rparr>"

section \<open>Well-formed channels\<close>

definition chan_wf :: "io_channel \<Rightarrow> bool" where
  "chan_wf ch \<longleftrightarrow> length (ch_queue ch) = IO_CHANNEL_QUEUE_DEPTH \<and> ch_head ch < IO_CHANNEL_QUEUE_DEPTH \<and>
     ch_count ch \<le> IO_CHANNEL_QUEUE_DEPTH \<and> ch_tail ch = (ch_head ch + ch_count ch) mod IO_CHANNEL_QUEUE_DEPTH"

definition io_wf :: "io_state \<Rightarrow> bool" where
  "io_wf st \<longleftrightarrow> length (channels st) \<le> IO_CHANNEL_MAX \<and> list_all chan_wf (channels st)"

text \<open>The requests in a ring, oldest first, each with the number it was given.\<close>

definition chan_contents :: "io_channel \<Rightarrow> io_request list" where
  "chan_contents ch = map req (ring_contents (ch_queue ch) (ch_head ch) (ch_count ch))"

lemma chan_put_correct:
  assumes wf: "chan_wf ch" and c: "ch_count ch < IO_CHANNEL_QUEUE_DEPTH"
  shows "\<exists>ch'. chan_put tid r ch = Some ch' \<and> chan_wf ch' \<and> chan_contents ch' = chan_contents ch @ [r\<lparr>request_id := next_seq ch\<rparr>] \<and>
    next_seq ch' = next_seq ch + 1 \<and> owner_pid ch' = owner_pid ch \<and> ch_name ch' = ch_name ch"
proof -
  let ?e = "\<lparr>req = r\<lparr>request_id := next_seq ch\<rparr>, completed = False, io_result = 0, waiting_tid = tid\<rparr>"
  have "ring_contents ((ch_queue ch)[(ch_head ch + ch_count ch) mod length (ch_queue ch) := ?e]) (ch_head ch) (Suc (ch_count ch)) =
      ring_contents (ch_queue ch) (ch_head ch) (ch_count ch) @ [?e]"
    by (rule ring_contents_snoc) (use wf c in \<open>simp add: chan_wf_def\<close>)
  moreover have "ch_tail ch < length (ch_queue ch)" "ch_tail ch = (ch_head ch + ch_count ch) mod length (ch_queue ch)"
    using wf by (simp_all add: chan_wf_def)
  ultimately show ?thesis
    using wf c by (simp add: chan_put_def chan_contents_def chan_wf_def mod_Suc_eq)
qed

lemma chan_take_correct:
  assumes wf: "chan_wf ch" and c: "0 < ch_count ch"
  shows "\<exists>r ch'. chan_take ch = Some (r, ch') \<and> chan_wf ch' \<and> chan_contents ch = r # chan_contents ch' \<and>
    owner_pid ch' = owner_pid ch \<and> ch_name ch' = ch_name ch \<and> ch_queue ch' = ch_queue ch"
proof -
  let ?ch = "ch\<lparr>ch_head := Suc (ch_head ch) mod IO_CHANNEL_QUEUE_DEPTH, ch_count := ch_count ch - 1\<rparr>"
  let ?R = "ring_contents (ch_queue ch) (ch_head ch) (ch_count ch)"
  have len: "length (ch_queue ch) = IO_CHANNEL_QUEUE_DEPTH" "ch_head ch < IO_CHANNEL_QUEUE_DEPTH"
    using wf by (simp_all add: chan_wf_def)
  have "?R \<noteq> []" using c by (metis length_0_conv length_ring_contents not_gr_zero)
  then have "?R = ch_queue ch ! ch_head ch # ring_contents (ch_queue ch) (Suc (ch_head ch) mod IO_CHANNEL_QUEUE_DEPTH) (ch_count ch - 1)"
    using ring_contents_tl [OF c, of "ch_queue ch" "ch_head ch"] ring_contents_hd [OF c, of "ch_head ch" "ch_queue ch"] len
    by (metis hd_Cons_tl)
  moreover have "chan_wf ?ch"
    using wf c ring_tail_step [OF c, of "ch_head ch" IO_CHANNEL_QUEUE_DEPTH] by (auto simp: chan_wf_def)
  ultimately show ?thesis using len by (auto simp: chan_take_def chan_contents_def)
qed

lemma length_chan_contents: "length (chan_contents ch) = ch_count ch"
  by (simp add: chan_contents_def)

section \<open>Runs of the channel operations\<close>

inductive io_step :: "io_state \<Rightarrow> io_state \<Rightarrow> bool" where
  step_create: "io_step st (fst (io_channel_create name st))"
| step_own: "io_step st (fst (io_channel_set_owner handle pid st))"
| step_submit: "io_channel_submit tid handle r st = Some (st', x) \<Longrightarrow> io_step st st'"
| step_get: "io_channel_get_request copy_ok handle st = Some (st', x) \<Longrightarrow> io_step st st'"
| step_complete: "io_step st (fst (io_channel_complete known handle rid result st))"

definition owners_kept :: "io_state \<Rightarrow> io_state \<Rightarrow> bool" where
  "owners_kept st st' \<longleftrightarrow> length (channels st) \<le> length (channels st') \<and>
     (\<forall>i<length (channels st). ch_name (channels st' ! i) = ch_name (channels st ! i)) \<and>
     (\<forall>i<length (channels st). owner_pid (channels st ! i) \<noteq> 0 \<longrightarrow> owner_pid (channels st' ! i) = owner_pid (channels st ! i))"

lemma owners_kept_refl [simp]: "owners_kept st st"
  by (simp add: owners_kept_def)

lemma owners_kept_trans: "owners_kept st st' \<Longrightarrow> owners_kept st' st'' \<Longrightarrow> owners_kept st st''"
  by (auto simp: owners_kept_def)

lemma handle_okD: "handle_ok handle st \<Longrightarrow> nat handle < length (channels st)"
  by (auto simp: handle_ok_def)

lemma chan_at_wf: "io_wf st \<Longrightarrow> handle_ok handle st \<Longrightarrow> chan_wf (chan_at handle st)"
  by (auto simp: io_wf_def chan_at_def list_all_length dest: handle_okD)

lemma set_chan_ok:
  assumes "io_wf st" and "handle_ok handle st" and "chan_wf ch"
    and "owner_pid (chan_at handle st) \<noteq> 0 \<longrightarrow> owner_pid ch = owner_pid (chan_at handle st)"
    and "ch_name ch = ch_name (chan_at handle st)" and "channels st' = (channels st)[nat handle := ch]"
  shows "io_wf st' \<and> owners_kept st st'"
  using assms handle_okD [OF assms(2)]
  by (auto simp: io_wf_def owners_kept_def chan_at_def list_all_length nth_list_update)

lemma channels_set_chan [simp]: "channels (set_chan h ch st) = (channels st)[nat h := ch]"
  by (simp add: set_chan_def)

lemma io_submit_ok:
  assumes wf: "io_wf st"
  shows "\<exists>st' x. io_channel_submit tid handle r st = Some (st', x) \<and> io_wf st' \<and> owners_kept st st'"
proof (cases "handle_ok handle st \<and> ch_count (chan_at handle st) < IO_CHANNEL_QUEUE_DEPTH")
  case True
  then obtain ch where ch: "chan_put tid r (chan_at handle st) = Some ch" "chan_wf ch" "owner_pid ch = owner_pid (chan_at handle st)"
      "ch_name ch = ch_name (chan_at handle st)"
    using chan_put_correct [OF chan_at_wf [OF wf], of handle tid r] by blast
  then show ?thesis
    using True set_chan_ok [OF wf _ ch(2), of handle "(set_chan handle ch st)\<lparr>io_events := io_events st @ [BlockThread tid]\<rparr>"]
    by (simp add: io_channel_submit_def)
qed (use wf in \<open>auto simp: io_channel_submit_def\<close>)

lemma io_get_ok:
  assumes wf: "io_wf st"
  shows "\<exists>st' x. io_channel_get_request copy_ok handle st = Some (st', x) \<and> io_wf st' \<and> owners_kept st st'"
proof (cases "handle_ok handle st \<and> 0 < ch_count (chan_at handle st)")
  case True
  then obtain r ch where ch: "chan_take (chan_at handle st) = Some (r, ch)" "chan_wf ch" "owner_pid ch = owner_pid (chan_at handle st)"
      "ch_name ch = ch_name (chan_at handle st)"
    using chan_take_correct [OF chan_at_wf [OF wf], of handle] by blast
  then show ?thesis
    using True set_chan_ok [OF wf _ ch(2), of handle "set_chan handle ch st"]
    by (auto simp: io_channel_get_request_def Let_def)
qed (use wf in \<open>auto simp: io_channel_get_request_def\<close>)

lemma new_channel_wf: "chan_wf (new_channel name)"
  by (simp add: chan_wf_def new_channel_def)

lemma io_create_ok:
  assumes "io_wf st"
  shows "io_wf (fst (io_channel_create name st)) \<and> owners_kept st (fst (io_channel_create name st))"
  using assms new_channel_wf [of name]
  by (auto simp: io_channel_create_def io_wf_def owners_kept_def nth_append split: option.splits)

lemma io_own_ok:
  assumes wf: "io_wf st"
  shows "io_wf (fst (io_channel_set_owner handle pid st)) \<and> owners_kept st (fst (io_channel_set_owner handle pid st))"
proof (cases "handle_ok handle st \<and> owner_pid (chan_at handle st) = 0")
  case True
  let ?ch = "(chan_at handle st)\<lparr>owner_pid := pid\<rparr>"
  have "chan_wf ?ch" using chan_at_wf [OF wf] True by (simp add: chan_wf_def)
  then show ?thesis
    using True wf set_chan_ok [OF wf, of handle ?ch "set_chan handle ?ch st"] by (auto simp: io_channel_set_owner_def)
qed (use wf in \<open>auto simp: io_channel_set_owner_def\<close>)

lemma io_complete_ok:
  assumes wf: "io_wf st"
  shows "io_wf (fst (io_channel_complete known handle rid result st)) \<and>
    owners_kept st (fst (io_channel_complete known handle rid result st))"
proof (cases "handle_ok handle st")
  case True
  show ?thesis
  proof (cases "find_pending rid (chan_at handle st)")
    case (Some i)
    let ?ch = "(chan_at handle st)\<lparr>ch_queue := (ch_queue (chan_at handle st))[i :=
      (ch_queue (chan_at handle st) ! i)\<lparr>io_result := result, completed := True, waiting_tid := 0\<rparr>]\<rparr>"
    have "chan_wf ?ch" using chan_at_wf [OF wf True] by (simp add: chan_wf_def)
    then show ?thesis
      using True Some set_chan_ok [OF wf True, of ?ch "fst (io_channel_complete known handle rid result st)"]
      by (simp add: io_channel_complete_def Let_def)
  qed (use wf True in \<open>simp add: io_channel_complete_def\<close>)
qed (use wf in \<open>simp add: io_channel_complete_def\<close>)

lemma io_step_ok:
  assumes "io_step st st'" and "io_wf st"
  shows "io_wf st' \<and> owners_kept st st'"
  using assms
proof (induction rule: io_step.induct)
  case (step_submit tid handle r st st' x)
  then show ?case using io_submit_ok [OF step_submit.prems, of tid handle r] by auto
next
  case (step_get copy_ok handle st st' x)
  then show ?case using io_get_ok [OF step_get.prems, of copy_ok handle] by auto
qed (use io_create_ok io_own_ok io_complete_ok in blast)+

lemma io_run_ok:
  assumes "io_step\<^sup>*\<^sup>* st st'" and "io_wf st"
  shows "io_wf st' \<and> owners_kept st st'"
  using assms
proof (induction rule: rtranclp_induct)
  case (step st1 st2)
  then show ?case using io_step_ok [of st1 st2] owners_kept_trans by blast
qed simp

section \<open>A burst of requests\<close>

text \<open>
  A submission that is accepted, and a fetch that delivers a request; both are \<open>None\<close> otherwise.  The
  requests of a burst get consecutive numbers.
\<close>

definition submitted :: "int \<Rightarrow> u32 \<times> io_request \<Rightarrow> io_state \<Rightarrow> io_state option" where
  "submitted handle x st = (case io_channel_submit (fst x) handle (snd x) st of Some (st', Inr _) \<Rightarrow> Some st' | _ \<Rightarrow> None)"

definition fetched :: "int \<Rightarrow> io_state \<Rightarrow> (io_request \<times> io_state) option" where
  "fetched handle st = (case io_channel_get_request True handle st of Some (st', _, Some r) \<Rightarrow> Some (r, st') | _ \<Rightarrow> None)"

fun numbered :: "u64 \<Rightarrow> io_request list \<Rightarrow> io_request list" where
  "numbered n [] = []"
| "numbered n (r # rs) = r\<lparr>request_id := n\<rparr> # numbered (n + 1) rs"

abbreviation queued :: "int \<Rightarrow> io_state \<Rightarrow> io_request list" where
  "queued handle st \<equiv> chan_contents (chan_at handle st)"

definition chan_ready :: "int \<Rightarrow> io_state \<Rightarrow> bool" where
  "chan_ready handle st \<longleftrightarrow> io_wf st \<and> handle_ok handle st"

lemma chan_set:
  assumes "handle_ok handle st" and "channels st' = (channels st)[nat handle := ch]"
  shows "chan_at handle st' = ch" and "handle_ok handle st'"
  using assms handle_okD [OF assms(1)] by (auto simp: chan_at_def handle_ok_def)

lemma submitted_correct:
  assumes ready: "chan_ready handle st" and room: "length (queued handle st) < IO_CHANNEL_QUEUE_DEPTH"
  shows "\<exists>st'. submitted handle x st = Some st' \<and> chan_ready handle st' \<and>
    queued handle st' = queued handle st @ [(snd x)\<lparr>request_id := next_seq (chan_at handle st)\<rparr>] \<and>
    next_seq (chan_at handle st') = next_seq (chan_at handle st) + 1"
proof -
  have wf: "io_wf st" and h: "handle_ok handle st" using ready by (auto simp: chan_ready_def)
  have c: "ch_count (chan_at handle st) < IO_CHANNEL_QUEUE_DEPTH" using room by (simp add: length_chan_contents)
  obtain ch where ch: "chan_put (fst x) (snd x) (chan_at handle st) = Some ch"
    "chan_contents ch = queued handle st @ [(snd x)\<lparr>request_id := next_seq (chan_at handle st)\<rparr>]"
    "next_seq ch = next_seq (chan_at handle st) + 1"
    using chan_put_correct [OF chan_at_wf [OF wf h] c, of "fst x" "snd x"] by blast
  let ?st = "(set_chan handle ch st)\<lparr>io_events := io_events st @ [BlockThread (fst x)]\<rparr>"
  have s: "io_channel_submit (fst x) handle (snd x) st = Some (?st, Inr (ch_tail (chan_at handle st)))"
    using h c ch(1) by (simp add: io_channel_submit_def)
  then have "io_wf ?st" using io_submit_ok [OF wf, of "fst x" handle "snd x"] by auto
  then show ?thesis using s ch chan_set [OF h, of ?st ch] by (simp add: submitted_def chan_ready_def)
qed

lemma submit_burst:
  assumes "chan_ready handle st" and "length (queued handle st) + length xs \<le> IO_CHANNEL_QUEUE_DEPTH"
  shows "\<exists>st'. foldM (submitted handle) xs st = Some st' \<and> chan_ready handle st' \<and>
    queued handle st' = queued handle st @ numbered (next_seq (chan_at handle st)) (map snd xs)"
  using assms
proof (induction xs arbitrary: st)
  case (Cons x xs)
  obtain st1 where st1: "submitted handle x st = Some st1" "chan_ready handle st1"
    "queued handle st1 = queued handle st @ [(snd x)\<lparr>request_id := next_seq (chan_at handle st)\<rparr>]"
    "next_seq (chan_at handle st1) = next_seq (chan_at handle st) + 1"
    using submitted_correct [OF Cons.prems(1), of x] Cons.prems(2) by auto
  then show ?case using Cons.IH [OF st1(2)] Cons.prems(2) by simp
qed simp

text \<open>Fetching is the consumer's side of the queue contract, on every channel.\<close>

interpretation rq: drain "chan_ready handle" "queued handle" "\<lambda>_. IO_CHANNEL_QUEUE_DEPTH" "\<lambda>r. r" "fetched handle"
  for handle
proof unfold_locales
  fix st :: io_state
  assume ready: "chan_ready handle st" and ne: "queued handle st \<noteq> []"
  have wf: "io_wf st" and h: "handle_ok handle st" using ready by (auto simp: chan_ready_def)
  have c: "0 < ch_count (chan_at handle st)" using ne by (simp add: length_chan_contents [symmetric])
  obtain r ch where ch: "chan_take (chan_at handle st) = Some (r, ch)" "queued handle st = r # chan_contents ch"
    using chan_take_correct [OF chan_at_wf [OF wf h] c] by blast
  have g: "io_channel_get_request True handle st = Some (set_chan handle ch st, 1, Some r)"
    using h c ch(1) by (simp add: io_channel_get_request_def Let_def)
  then have "io_wf (set_chan handle ch st)" using io_get_ok [OF wf, of True handle] by auto
  then show "\<exists>y st'. fetched handle st = Some (y, st') \<and> chan_ready handle st' \<and>
      queued handle st = y # queued handle st' \<and> IO_CHANNEL_QUEUE_DEPTH = IO_CHANNEL_QUEUE_DEPTH"
    using g ch(2) chan_set [OF h, of "set_chan handle ch st" ch] by (simp add: fetched_def chan_ready_def)
qed

section \<open>Examples\<close>

definition boot_io :: io_state where
  "boot_io = \<lparr>channels = [], io_events = []\<rparr>"

definition disk_io :: io_state where
  "disk_io = fst (io_channel_set_owner 0 42 (fst (io_channel_create ''ahci0'' boot_io)))"

definition read_req :: "u64 \<Rightarrow> io_request" where
  "read_req p = \<lparr>request_id = 0, opcode = 1, req_flags = 1, req_arg = [7, 0, 0, 0], buf_phys = p, buf_size = 0x1000\<rparr>"

definition busy_io :: io_state where
  "busy_io = fst (the (io_channel_submit 9 0 (read_req 0x10000) disk_io))"

definition flood_io :: io_state where
  "flood_io = (let fill = foldM (\<lambda>i st. map_option fst (io_channel_submit (of_nat i + 1) 0 (read_req 0x10000) st)) [0..<16] disk_io;
      drained = Option.bind fill (foldM (\<lambda>i st. map_option fst (io_channel_get_request True 0 st)) [0..<16])
    in the (Option.bind drained (\<lambda>st. map_option fst (io_channel_submit 99 0 (read_req 0x10000) st))))"

lemma disk_io_wf: "io_wf disk_io"
  by code_simp

lemma busy_io_wf: "io_wf busy_io"
  by code_simp

section \<open>Properties\<close>

text \<open>
  C37. In a well-formed state, a burst of requests that fits the ring of a channel is accepted request by
  request, and the driver's fetches then deliver first the requests that were queued before and then the
  submitted ones, in the order of submission.  Each submitted request arrives with its opcode, flags,
  arguments and buffer unchanged and with the channel's next sequence number as its identifier, counting up
  by one (modulo 2 to the power 64) from request to request.  After that the channel reports that it is empty.
\<close>
theorem io_channel_fifo:
  assumes wf: "io_wf st" "handle_ok handle st"
    and room: "length (queued handle st) + length xs \<le> IO_CHANNEL_QUEUE_DEPTH"
  shows "\<exists>st1 st2. foldM (submitted handle) xs st = Some st1 \<and>
    deq_many (fetched handle) (length (queued handle st) + length xs) st1 =
      Some (queued handle st @ numbered (next_seq (chan_at handle st)) (map snd xs), st2) \<and>
    io_wf st2 \<and> io_channel_get_request True handle st2 = Some (st2, 0, None)"
proof -
  let ?q = "queued handle st @ numbered (next_seq (chan_at handle st)) (map snd xs)"
  have "length (numbered n rs) = length rs" for n rs by (induction n rs rule: numbered.induct) simp_all
  then have len: "length ?q = length (queued handle st) + length xs" by simp
  obtain st1 where st1: "foldM (submitted handle) xs st = Some st1" "chan_ready handle st1" "queued handle st1 = ?q @ []"
    using submit_burst [of handle st xs] wf room by (auto simp: chan_ready_def)
  obtain st2 where st2: "deq_many (fetched handle) (length ?q) st1 = Some (?q, st2)" "chan_ready handle st2" "queued handle st2 = []"
    using rq.deq_all [OF st1(2,3)] by auto
  have "ch_count (chan_at handle st2) = 0" using st2(3) length_chan_contents [of "chan_at handle st2"] by simp
  then show ?thesis using st1(1) st2 len by (auto simp: chan_ready_def io_channel_get_request_def)
qed

theorem io_channel_fifo_witness:
  "\<exists>st1 st2. foldM (submitted 0) [(5, read_req 0x1000), (6, read_req 0x2000)] busy_io = Some st1 \<and>
    deq_many (fetched 0) 3 st1 = Some ([(read_req 0x10000)\<lparr>request_id := 1\<rparr>, (read_req 0x1000)\<lparr>request_id := 2\<rparr>,
      (read_req 0x2000)\<lparr>request_id := 3\<rparr>], st2) \<and>
    io_channel_get_request True 0 st2 = Some (st2, 0, None)"
proof -
  have "handle_ok 0 busy_io" "next_seq (chan_at 0 busy_io) = 2" "queued 0 busy_io = [(read_req 0x10000)\<lparr>request_id := 1\<rparr>]"
    by code_simp+
  then show ?thesis
    using io_channel_fifo [OF busy_io_wf, of 0 "[(5, read_req 0x1000), (6, read_req 0x2000)]"]
    by (simp del: deq_many.simps foldM.simps add: numeral_3_eq_3) (elim exE conjE, intro exI conjI, assumption+)
qed

text \<open>
  C38. Whatever sequence of channel operations runs from a well-formed state, every channel keeps its place
  and its name, a channel that has an owner keeps it, and the rings stay well formed; so every later
  submission and fetch is defined.
\<close>
theorem io_owner_stable:
  assumes "io_step\<^sup>*\<^sup>* st st'" and "io_wf st"
  shows "io_wf st' \<and> owners_kept st st' \<and>
    (\<forall>tid handle r. io_channel_submit tid handle r st' \<noteq> None) \<and> (\<forall>ok handle. io_channel_get_request ok handle st' \<noteq> None)"
proof -
  have wf: "io_wf st'" "owners_kept st st'" using io_run_ok [OF assms] by auto
  then show ?thesis
    by (metis io_get_ok [OF wf(1)] io_submit_ok [OF wf(1)] option.distinct(1))
qed

theorem io_owner_stable_witness:
  "io_wf busy_io \<and> owners_kept disk_io busy_io \<and> owner_pid (channels busy_io ! 0) = 42 \<and> ch_name (channels busy_io ! 0) = ''ahci0''"
proof -
  obtain st' x where st': "io_channel_submit 9 0 (read_req 0x10000) disk_io = Some (st', x)"
    using io_submit_ok [OF disk_io_wf] by blast
  then have "io_step\<^sup>*\<^sup>* disk_io busy_io"
    using io_step.step_submit [OF st'] by (simp add: busy_io_def)
  from io_owner_stable [OF this disk_io_wf] have k: "io_wf busy_io" "owners_kept disk_io busy_io" by auto
  moreover have "owner_pid (channels disk_io ! 0) = 42 \<and> 0 < length (channels disk_io) \<and> ch_name (channels disk_io ! 0) = ''ahci0''"
    by code_simp
  ultimately show ?thesis by (auto simp: owners_kept_def)
qed

text \<open>
  C40. For ranges that do not wrap around the end of the address space, a process may map a physical
  range exactly when it lies inside the buffer of a pending request of a channel the process owns.
\<close>
theorem io_buf_owned_exact:
  assumes range: "\<not> phys + sz < phys"
    and bufs: "\<forall>ch\<in>set (channels st). \<forall>e\<in>set (ch_queue ch). \<not> buf_phys (req e) + buf_size (req e) < buf_phys (req e)"
  shows "io_channel_buf_owned pid phys sz st \<longleftrightarrow> pid > 0 \<and> sz \<noteq> 0 \<and>
    (\<exists>ch\<in>set (channels st). owner_pid ch = pid \<and> (\<exists>e\<in>set (ch_queue ch). \<not> completed e \<and>
       {unat phys..<unat phys + unat sz} \<subseteq> {unat (buf_phys (req e))..<unat (buf_phys (req e)) + unat (buf_size (req e))}))"
proof (cases "pid > 0 \<and> sz \<noteq> 0")
  case True
  then have s: "0 < unat sz" by (simp add: unat_gt_0)
  have "entry_grants phys sz e \<longleftrightarrow> \<not> completed e \<and>
      {unat phys..<unat phys + unat sz} \<subseteq> {unat (buf_phys (req e))..<unat (buf_phys (req e)) + unat (buf_size (req e))}"
    if "ch \<in> set (channels st)" "e \<in> set (ch_queue ch)" for ch e
  proof -
    let ?s = "buf_phys (req e)" and ?n = "buf_size (req e)"
    have b: "unat ?s + unat ?n < 2 ^ 64" "unat phys + unat sz < 2 ^ 64"
      using bufs that range by (auto simp: word_add_overflow_iff not_le)
    have u: "unat (?s + ?n) = unat ?s + unat ?n" "unat (phys + sz) = unat phys + unat sz"
      using b by (simp_all add: unat_add_less)
    have "?s \<le> phys \<and> sz \<le> ?s + ?n - phys \<and> phys + sz \<le> ?s + ?n \<longleftrightarrow>
        unat ?s \<le> unat phys \<and> unat phys + unat sz \<le> unat ?s + unat ?n"
    proof
      assume a: "unat ?s \<le> unat phys \<and> unat phys + unat sz \<le> unat ?s + unat ?n"
      then have "unat (?s + ?n - phys) = unat ?s + unat ?n - unat phys"
        using u(1) by (simp add: unat_sub_if' )
      then show "?s \<le> phys \<and> sz \<le> ?s + ?n - phys \<and> phys + sz \<le> ?s + ?n"
        using a u unfolding word_le_nat_alt by linarith
    qed (use u in \<open>simp add: word_le_nat_alt\<close>)
    moreover have "?n \<noteq> 0" if "unat ?s \<le> unat phys \<and> unat phys + unat sz \<le> unat ?s + unat ?n"
      using that s by auto
    ultimately show ?thesis
      using s by (auto simp: entry_grants_def Let_def)
  qed
  then show ?thesis using True by (auto simp: io_channel_buf_owned_def list_ex_iff)
qed (auto simp: io_channel_buf_owned_def)

theorem io_buf_owned_exact_witness:
  "\<exists>ch\<in>set (channels busy_io). owner_pid ch = 42 \<and> (\<exists>e\<in>set (ch_queue ch). \<not> completed e \<and>
     {0x10800..<0x11000} \<subseteq> {unat (buf_phys (req e))..<unat (buf_phys (req e)) + unat (buf_size (req e))})"
proof -
  have b: "\<forall>ch\<in>set (channels busy_io). \<forall>e\<in>set (ch_queue ch). \<not> buf_phys (req e) + buf_size (req e) < buf_phys (req e)"
    by code_simp
  moreover have "io_channel_buf_owned 42 0x10800 0x800 busy_io" by code_simp
  ultimately show ?thesis
    using io_buf_owned_exact [OF _ b, of "0x10800" "0x800" 42] by simp
qed

text \<open>
  The test does not exclude ranges that wrap around: with a pending buffer at 0x10000 a process is
  granted a range that starts behind the buffer and covers almost the whole address space.
\<close>
lemma io_buf_owned_wraps:
  "io_channel_buf_owned 42 0x20000 (0x11000 - 0x20000) busy_io \<and> (0x11000 - 0x20000 :: u64) = 0xFFFFFFFFFFFF1000"
  by code_simp



text \<open>
  A slot becomes free for the next submission when the driver fetches the request, not when it
  completes it.  After sixteen requests have been fetched and none completed, the seventeenth
  overwrites the entry of the first: the first request can no longer be completed, and its waiter
  gets the result of the seventeenth.
\<close>
lemma io_slot_reused_before_completion:
  "snd (io_channel_complete (\<lambda>_. True) 0 1 0 flood_io) = - 1 \<and>
   io_channel_finish 0 0 (fst (io_channel_complete (\<lambda>_. True) 0 17 (- 7) flood_io)) = Some (17, - 7)"
  by code_simp

text \<open>
  Entries that were never used have number 0 and count as pending: completing request 0 on a
  fresh channel succeeds although no request was submitted.
\<close>
lemma io_complete_unused_entry:
  "snd (io_channel_complete (\<lambda>_. True) 0 0 0 disk_io) = 0"
  by code_simp

end
