(* ===== verification/Cspace.thy ===== *)
theory Cspace
  imports Bitmaps Ports
begin

unbundle bit_operations_syntax

text \<open>
  Capability spaces of \<^verbatim>\<open>mk/vm/cspace.c\<close> and the handle encoding of \<^verbatim>\<open>mk/include/task.h\<close>.  A
  capability space is a growable slot array with a bitmap of allocated slots in 32-bit words; slot 0
  is never handed out.  The pointers to the two arrays are \<open>None\<close> when the code has them NULL.
  The memory \<^verbatim>\<open>kmalloc\<close> returns when a space is created or grows, with its uninitialised contents, is
  the argument \<open>cspace_mem\<close>.

  A capability space embedded in a task is never NULL, so the NULL checks on the space itself have no
  counterpart.
\<close>

record cslot =
  object_id :: u64
  cap_type :: u32
  rights :: u32
  in_use :: int

record cspace =
  slots :: "cslot list option"
  free_bitmap :: "u32 list option"
  max_slots :: int
  bitmap_words :: u32

record cspace_mem =
  cm_slots :: "cslot list option"
  cm_bitmap :: "u32 list option"

abbreviation CSPACE_DEFAULT_SLOTS :: int where "CSPACE_DEFAULT_SLOTS \<equiv> 256"
abbreviation CSPACE_MAX_SLOTS :: int where "CSPACE_MAX_SLOTS \<equiv> 65536"

abbreviation CAP_PORT :: u32 where "CAP_PORT \<equiv> 1"
abbreviation CAP_MEMORY :: u32 where "CAP_MEMORY \<equiv> 2"
abbreviation CAP_THREAD :: u32 where "CAP_THREAD \<equiv> 3"
abbreviation CAP_SEND :: u32 where "CAP_SEND \<equiv> 1"
abbreviation CAP_RECV :: u32 where "CAP_RECV \<equiv> 2"
abbreviation CAP_REPLY :: u32 where "CAP_REPLY \<equiv> 4"
abbreviation CAP_READ :: u32 where "CAP_READ \<equiv> 8"
abbreviation CAP_WRITE :: u32 where "CAP_WRITE \<equiv> 16"
abbreviation CAP_EXEC :: u32 where "CAP_EXEC \<equiv> 32"

section \<open>Handles\<close>

definition task_make_handle :: "u32 \<Rightarrow> int \<Rightarrow> u64" where
  "task_make_handle task_id slot = push_bit 32 (ucast task_id) OR ucast (word_of_int slot AND (0x7FFFFFFF :: u32))"

definition handle_task_id :: "u64 \<Rightarrow> u32" where
  "handle_task_id handle = ucast (drop_bit 32 handle)"

definition handle_slot :: "u64 \<Rightarrow> int" where
  "handle_slot handle = uint (handle AND 0x7FFFFFFF)"

lemma handle_bits:
  "bit (task_make_handle t slot) n \<longleftrightarrow> n < 64 \<and> (if n < 31 then bit (word_of_int slot :: u32) n else 32 \<le> n \<and> bit t (n - 32))"
proof -
  have m: "(0x7FFFFFFF :: u32) = mask 31" by (simp add: mask_eq_exp_minus_1)
  show ?thesis
    unfolding task_make_handle_def m
    by (auto simp: bit_simps dest: bit_imp_le_length)
qed

lemma handle_task_id_make: "handle_task_id (task_make_handle t slot) = t"
  by (rule bit_word_eqI) (auto simp: handle_task_id_def bit_simps handle_bits dest: bit_imp_le_length)

lemma handle_slot_make:
  assumes "0 \<le> slot" and "slot < 2 ^ 31"
  shows "handle_slot (task_make_handle t slot) = slot"
proof -
  have m: "(0x7FFFFFFF :: u64) = mask 31" by (simp add: mask_eq_exp_minus_1)
  have "task_make_handle t slot AND mask 31 = (word_of_int (take_bit 31 slot) :: u64)"
    by (rule bit_word_eqI) (auto simp: bit_simps handle_bits)
  moreover have "take_bit 31 slot = slot" using assms by (simp add: take_bit_int_eq_self)
  ultimately have "task_make_handle t slot AND mask 31 = word_of_int slot" by simp
  then show ?thesis using assms by (simp add: handle_slot_def m unsigned_of_int take_bit_int_eq_self)
qed

section \<open>Slots\<close>

definition zero_slot :: cslot where
  "zero_slot = \<lparr>object_id = 0, cap_type = 0, rights = 0, in_use = 0\<rparr>"

definition cspace_init :: "cspace_mem \<Rightarrow> cspace \<Rightarrow> cspace \<times> int" where
  "cspace_init mem cs =
     (let cs = cs\<lparr>max_slots := CSPACE_DEFAULT_SLOTS, bitmap_words := 8, slots := cm_slots mem\<rparr>
      in case cm_slots mem of
        None \<Rightarrow> (cs\<lparr>max_slots := 0\<rparr>, - 1)
      | Some _ \<Rightarrow>
          (let cs = cs\<lparr>free_bitmap := cm_bitmap mem\<rparr>
           in case cm_bitmap mem of
             None \<Rightarrow> (cs\<lparr>slots := None, max_slots := 0\<rparr>, - 1)
           | Some _ \<Rightarrow>
               (cs\<lparr>slots := Some (replicate 256 zero_slot), free_bitmap := Some ((replicate 8 0)[0 := 1])\<rparr>, 0)))"

definition cspace_destroy :: "cspace \<Rightarrow> cspace" where
  "cspace_destroy cs = cs\<lparr>slots := None, free_bitmap := None, max_slots := 0, bitmap_words := 0\<rparr>"

definition array_of :: "'a list option \<Rightarrow> 'a list" where
  "array_of p = (case p of None \<Rightarrow> [] | Some xs \<Rightarrow> xs)"

definition cspace_grow :: "cspace_mem \<Rightarrow> cspace \<Rightarrow> (cspace \<times> int) option" where
  "cspace_grow mem cs =
     (let new_max = max_slots cs * 2; new_words = new_max div 32
      in if new_max > CSPACE_MAX_SLOTS then Some (cs, - 1)
         else case cm_slots mem of
           None \<Rightarrow> Some (cs, - 1)
         | Some new_slots \<Rightarrow> (case cm_bitmap mem of
             None \<Rightarrow> Some (cs, - 1)
           | Some new_bitmap \<Rightarrow> do {
               new_slots \<leftarrow> memcpy_prefix new_slots (array_of (slots cs)) (nat (max_slots cs));
               new_bitmap \<leftarrow> memcpy_prefix new_bitmap (array_of (free_bitmap cs)) (unat (bitmap_words cs));
               let new_bitmap = take (unat (bitmap_words cs)) new_bitmap @
                 replicate (nat (new_words - int (unat (bitmap_words cs)))) 0;
               Some (cs\<lparr>slots := Some new_slots, free_bitmap := Some new_bitmap,
                 max_slots := new_max, bitmap_words := word_of_int new_words\<rparr>, 0)
             }))"

fun bitmap_alloc_from :: "u32 list \<Rightarrow> nat \<Rightarrow> nat \<Rightarrow> (u32 list \<times> int) option" where
  "bitmap_alloc_from bm w 0 = Some (bm, - 1)"
| "bitmap_alloc_from bm w (Suc n) = do {
     x \<leftarrow> nth_opt bm w;
     if x = 0xFFFFFFFF then bitmap_alloc_from bm (Suc w) n
     else case List.find (\<lambda>b. x AND push_bit b 1 = 0) [0..<32] of
       Some b \<Rightarrow> do { bm \<leftarrow> upd_opt bm w (x OR push_bit b 1); Some (bm, int (w * 32 + b)) }
     | None \<Rightarrow> bitmap_alloc_from bm (Suc w) n
   }"

definition bitmap_alloc :: "u32 list \<Rightarrow> nat \<Rightarrow> (u32 list \<times> int) option" where
  "bitmap_alloc bm nwords = bitmap_alloc_from bm 0 nwords"

definition bitmap_free :: "u32 list \<Rightarrow> nat \<Rightarrow> u32 list option" where
  "bitmap_free bm slot = do {
     x \<leftarrow> nth_opt bm (slot div 32);
     upd_opt bm (slot div 32) (x AND NOT (push_bit (slot mod 32) 1))
   }"

definition cspace_bitmap_alloc :: "cspace \<Rightarrow> (cspace \<times> int) option" where
  "cspace_bitmap_alloc cs = do {
     (bm, slot) \<leftarrow> bitmap_alloc (array_of (free_bitmap cs)) (unat (bitmap_words cs));
     Some (if slot < 0 then cs else cs\<lparr>free_bitmap := Some bm\<rparr>, slot)
   }"

text \<open>Finding a slot, growing the space once if it is full.\<close>

definition cspace_find_slot :: "cspace_mem \<Rightarrow> cspace \<Rightarrow> (cspace \<times> int) option" where
  "cspace_find_slot mem cs = do {
     (cs, slot) \<leftarrow> cspace_bitmap_alloc cs;
     if slot < 0 then do {
       (cs, r) \<leftarrow> cspace_grow mem cs;
       if r < 0 then Some (cs, - 1) else cspace_bitmap_alloc cs
     }
     else Some (cs, slot)
   }"

definition write_slot :: "cspace \<Rightarrow> int \<Rightarrow> cslot \<Rightarrow> cspace option" where
  "write_slot cs slot c = do { sl \<leftarrow> upd_opt (array_of (slots cs)) (nat slot) c; Some (cs\<lparr>slots := Some sl\<rparr>) }"

definition cspace_alloc_slot :: "cspace_mem \<Rightarrow> u32 \<Rightarrow> u32 \<Rightarrow> u64 \<Rightarrow> cspace \<Rightarrow> (cspace \<times> int) option" where
  "cspace_alloc_slot mem ty rt obj cs = do {
     (cs, slot) \<leftarrow> cspace_find_slot mem cs;
     if slot < 0 then Some (cs, - 1)
     else do {
       cs \<leftarrow> write_slot cs slot \<lparr>object_id = obj, cap_type = ty, rights = rt, in_use = 1\<rparr>;
       Some (cs, slot)
     }
   }"

definition slot_in_range :: "cspace \<Rightarrow> int \<Rightarrow> bool" where
  "slot_in_range cs slot \<longleftrightarrow> \<not> (slot < 0 \<or> slots cs = None \<or> slot \<ge> max_slots cs)"

definition clear_slot :: "cspace \<Rightarrow> int \<Rightarrow> cspace option" where
  "clear_slot cs slot = do {
     cs \<leftarrow> write_slot cs slot zero_slot;
     bm \<leftarrow> bitmap_free (array_of (free_bitmap cs)) (nat slot);
     Some (cs\<lparr>free_bitmap := Some bm\<rparr>)
   }"

definition cspace_free_slot :: "cspace \<Rightarrow> int \<Rightarrow> 'a pstate_scheme \<Rightarrow> (cspace \<times> 'a pstate_scheme \<times> int) option" where
  "cspace_free_slot cs slot st =
     (if \<not> slot_in_range cs slot then Some (cs, st, - 1)
      else do {
        c \<leftarrow> nth_opt (array_of (slots cs)) (nat slot);
        if in_use c = 0 then Some (cs, st, - 1)
        else do {
          cs \<leftarrow> clear_slot cs slot;
          st \<leftarrow> (if cap_type c = CAP_PORT then port_release (object_id c) st else Some st);
          Some (cs, st, 0)
        }
      })"

definition cspace_lookup_snapshot :: "cspace \<Rightarrow> int \<Rightarrow> cslot option option" where
  "cspace_lookup_snapshot cs slot =
     (if \<not> slot_in_range cs slot then Some None
      else do {
        c \<leftarrow> nth_opt (array_of (slots cs)) (nat slot);
        if in_use c = 0 then Some None else Some (Some c)
      })"

text \<open>\<^verbatim>\<open>cspace_lookup\<close> returns a pointer into the slot array: here the slot index.\<close>

definition cspace_lookup :: "cspace \<Rightarrow> int \<Rightarrow> nat option option" where
  "cspace_lookup cs slot =
     (if \<not> slot_in_range cs slot then Some None
      else do {
        c \<leftarrow> nth_opt (array_of (slots cs)) (nat slot);
        if in_use c = 0 then Some None else Some (Some (nat slot))
      })"

definition cspace_move :: "cspace_mem \<Rightarrow> cspace \<Rightarrow> cspace \<Rightarrow> int \<Rightarrow> (cspace \<times> cspace \<times> int) option" where
  "cspace_move mem src dst slot =
     (if \<not> slot_in_range src slot then Some (src, dst, - 1)
      else do {
        c \<leftarrow> nth_opt (array_of (slots src)) (nat slot);
        if in_use c = 0 then Some (src, dst, - 1)
        else do {
          (dst, dst_slot) \<leftarrow> cspace_find_slot mem dst;
          if dst_slot < 0 then Some (src, dst, - 1)
          else do {
            dst \<leftarrow> write_slot dst dst_slot c;
            src \<leftarrow> clear_slot src slot;
            Some (src, dst, dst_slot)
          }
        }
      })"

section \<open>The word bitmap is a bitmap\<close>

definition word_test :: "u32 list \<Rightarrow> nat \<Rightarrow> bool option" where
  "word_test bm i = (if i < 32 * length bm then Some (bit_at bm i) else None)"

definition word_set :: "u32 list \<Rightarrow> nat \<Rightarrow> u32 list option" where
  "word_set bm i = do {
     x \<leftarrow> nth_opt bm (i div 32);
     upd_opt bm (i div 32) (x OR push_bit (i mod 32) 1)
   }"

lemma word_set_eq: "word_set bm i =
    (if i < 32 * length bm then Some (bm[i div 32 := bm ! (i div 32) OR push_bit (i mod 32) 1]) else None)"
  by (auto simp: word_set_def nth_opt_def upd_opt_def)

lemma bitmap_free_eq: "bitmap_free bm i =
    (if i < 32 * length bm then Some (bm[i div 32 := bm ! (i div 32) AND NOT (push_bit (i mod 32) 1)]) else None)"
  by (auto simp: bitmap_free_def nth_opt_def upd_opt_def)

interpretation cb: bitmap "\<lambda>bm. 32 * length bm" word_test word_set bitmap_free
proof unfold_locales
  fix bm bm' :: "u32 list" and i j :: nat
  show "word_test bm i \<noteq> None \<longleftrightarrow> i < 32 * length bm" by (simp add: word_test_def)
  show "word_set bm i \<noteq> None \<longleftrightarrow> i < 32 * length bm" by (simp add: word_set_eq)
  show "bitmap_free bm i \<noteq> None \<longleftrightarrow> i < 32 * length bm" by (simp add: bitmap_free_eq)
  show "word_test bm' j = (if j = i then Some True else word_test bm j)" if "word_set bm i = Some bm'"
    using that bit_at_or_push_bit [of i bm j]
    by (auto simp: word_set_eq word_test_def less_mult_imp_div_less mult.commute split: if_splits)
  show "word_test bm' j = (if j = i then Some False else word_test bm j)" if "bitmap_free bm i = Some bm'"
    using that bit_at_and_not_push_bit [of i bm j]
    by (auto simp: bitmap_free_eq word_test_def less_mult_imp_div_less mult.commute split: if_splits)
qed

lemma bit_at_block: "b < 32 \<Longrightarrow> bit_at bm (32 * w + b) \<longleftrightarrow> bit (bm ! w) b" for bm :: "u32 list"
  by (simp add: bit_at_def)

lemma find_block:
  fixes bm :: "u32 list"
  shows "List.find (\<lambda>i. \<not> bit_at bm i) [32 * w..<32 * w + 32] =
    map_option (\<lambda>b. 32 * w + b) (List.find (\<lambda>b. bm ! w AND push_bit b 1 = 0) [0..<32])"
proof (cases "List.find (\<lambda>b. bm ! w AND push_bit b 1 = 0) [0..<32]")
  case None
  then have full: "bit (bm ! w) b" if "b < 32" for b
    using that by (auto simp: find_upt_None_iff)
  have "bit_at bm j" if "32 * w \<le> j" "j < 32 * w + 32" for j
    using full [of "j - 32 * w"] bit_at_block [of "j - 32 * w" bm w] that by simp
  then have "List.find (\<lambda>i. \<not> bit_at bm i) [32 * w..<32 * w + 32] = None"
    by (simp add: find_upt_None_iff)
  then show ?thesis unfolding None by simp
next
  case (Some b)
  then have b: "b < 32" "\<not> bit (bm ! w) b" "\<And>c. c < b \<Longrightarrow> bit (bm ! w) c"
    by (auto simp: find_upt_Some_iff)
  have "bit_at bm j" if "32 * w \<le> j" "j < 32 * w + b" for j
    using b(3) [of "j - 32 * w"] b(1) bit_at_block [of "j - 32 * w" bm w] that by simp
  then have "List.find (\<lambda>i. \<not> bit_at bm i) [32 * w..<32 * w + 32] = Some (32 * w + b)"
    using b bit_at_block [of b bm w] by (auto simp: find_upt_Some_iff)
  then show ?thesis using Some by simp
qed

lemma find_append: "List.find P (xs @ ys) = (case List.find P xs of None \<Rightarrow> List.find P ys | Some x \<Rightarrow> Some x)"
  by (induction xs) auto

lemma find_full_word: "List.find (\<lambda>b. (0xFFFFFFFF :: u32) AND push_bit b 1 = 0) [0..<32] = None"
proof -
  have "bit (0xFFFFFFFF :: u32) b" if "b < 32" for b
    using that word_full_iff [of "0xFFFFFFFF :: u32"] by simp
  then show ?thesis by (auto simp: find_upt_None_iff)
qed

lemma bitmap_alloc_from_eq:
  "w + n \<le> length bm \<Longrightarrow> bitmap_alloc_from bm w n =
    (case List.find (\<lambda>i. \<not> bit_at bm i) [32 * w..<32 * (w + n)] of
       None \<Rightarrow> Some (bm, - 1)
     | Some i \<Rightarrow> map_option (\<lambda>bm. (bm, int i)) (word_set bm i))"
proof (induction n arbitrary: w)
  case (Suc n)
  have upt: "[32 * w..<32 * (w + Suc n)] = [32 * w..<32 * w + 32] @ [32 * Suc w..<32 * (Suc w + n)]"
    using upt_add_eq_append [of "32 * w" "32 * w + 32" "32 * n"] by (simp add: algebra_simps)
  have IH: "bitmap_alloc_from bm (Suc w) n = (case List.find (\<lambda>i. \<not> bit_at bm i) [32 * Suc w..<32 * (Suc w + n)] of
       None \<Rightarrow> Some (bm, - 1) | Some i \<Rightarrow> map_option (\<lambda>bm. (bm, int i)) (word_set bm i))"
    using Suc.IH [of "Suc w"] Suc.prems by simp
  show ?case
  proof (cases "List.find (\<lambda>b. bm ! w AND push_bit b 1 = 0) [0..<32]")
    case None
    then show ?thesis
      using Suc.prems IH unfolding upt find_append find_block by simp
  next
    case (Some b)
    then have "bm ! w \<noteq> 0xFFFFFFFF" using find_full_word by auto
    moreover have "b < 32" using Some by (rule find_upt_Some_bound)
    ultimately show ?thesis
      using Some Suc.prems unfolding upt find_append find_block
      by (simp add: word_set_def mult.commute)
  qed
qed simp

lemma bitmap_alloc_eq:
  "n \<le> length bm \<Longrightarrow> bitmap_alloc bm n =
    (case List.find (\<lambda>i. \<not> bit_at bm i) [0..<32 * n] of
       None \<Rightarrow> Some (bm, - 1)
     | Some i \<Rightarrow> map_option (\<lambda>bm. (bm, int i)) (word_set bm i))"
  using bitmap_alloc_from_eq [of 0 n bm] by (simp add: bitmap_alloc_def)

lemma bitmap_alloc_cases:
  assumes "n = length bm"
  shows "(bitmap_alloc bm n = Some (bm, - 1) \<and> (\<forall>i < 32 * n. bit_at bm i)) \<or>
    (\<exists>i bm'. bitmap_alloc bm n = Some (bm', int i) \<and> i < 32 * n \<and> \<not> bit_at bm i \<and> length bm' = length bm \<and>
      (\<forall>j < i. bit_at bm j) \<and> (\<forall>j. bit_at bm' j \<longleftrightarrow> j = i \<or> bit_at bm j))"
proof (cases "List.find (\<lambda>i. \<not> bit_at bm i) [0..<32 * n]")
  case None
  then have "bitmap_alloc bm n = Some (bm, - 1)" using assms by (simp add: bitmap_alloc_eq)
  moreover have "\<forall>i < 32 * n. bit_at bm i" using None by (simp add: find_upt_None_iff)
  ultimately show ?thesis by blast
next
  case (Some i)
  then have i: "i < 32 * n" "\<not> bit_at bm i" "\<forall>j < i. bit_at bm j" by (auto simp: find_upt_Some_iff)
  then obtain bm' where bm': "word_set bm i = Some bm'" using cb.set_Some [of i bm] assms by auto
  then have "length bm' = length bm" by (auto simp: word_set_eq split: if_splits)
  moreover have "bit_at bm' j \<longleftrightarrow> j = i \<or> bit_at bm j" for j
    using bm' bit_at_or_push_bit [of i bm j] i(1) assms
    by (auto simp: word_set_eq less_mult_imp_div_less mult.commute split: if_splits)
  moreover have "bitmap_alloc bm n = Some (bm', int i)" using Some bm' assms by (simp add: bitmap_alloc_eq)
  ultimately show ?thesis using i by blast
qed

section \<open>The invariant\<close>

text \<open>
  \<open>cspace_wf\<close> is the structural invariant: the arrays have the recorded sizes, slot 0 is taken and
  unused, and every allocated slot is in use.  \<open>cspace_clean\<close> says that slots that are not allocated are
  not in use either; it is what makes a lookup answer from allocated slots only.
\<close>

definition cspace_wf :: "cspace \<Rightarrow> bool" where
  "cspace_wf cs \<longleftrightarrow> (\<exists>sl bm. slots cs = Some sl \<and> free_bitmap cs = Some bm \<and>
     int (length sl) = max_slots cs \<and> length bm = unat (bitmap_words cs) \<and> length sl = 32 * length bm \<and>
     256 \<le> length sl \<and> length sl \<le> 65536 \<and> bit_at bm 0 \<and> in_use (sl ! 0) = 0 \<and>
     (\<forall>i. 0 < i \<and> i < length sl \<and> bit_at bm i \<longrightarrow> in_use (sl ! i) \<noteq> 0))"

definition cspace_clean :: "cspace \<Rightarrow> bool" where
  "cspace_clean cs \<longleftrightarrow> (\<forall>i < length (array_of (slots cs)).
     \<not> bit_at (array_of (free_bitmap cs)) i \<longrightarrow> in_use (array_of (slots cs) ! i) = 0)"

text \<open>
  The capabilities a space holds: the slots its bitmap marks as allocated.  The code's lookups read the
  \<open>in_use\<close> flags instead; in a clean space both views agree (lemma \<open>lookup_snapshot_clean\<close> below).
\<close>

definition caps :: "cspace \<Rightarrow> nat \<Rightarrow> cslot option" where
  "caps cs i = (if 0 < i \<and> i < length (array_of (slots cs)) \<and> bit_at (array_of (free_bitmap cs)) i
     then Some (array_of (slots cs) ! i) else None)"

definition cspace_mem_ok :: "cspace_mem \<Rightarrow> cspace \<Rightarrow> bool" where
  "cspace_mem_ok mem cs \<longleftrightarrow>
     (\<forall>sl. cm_slots mem = Some sl \<longrightarrow> int (length sl) = 2 * max_slots cs) \<and>
     (\<forall>bm. cm_bitmap mem = Some bm \<longrightarrow> length bm = 2 * unat (bitmap_words cs))"

text \<open>Memory in which no slot looks used, as a zeroing allocator would hand out.\<close>

definition cspace_mem_unused :: "cspace_mem \<Rightarrow> bool" where
  "cspace_mem_unused mem \<longleftrightarrow> (\<forall>sl. cm_slots mem = Some sl \<longrightarrow> (\<forall>c \<in> set sl. in_use c = 0))"

lemma array_of_Some [simp]: "array_of (Some xs) = xs"
  by (simp add: array_of_def)

lemma cspace_wfE:
  assumes "cspace_wf cs"
  obtains sl bm where "slots cs = Some sl" "free_bitmap cs = Some bm" "int (length sl) = max_slots cs"
    "length bm = unat (bitmap_words cs)" "length sl = 32 * length bm" "256 \<le> length sl" "length sl \<le> 65536"
    "bit_at bm 0" "in_use (sl ! 0) = 0" "\<forall>i. 0 < i \<longrightarrow> i < length sl \<longrightarrow> bit_at bm i \<longrightarrow> in_use (sl ! i) \<noteq> 0"
proof -
  from assms obtain sl bm where "slots cs = Some sl \<and> free_bitmap cs = Some bm \<and>
     int (length sl) = max_slots cs \<and> length bm = unat (bitmap_words cs) \<and> length sl = 32 * length bm \<and>
     256 \<le> length sl \<and> length sl \<le> 65536 \<and> bit_at bm 0 \<and> in_use (sl ! 0) = 0 \<and>
     (\<forall>i. 0 < i \<and> i < length sl \<and> bit_at bm i \<longrightarrow> in_use (sl ! i) \<noteq> 0)"
    unfolding cspace_wf_def by (elim exE)
  then show ?thesis using that [of sl bm] by blast
qed

lemma caps_Some_in_use:
  assumes "cspace_wf cs" and "caps cs i = Some c"
  shows "in_use c \<noteq> 0"
proof -
  obtain sl bm where sl: "slots cs = Some sl" and bm: "free_bitmap cs = Some bm" and n: "int (length sl) = max_slots cs"
    and w: "length bm = unat (bitmap_words cs)" "length sl = 32 * length bm" "256 \<le> length sl" "length sl \<le> 65536"
    and z: "bit_at bm 0" "in_use (sl ! 0) = 0"
    and u: "\<forall>i. 0 < i \<longrightarrow> i < length sl \<longrightarrow> bit_at bm i \<longrightarrow> in_use (sl ! i) \<noteq> 0"
    by (rule cspace_wfE [OF assms(1)])
  show ?thesis using assms(2) u [rule_format, of i] sl bm by (auto simp: caps_def split: if_splits)
qed

lemma caps_range:
  assumes "cspace_wf cs" and "caps cs i = Some c"
  shows "0 < i \<and> int i < max_slots cs"
proof -
  obtain sl bm where sl: "slots cs = Some sl" and bm: "free_bitmap cs = Some bm" and n: "int (length sl) = max_slots cs"
    and w: "length bm = unat (bitmap_words cs)" "length sl = 32 * length bm" "256 \<le> length sl" "length sl \<le> 65536"
    and z: "bit_at bm 0" "in_use (sl ! 0) = 0"
    and u: "\<forall>i. 0 < i \<longrightarrow> i < length sl \<longrightarrow> bit_at bm i \<longrightarrow> in_use (sl ! i) \<noteq> 0"
    by (rule cspace_wfE [OF assms(1)])
  have "0 < i \<and> i < length sl" using assms(2) sl by (simp add: caps_def split: if_splits)
  then show ?thesis using n by linarith
qed

lemma lookup_snapshot_clean:
  assumes "cspace_wf cs" and "cspace_clean cs"
  shows "cspace_lookup_snapshot cs slot = Some (if slot < 0 then None else caps cs (nat slot))"
proof -
  obtain sl bm where sl: "slots cs = Some sl" and bm: "free_bitmap cs = Some bm" and n: "int (length sl) = max_slots cs"
    and w: "length bm = unat (bitmap_words cs)" "length sl = 32 * length bm" "256 \<le> length sl" "length sl \<le> 65536"
    and z: "bit_at bm 0" "in_use (sl ! 0) = 0"
    and u: "\<forall>i. 0 < i \<longrightarrow> i < length sl \<longrightarrow> bit_at bm i \<longrightarrow> in_use (sl ! i) \<noteq> 0"
    by (rule cspace_wfE [OF assms(1)])
  have clean: "\<not> bit_at bm i \<Longrightarrow> i < length sl \<Longrightarrow> in_use (sl ! i) = 0" for i
    using assms(2) sl bm by (simp add: cspace_clean_def)
  show ?thesis
  proof (cases "0 \<le> slot \<and> slot < max_slots cs")
    case True
    then have i: "nat slot < length sl" using n by linarith
    have "in_use (sl ! nat slot) = 0 \<longleftrightarrow> nat slot = 0 \<or> \<not> bit_at bm (nat slot)"
      using i z clean [of "nat slot"] u [rule_format, of "nat slot"] by (cases "nat slot = 0") auto
    then show ?thesis
      using True i sl bm by (auto simp: cspace_lookup_snapshot_def slot_in_range_def caps_def)
  next
    case False
    then have "slot < 0 \<or> \<not> nat slot < length sl" using n by linarith
    then show ?thesis
      using False sl bm by (auto simp: cspace_lookup_snapshot_def slot_in_range_def caps_def)
  qed
qed

section \<open>Finding a slot and filling it\<close>

text \<open>What filling a free slot of a well-formed space with a capability achieves.\<close>

definition slot_filled :: "cspace \<Rightarrow> nat \<Rightarrow> cslot \<Rightarrow> cspace \<Rightarrow> bool" where
  "slot_filled cs i c cs' \<longleftrightarrow> cspace_wf cs' \<and> 0 < i \<and> caps cs i = None \<and> caps cs' = (caps cs)(i \<mapsto> c)"

lemma fill_slot:
  assumes wf: "cspace_wf cs" and alloc: "cspace_bitmap_alloc cs = Some (cs1, r)" and r: "0 \<le> r" and c: "in_use c \<noteq> 0"
  shows "\<exists>cs2. write_slot cs1 r c = Some cs2 \<and> slot_filled cs (nat r) c cs2 \<and> (cspace_clean cs \<longrightarrow> cspace_clean cs2)"
proof -
  obtain sl bm where sl: "slots cs = Some sl" and bm: "free_bitmap cs = Some bm" and n: "int (length sl) = max_slots cs"
    and w: "length bm = unat (bitmap_words cs)" "length sl = 32 * length bm" "256 \<le> length sl" "length sl \<le> 65536"
    and z: "bit_at bm 0" "in_use (sl ! 0) = 0"
    and u: "\<forall>i. 0 < i \<longrightarrow> i < length sl \<longrightarrow> bit_at bm i \<longrightarrow> in_use (sl ! i) \<noteq> 0"
    by (rule cspace_wfE [OF wf])
  have "bitmap_alloc bm (length bm) \<noteq> Some (bm, - 1)"
    using alloc r bm w(1) by (auto simp: cspace_bitmap_alloc_def)
  then obtain i bm' where i: "bitmap_alloc bm (length bm) = Some (bm', int i)" "i < 32 * length bm" "\<not> bit_at bm i"
    "length bm' = length bm" "\<And>j. bit_at bm' j \<longleftrightarrow> j = i \<or> bit_at bm j"
    using bitmap_alloc_cases [of "length bm" bm] by auto
  then have cs1: "cs1 = cs\<lparr>free_bitmap := Some bm'\<rparr>" "r = int i"
    using alloc bm w(1) by (auto simp: cspace_bitmap_alloc_def)
  let ?cs2 = "cs1\<lparr>slots := Some (sl[i := c])\<rparr>"
  have "i \<noteq> 0" using i(3) z(1) by (metis)
  have wr: "write_slot cs1 r c = Some ?cs2"
    using cs1 sl i(2) w(2) by (simp add: write_slot_def)
  have "in_use (sl[i := c] ! j) \<noteq> 0" if "0 < j" "j < length sl" "j = i \<or> bit_at bm j" for j
    using that u [rule_format, of j] c by (cases "j = i") simp_all
  then have "cspace_wf ?cs2"
    unfolding cspace_wf_def using cs1(1) n w z i(4,5) \<open>i \<noteq> 0\<close>
    by (intro exI [of _ "sl[i := c]"] exI [of _ bm']) simp
  moreover have "caps cs i = None" using i(3) bm by (simp add: caps_def)
  moreover have "caps ?cs2 = (caps cs)(i \<mapsto> c)"
    using cs1(1) sl bm i(2,5) w(2) \<open>i \<noteq> 0\<close> by (auto simp: caps_def fun_eq_iff)
  moreover have "cspace_clean ?cs2" if "cspace_clean cs"
    using that cs1(1) sl bm i(5) by (auto simp: cspace_clean_def nth_list_update)
  ultimately show ?thesis using wr \<open>i \<noteq> 0\<close> cs1(2) by (simp add: slot_filled_def)
qed

lemma bitmap_alloc_defined:
  assumes "cspace_wf cs"
  shows "\<exists>cs1 r. cspace_bitmap_alloc cs = Some (cs1, r) \<and> (r < 0 \<longrightarrow> cs1 = cs \<and> r = - 1)"
proof -
  obtain sl bm where sl: "slots cs = Some sl" and bm: "free_bitmap cs = Some bm" and n: "int (length sl) = max_slots cs"
    and w: "length bm = unat (bitmap_words cs)" "length sl = 32 * length bm" "256 \<le> length sl" "length sl \<le> 65536"
    and z: "bit_at bm 0" "in_use (sl ! 0) = 0"
    and u: "\<forall>i. 0 < i \<longrightarrow> i < length sl \<longrightarrow> bit_at bm i \<longrightarrow> in_use (sl ! i) \<noteq> 0"
    by (rule cspace_wfE [OF assms])
  show ?thesis
    using bitmap_alloc_cases [of "length bm" bm] bm by (auto simp: cspace_bitmap_alloc_def w(1) [symmetric])
qed

text \<open>When a space can grow, and what growth keeps of the arrays.\<close>

definition can_grow :: "cspace_mem \<Rightarrow> cspace \<Rightarrow> bool" where
  "can_grow mem cs \<longleftrightarrow> max_slots cs * 2 \<le> CSPACE_MAX_SLOTS \<and> cm_slots mem \<noteq> None \<and> cm_bitmap mem \<noteq> None"

definition grown :: "cspace \<Rightarrow> cspace \<Rightarrow> bool" where
  "grown cs cs' \<longleftrightarrow> length (array_of (slots cs')) = 2 * length (array_of (slots cs)) \<and>
     (\<forall>i < length (array_of (slots cs)). array_of (slots cs') ! i = array_of (slots cs) ! i) \<and>
     (\<forall>i < 2 * length (array_of (slots cs)).
        bit_at (array_of (free_bitmap cs')) i \<longleftrightarrow> i < length (array_of (slots cs)) \<and> bit_at (array_of (free_bitmap cs)) i)"

lemma cspace_grow_correct:
  assumes wf: "cspace_wf cs" and mem: "cspace_mem_ok mem cs"
  shows "\<exists>cs' r. cspace_grow mem cs = Some (cs', r) \<and>
    (r = - 1 \<and> cs' = cs \<and> \<not> can_grow mem cs \<or>
     r = 0 \<and> cspace_wf cs' \<and> caps cs' = caps cs \<and> max_slots cs' = 2 * max_slots cs \<and>
       (cspace_clean cs \<and> cspace_mem_unused mem \<longrightarrow> cspace_clean cs') \<and> can_grow mem cs \<and> grown cs cs')"
proof (cases "max_slots cs * 2 > CSPACE_MAX_SLOTS \<or> cm_slots mem = None \<or> cm_bitmap mem = None")
  case True
  then show ?thesis by (auto simp: cspace_grow_def can_grow_def Let_def split: option.splits)
next
  case False
  then obtain ns nb where ns: "cm_slots mem = Some ns" and nb: "cm_bitmap mem = Some nb" and small: "max_slots cs * 2 \<le> 65536"
    by auto
  obtain sl bm where sl: "slots cs = Some sl" and bm: "free_bitmap cs = Some bm" and n: "int (length sl) = max_slots cs"
    and w: "length bm = unat (bitmap_words cs)" "length sl = 32 * length bm" "256 \<le> length sl" "length sl \<le> 65536"
    and z: "bit_at bm 0" "in_use (sl ! 0) = 0"
    and u: "\<forall>i. 0 < i \<longrightarrow> i < length sl \<longrightarrow> bit_at bm i \<longrightarrow> in_use (sl ! i) \<noteq> 0"
    by (rule cspace_wfE [OF wf])
  have len: "length ns = 2 * length sl" "length nb = 2 * length bm"
    using mem ns nb n w(1) by (auto simp: cspace_mem_ok_def)
  let ?sl = "sl @ drop (length sl) ns" and ?bm = "bm @ replicate (length bm) 0"
  let ?cs = "cs\<lparr>slots := Some ?sl, free_bitmap := Some ?bm, max_slots := max_slots cs * 2,
    bitmap_words := word_of_int (max_slots cs * 2 div 32)\<rparr>"
  have words: "max_slots cs * 2 div 32 = int (2 * length bm)" using n w(2) by simp
  have nat_n: "nat (max_slots cs) = length sl" using n by linarith
  have cnt: "nat (max_slots cs div 16 - int (length bm)) = length bm" using n w(2) by simp
  have grow: "cspace_grow mem cs = Some (?cs, 0)"
    using ns nb small sl bm len unfolding cspace_grow_def Let_def
    by (simp add: nat_n cnt w(1) [symmetric])
  have "word_of_int (max_slots cs * 2 div 32) = (of_nat (2 * length bm) :: u32)"
    unfolding words by simp
  moreover have "2 * length bm < 2 ^ 32" using w(2,4) by simp
  ultimately have bw: "unat (bitmap_words ?cs) = 2 * length bm"
    using unat_of_nat_less [of "2 * length bm", where ?'a = 32] by simp
  have bit: "bit_at ?bm i \<longleftrightarrow> i < length sl \<and> bit_at bm i" if "i < 2 * length sl" for i
    using that w(2) bit_at_zero [of "i - 32 * length bm" "length bm", where ?'a = 32] by (simp add: bit_at_append)
  have "cspace_wf ?cs"
    unfolding cspace_wf_def using n w(2,3) z u bit bw small len(1)
    by (intro exI [of _ ?sl] exI [of _ ?bm]) (auto simp: nth_append)
  moreover have "caps ?cs = caps cs"
    using sl bm bit len(1) by (auto simp: caps_def fun_eq_iff nth_append)
  moreover have "cspace_clean ?cs" if "cspace_clean cs" "cspace_mem_unused mem"
  proof -
    have "in_use (?sl ! i) = 0" if "i < 2 * length sl" "\<not> (i < length sl \<and> bit_at bm i)" for i
      using that \<open>cspace_clean cs\<close> \<open>cspace_mem_unused mem\<close> sl bm ns len(1)
      by (auto simp: cspace_clean_def cspace_mem_unused_def nth_append)
    then show ?thesis using len(1) bit by (simp add: cspace_clean_def)
  qed
  moreover have "grown cs ?cs" using sl bm len(1) bit by (auto simp: grown_def nth_append)
  moreover have "can_grow mem cs" using ns nb small by (simp add: can_grow_def)
  ultimately show ?thesis using grow by auto
qed

lemma find_slot_correct:
  assumes wf: "cspace_wf cs" and mem: "cspace_mem_ok mem cs" and c: "in_use c \<noteq> 0"
  shows "\<exists>cs1 r. cspace_find_slot mem cs = Some (cs1, r) \<and>
    (r < 0 \<longrightarrow> cspace_wf cs1 \<and> caps cs1 = caps cs \<and> (cspace_clean cs \<and> cspace_mem_unused mem \<longrightarrow> cspace_clean cs1)) \<and>
    (0 \<le> r \<longrightarrow> (\<exists>cs2. write_slot cs1 r c = Some cs2 \<and> slot_filled cs (nat r) c cs2 \<and>
      (cspace_clean cs \<and> cspace_mem_unused mem \<longrightarrow> cspace_clean cs2)))"
proof -
  obtain cs1 r where 1: "cspace_bitmap_alloc cs = Some (cs1, r)" "r < 0 \<longrightarrow> cs1 = cs \<and> r = - 1"
    using bitmap_alloc_defined [OF wf] by blast
  show ?thesis
  proof (cases "r < 0")
    case False
    then show ?thesis using 1 fill_slot [OF wf 1(1) _ c] by (auto simp: cspace_find_slot_def)
  next
    case True
    then have cs1: "cs1 = cs" using 1 by simp
    obtain cs' g where 2: "cspace_grow mem cs = Some (cs', g)" "g = - 1 \<and> cs' = cs \<or> g = 0 \<and> cspace_wf cs' \<and>
        caps cs' = caps cs \<and> (cspace_clean cs \<and> cspace_mem_unused mem \<longrightarrow> cspace_clean cs')"
      using cspace_grow_correct [OF wf mem] by blast
    show ?thesis
    proof (cases "g = 0")
      case True
      then have g: "cspace_wf cs'" "caps cs' = caps cs" "cspace_clean cs \<and> cspace_mem_unused mem \<longrightarrow> cspace_clean cs'"
        using 2(2) by auto
      obtain cs3 q where 3: "cspace_bitmap_alloc cs' = Some (cs3, q)" "q < 0 \<longrightarrow> cs3 = cs' \<and> q = - 1"
        using bitmap_alloc_defined [OF g(1)] by blast
      have "cspace_find_slot mem cs = Some (cs3, q)"
        using 1 \<open>r < 0\<close> cs1 2(1) True 3(1) by (simp add: cspace_find_slot_def)
      then show ?thesis
        using 3 g fill_slot [OF g(1) 3(1) _ c] by (cases "q < 0") (auto simp: slot_filled_def)
    next
      case False
      then have "cspace_find_slot mem cs = Some (cs, - 1)"
        using 1 \<open>r < 0\<close> cs1 2 by (simp add: cspace_find_slot_def)
      then show ?thesis using wf by auto
    qed
  qed
qed

lemma alloc_slot_correct:
  assumes "cspace_wf cs" and "cspace_mem_ok mem cs"
  shows "\<exists>cs' r. cspace_alloc_slot mem ty rt obj cs = Some (cs', r) \<and> cspace_wf cs' \<and>
    (cspace_clean cs \<and> cspace_mem_unused mem \<longrightarrow> cspace_clean cs') \<and>
    (r = - 1 \<and> caps cs' = caps cs \<or>
     0 < r \<and> caps cs (nat r) = None \<and>
       caps cs' = (caps cs)(nat r \<mapsto> \<lparr>object_id = obj, cap_type = ty, rights = rt, in_use = 1\<rparr>))"
proof -
  let ?c = "\<lparr>object_id = obj, cap_type = ty, rights = rt, in_use = 1\<rparr>"
  have "in_use ?c \<noteq> 0" by simp
  from find_slot_correct [OF assms this] show ?thesis
    by (auto simp: cspace_alloc_slot_def slot_filled_def not_less)
qed

lemma clear_slot_correct:
  assumes wf: "cspace_wf cs" and i: "0 < i" "int i < max_slots cs"
  shows "\<exists>cs'. clear_slot cs (int i) = Some cs' \<and> cspace_wf cs' \<and> caps cs' = (caps cs)(i := None) \<and>
    max_slots cs' = max_slots cs \<and> bitmap_words cs' = bitmap_words cs \<and> (cspace_clean cs \<longrightarrow> cspace_clean cs')"
proof -
  obtain sl bm where sl: "slots cs = Some sl" and bm: "free_bitmap cs = Some bm" and n: "int (length sl) = max_slots cs"
    and w: "length bm = unat (bitmap_words cs)" "length sl = 32 * length bm" "256 \<le> length sl" "length sl \<le> 65536"
    and z: "bit_at bm 0" "in_use (sl ! 0) = 0"
    and u: "\<forall>i. 0 < i \<longrightarrow> i < length sl \<longrightarrow> bit_at bm i \<longrightarrow> in_use (sl ! i) \<noteq> 0"
    by (rule cspace_wfE [OF wf])
  have il: "i < length sl" using i n by linarith
  then obtain bm' where bm': "bitmap_free bm i = Some bm'" using cb.clear_Some [of i bm] w(2) by auto
  have len: "length bm' = length bm" using cb.cap_clear [OF bm'] by simp
  have bit: "bit_at bm' j \<longleftrightarrow> j \<noteq> i \<and> bit_at bm j" for j
    using bm' bit_at_and_not_push_bit [of i bm j] il w(2)
    by (auto simp: bitmap_free_eq less_mult_imp_div_less mult.commute split: if_splits)
  let ?cs = "cs\<lparr>slots := Some (sl[i := zero_slot]), free_bitmap := Some bm'\<rparr>"
  have "clear_slot cs (int i) = Some ?cs"
    using sl bm il bm' by (simp add: clear_slot_def write_slot_def)
  moreover have "cspace_wf ?cs"
    unfolding cspace_wf_def using n w z u len bit i(1)
    by (intro exI [of _ "sl[i := zero_slot]"] exI [of _ bm']) (simp add: nth_list_update)
  moreover have "caps ?cs = (caps cs)(i := None)"
    using sl bm bit by (auto simp: caps_def fun_eq_iff)
  moreover have "cspace_clean ?cs" if "cspace_clean cs"
    using that sl bm bit il by (auto simp: cspace_clean_def nth_list_update zero_slot_def)
  ultimately show ?thesis by auto
qed

lemma caps_nth:
  assumes "cspace_wf cs" and "caps cs i = Some c"
  shows "nth_opt (array_of (slots cs)) i = Some c" and "slot_in_range cs (int i)"
proof -
  obtain sl bm where sl: "slots cs = Some sl" and bm: "free_bitmap cs = Some bm" and n: "int (length sl) = max_slots cs"
    and w: "length bm = unat (bitmap_words cs)" "length sl = 32 * length bm" "256 \<le> length sl" "length sl \<le> 65536"
    and z: "bit_at bm 0" "in_use (sl ! 0) = 0"
    and u: "\<forall>i. 0 < i \<longrightarrow> i < length sl \<longrightarrow> bit_at bm i \<longrightarrow> in_use (sl ! i) \<noteq> 0"
    by (rule cspace_wfE [OF assms(1)])
  have i: "i < length sl" "sl ! i = c" using assms(2) sl by (auto simp: caps_def split: if_splits)
  then show "nth_opt (array_of (slots cs)) i = Some c" using sl by simp
  show "slot_in_range cs (int i)" using i(1) n sl unfolding slot_in_range_def by auto
qed

section \<open>The interface of a capability space\<close>

text \<open>
  The contract the system calls rely on: a lookup answers from the capabilities held, an
  allocation adds a capability at an unused positive slot or changes nothing, and a cleared slot holds nothing.
\<close>

locale cap_space =
  fixes ok :: "'s \<Rightarrow> bool"
    and held :: "'s \<Rightarrow> nat \<Rightarrow> 'c option"
    and lookup :: "'s \<Rightarrow> int \<Rightarrow> 'c option option"
    and alloc :: "'c \<Rightarrow> 's \<Rightarrow> ('s \<times> int) option"
    and clear :: "'s \<Rightarrow> int \<Rightarrow> 's option"
  assumes lookup_law: "ok s \<Longrightarrow> lookup s slot = Some (if slot < 0 then None else held s (nat slot))"
    and alloc_law: "ok s \<Longrightarrow> \<exists>s' r. alloc c s = Some (s', r) \<and> ok s' \<and>
      (r = - 1 \<and> held s' = held s \<or> 0 < r \<and> held s (nat r) = None \<and> held s' = (held s)(nat r \<mapsto> c))"
    and clear_law: "ok s \<Longrightarrow> held s i \<noteq> None \<Longrightarrow> \<exists>s'. clear s (int i) = Some s' \<and> ok s' \<and> held s' = (held s)(i := None)"
begin

lemma alloc_then_lookup:
  assumes "ok s" and "alloc c s = Some (s', r)" and "r \<noteq> - 1"
  shows "lookup s' r = Some (Some c)"
    and "lookup s r = Some None"
    and "k \<noteq> r \<Longrightarrow> lookup s' k = lookup s k"
proof -
  have ok': "ok s'" and r: "0 < r" "held s (nat r) = None" "held s' = (held s)(nat r \<mapsto> c)"
    using alloc_law [OF assms(1), of c] assms(2,3) by auto
  then show "lookup s' r = Some (Some c)" and "lookup s r = Some None"
    using lookup_law assms(1) by simp_all
  show "lookup s' k = lookup s k" if "k \<noteq> r"
    using that lookup_law [OF ok'] lookup_law [OF assms(1)] r by (auto simp: nat_eq_iff)
qed

lemma alloc_then_clear:
  assumes "ok s" and "alloc c s = Some (s1, r)" and "r \<noteq> - 1"
  shows "\<exists>s2. clear s1 r = Some s2 \<and> held s2 = held s \<and> lookup s2 r = Some None"
proof -
  have ok': "ok s1" and r: "0 < r" "held s (nat r) = None" "held s1 = (held s)(nat r \<mapsto> c)"
    using alloc_law [OF assms(1), of c] assms(2,3) by auto
  then obtain s2 where "clear s1 (int (nat r)) = Some s2" "ok s2" "held s2 = (held s1)(nat r := None)"
    using clear_law [OF ok', of "nat r"] by auto
  then show ?thesis using r lookup_law by (auto simp: fun_upd_idem)
qed

end

definition cap_triple :: "cslot \<Rightarrow> u32 \<times> u32 \<times> u64" where
  "cap_triple c = (cap_type c, rights c, object_id c)"

text \<open>An allocator that has no memory for a larger space.\<close>

definition no_mem :: cspace_mem where
  "no_mem = \<lparr>cm_slots = None, cm_bitmap = None\<rparr>"

lemma no_mem_ok [simp]: "cspace_mem_ok no_mem cs" "cspace_mem_unused no_mem"
  by (simp_all add: no_mem_def cspace_mem_ok_def cspace_mem_unused_def)

definition alloc_triple :: "u32 \<times> u32 \<times> u64 \<Rightarrow> cspace \<Rightarrow> (cspace \<times> int) option" where
  "alloc_triple c = cspace_alloc_slot no_mem (fst c) (fst (snd c)) (snd (snd c))"

interpretation cp: cap_space "\<lambda>cs. cspace_wf cs \<and> cspace_clean cs" "\<lambda>cs i. map_option cap_triple (caps cs i)"
  "\<lambda>cs slot. map_option (map_option cap_triple) (cspace_lookup_snapshot cs slot)" alloc_triple clear_slot
proof unfold_locales
  fix cs :: cspace and slot :: int and c :: "u32 \<times> u32 \<times> u64" and i :: nat
  assume ok: "cspace_wf cs \<and> cspace_clean cs"
  show "map_option (map_option cap_triple) (cspace_lookup_snapshot cs slot) =
      Some (if slot < 0 then None else map_option cap_triple (caps cs (nat slot)))"
    using ok by (simp add: lookup_snapshot_clean)
  show "\<exists>cs' r. alloc_triple c cs = Some (cs', r) \<and> (cspace_wf cs' \<and> cspace_clean cs') \<and>
      (r = - 1 \<and> (\<lambda>i. map_option cap_triple (caps cs' i)) = (\<lambda>i. map_option cap_triple (caps cs i)) \<or>
       0 < r \<and> map_option cap_triple (caps cs (nat r)) = None \<and>
         (\<lambda>i. map_option cap_triple (caps cs' i)) = (\<lambda>i. map_option cap_triple (caps cs i))(nat r \<mapsto> c))"
  proof -
    let ?c = "\<lparr>object_id = snd (snd c), cap_type = fst c, rights = fst (snd c), in_use = 1\<rparr>"
    obtain cs' r where a: "alloc_triple c cs = Some (cs', r)" "cspace_wf cs' \<and> cspace_clean cs'"
      and d: "r = - 1 \<and> caps cs' = caps cs \<or> 0 < r \<and> caps cs (nat r) = None \<and> caps cs' = (caps cs)(nat r \<mapsto> ?c)"
      unfolding alloc_triple_def
      using alloc_slot_correct [of cs no_mem "fst c" "fst (snd c)" "snd (snd c)"] ok no_mem_ok by blast
    have "(\<lambda>i. map_option cap_triple ((m(k \<mapsto> ?c)) i)) = (\<lambda>i. map_option cap_triple (m i))(k \<mapsto> c)" for m k
      by (rule ext) (simp add: cap_triple_def)
    then show ?thesis using a d by (intro exI [of _ cs'] exI [of _ r]) (elim disjE, simp_all)
  qed
  show "\<exists>cs'. clear_slot cs (int i) = Some cs' \<and> (cspace_wf cs' \<and> cspace_clean cs') \<and>
      (\<lambda>i. map_option cap_triple (caps cs' i)) = (\<lambda>i. map_option cap_triple (caps cs i))(i := None)"
    if "map_option cap_triple (caps cs i) \<noteq> None"
  proof -
    from that obtain c where "caps cs i = Some c" by auto
    then have "0 < i" "int i < max_slots cs" using caps_range ok by blast+
    then obtain cs' where "clear_slot cs (int i) = Some cs'" "cspace_wf cs'" "caps cs' = (caps cs)(i := None)" "cspace_clean cs'"
      using clear_slot_correct [of cs i] ok by blast
    then show ?thesis by (auto simp: fun_eq_iff)
  qed
qed

section \<open>Freeing and moving\<close>

lemma free_slot_held:
  assumes wf: "cspace_wf cs" and c: "caps cs i = Some c" and st: "ports_inv st"
  shows "\<exists>cs' st'. cspace_free_slot cs (int i) st = Some (cs', st', 0) \<and> cspace_wf cs' \<and> caps cs' = (caps cs)(i := None) \<and>
    (cspace_clean cs \<longrightarrow> cspace_clean cs') \<and> ports_inv st' \<and>
    (if cap_type c = CAP_PORT then port_release (object_id c) st = Some st' else st' = st)"
proof -
  note r = caps_range [OF wf c] and nth = caps_nth [OF wf c]
  obtain cs' where cs': "clear_slot cs (int i) = Some cs'" "cspace_wf cs'" "caps cs' = (caps cs)(i := None)"
    "cspace_clean cs \<longrightarrow> cspace_clean cs'"
    using clear_slot_correct [OF wf, of i] r by blast
  obtain st' where st': "(if cap_type c = CAP_PORT then port_release (object_id c) st else Some st) = Some st'" "ports_inv st'"
    using port_release_if [OF st] by blast
  have "cspace_free_slot cs (int i) st = Some (cs', st', 0)"
    using nth cs'(1) st'(1) caps_Some_in_use [OF wf c] by (simp add: cspace_free_slot_def)
  then show ?thesis using cs' st' by (auto split: if_splits)
qed

lemma move_correct:
  assumes src: "cspace_wf src" and dst: "cspace_wf dst" and mem: "cspace_mem_ok mem dst" and c: "caps src i = Some c"
  shows "\<exists>src' dst' r. cspace_move mem src dst (int i) = Some (src', dst', r) \<and> cspace_wf src' \<and> cspace_wf dst' \<and>
    (cspace_clean src \<longrightarrow> cspace_clean src') \<and> (cspace_clean dst \<and> cspace_mem_unused mem \<longrightarrow> cspace_clean dst') \<and>
    (r = - 1 \<and> caps src' = caps src \<and> caps dst' = caps dst \<or>
     0 < r \<and> caps dst (nat r) = None \<and> caps dst' = (caps dst)(nat r \<mapsto> c) \<and> caps src' = (caps src)(i := None))"
proof -
  note r = caps_range [OF src c] and nth = caps_nth [OF src c] and use = caps_Some_in_use [OF src c]
  obtain d1 q where q: "cspace_find_slot mem dst = Some (d1, q)"
    "q < 0 \<longrightarrow> cspace_wf d1 \<and> caps d1 = caps dst \<and> (cspace_clean dst \<and> cspace_mem_unused mem \<longrightarrow> cspace_clean d1)"
    "0 \<le> q \<longrightarrow> (\<exists>d2. write_slot d1 q c = Some d2 \<and> slot_filled dst (nat q) c d2 \<and>
      (cspace_clean dst \<and> cspace_mem_unused mem \<longrightarrow> cspace_clean d2))"
    using find_slot_correct [OF dst mem use] by blast
  show ?thesis
  proof (cases "q < 0")
    case True
    then have "cspace_move mem src dst (int i) = Some (src, d1, - 1)"
      using nth q(1) use by (simp add: cspace_move_def)
    then show ?thesis using True q(2) src by blast
  next
    case False
    then obtain d2 where d2: "write_slot d1 q c = Some d2" "slot_filled dst (nat q) c d2"
      "cspace_clean dst \<and> cspace_mem_unused mem \<longrightarrow> cspace_clean d2" using q(3) by auto
    obtain s2 where s2: "clear_slot src (int i) = Some s2" "cspace_wf s2" "caps s2 = (caps src)(i := None)"
      "cspace_clean src \<longrightarrow> cspace_clean s2"
      using clear_slot_correct [OF src, of i] r by blast
    have "cspace_move mem src dst (int i) = Some (s2, d2, q)"
      using nth q(1) use False d2(1) s2(1) by (simp add: cspace_move_def)
    moreover have "0 < q" using False d2(2) by (simp add: slot_filled_def)
    ultimately show ?thesis using d2(2,3) s2 unfolding slot_filled_def by blast
  qed
qed

section \<open>Lookups after an allocation\<close>

text \<open>Every slot that can be handed out answers a lookup.\<close>

definition space_full :: "cspace \<Rightarrow> bool" where
  "space_full cs \<longleftrightarrow> (\<forall>i. 0 < i \<and> i < max_slots cs \<longrightarrow> cspace_lookup_snapshot cs i \<noteq> Some None)"

lemma lookup_snapshot_nth:
  assumes "slots cs = Some sl" and "int (length sl) = max_slots cs"
  shows "cspace_lookup_snapshot cs i =
    Some (if 0 \<le> i \<and> i < max_slots cs \<and> in_use (sl ! nat i) \<noteq> 0 then Some (sl ! nat i) else None)"
  using assms by (auto simp: cspace_lookup_snapshot_def slot_in_range_def nth_opt_def)

lemma bitmap_alloc_lowest:
  assumes "cspace_wf cs"
  shows "cspace_bitmap_alloc cs = Some (cs, - 1) \<and> (\<forall>i < length (array_of (slots cs)). bit_at (array_of (free_bitmap cs)) i) \<or>
    (\<exists>i cs1. cspace_bitmap_alloc cs = Some (cs1, int i) \<and> 0 < i \<and> i < length (array_of (slots cs)) \<and>
      \<not> bit_at (array_of (free_bitmap cs)) i \<and> (\<forall>j < i. bit_at (array_of (free_bitmap cs)) j) \<and> slots cs1 = slots cs \<and>
      max_slots cs1 = max_slots cs)"
proof -
  obtain sl bm where sl: "slots cs = Some sl" and bm: "free_bitmap cs = Some bm" and n: "int (length sl) = max_slots cs"
    and w: "length bm = unat (bitmap_words cs)" "length sl = 32 * length bm" "256 \<le> length sl" "length sl \<le> 65536"
    and z: "bit_at bm 0" "in_use (sl ! 0) = 0"
    and u: "\<forall>i. 0 < i \<longrightarrow> i < length sl \<longrightarrow> bit_at bm i \<longrightarrow> in_use (sl ! i) \<noteq> 0"
    by (rule cspace_wfE [OF assms])
  have pos: "0 < i" if "\<not> bit_at bm i" for i using that z(1) by (cases i) auto
  show ?thesis
    using bitmap_alloc_cases [of "length bm" bm] sl bm w(2) pos by (auto simp: cspace_bitmap_alloc_def w(1) [symmetric])
qed

lemma lookup_free_iff:
  assumes "cspace_wf cs" and "cspace_clean cs" and "0 < i" and "i < length (array_of (slots cs))"
  shows "cspace_lookup_snapshot cs (int i) = Some None \<longleftrightarrow> \<not> bit_at (array_of (free_bitmap cs)) i"
  using lookup_snapshot_clean [OF assms(1,2), of "int i"] assms(3,4) by (simp add: caps_def)

lemma wf_length: "cspace_wf cs \<Longrightarrow> int (length (array_of (slots cs))) = max_slots cs \<and> slots cs = Some (array_of (slots cs))"
  by (auto simp: cspace_wf_def)

lemma space_full_iff:
  assumes "cspace_wf cs" and "cspace_clean cs"
  shows "space_full cs \<longleftrightarrow> (\<forall>i. 0 < i \<and> i < length (array_of (slots cs)) \<longrightarrow> bit_at (array_of (free_bitmap cs)) i)"
proof
  assume f: "space_full cs"
  show "\<forall>i. 0 < i \<and> i < length (array_of (slots cs)) \<longrightarrow> bit_at (array_of (free_bitmap cs)) i"
    using f wf_length [OF assms(1)] lookup_free_iff [OF assms] unfolding space_full_def by (metis of_nat_0_less_iff of_nat_less_iff)
next
  assume b: "\<forall>i. 0 < i \<and> i < length (array_of (slots cs)) \<longrightarrow> bit_at (array_of (free_bitmap cs)) i"
  show "space_full cs"
    unfolding space_full_def
  proof (intro allI impI)
    fix i
    assume "0 < i \<and> i < max_slots cs"
    then have "0 < nat i" "nat i < length (array_of (slots cs))" "int (nat i) = i" using wf_length [OF assms(1)] by auto
    then show "cspace_lookup_snapshot cs i \<noteq> Some None" using lookup_free_iff [OF assms, of "nat i"] b by simp
  qed
qed

text \<open>Storing a capability in the lowest free slot of a space whose first slots are those of \<open>cs\<close>.\<close>

lemma fill_lookup:
  assumes cs: "cspace_wf cs" "cspace_clean cs" and sp: "cspace_wf sp" "cspace_bitmap_alloc sp = Some (sp1, int r)"
    "slots sp1 = slots sp" "max_slots sp1 = max_slots sp"
    and r: "0 < r" "r < length (array_of (slots sp))" "caps cs r = None" "\<And>j. 0 < j \<Longrightarrow> j < r \<Longrightarrow> j < length (array_of (slots cs)) \<and> bit_at (array_of (free_bitmap cs)) j"
    and c: "in_use c \<noteq> 0"
  shows "\<exists>cs'. write_slot sp1 (int r) c = Some cs' \<and> cspace_wf cs' \<and> cspace_lookup_snapshot cs (int r) = Some None \<and>
    (\<forall>i. 0 < i \<and> i < int r \<longrightarrow> cspace_lookup_snapshot cs i \<noteq> Some None) \<and> cspace_lookup_snapshot cs' (int r) = Some (Some c) \<and>
    (\<forall>i. i \<noteq> int r \<longrightarrow> cspace_lookup_snapshot cs' i = cspace_lookup_snapshot sp i)"
proof -
  note L = wf_length [OF sp(1)]
  let ?sl = "array_of (slots sp)"
  obtain cs' where w: "write_slot sp1 (int r) c = Some cs'" "slot_filled sp r c cs'" using fill_slot [OF sp(1,2) _ c] by auto
  then have cs': "slots cs' = Some (?sl[r := c])" "max_slots cs' = max_slots sp"
    using sp(3,4) r(2) by (auto simp: write_slot_def upd_opt_def)
  have look: "cspace_lookup_snapshot cs' i = Some (if 0 \<le> i \<and> i < max_slots sp \<and> in_use (?sl[r := c] ! nat i) \<noteq> 0
      then Some (?sl[r := c] ! nat i) else None)" for i
    using lookup_snapshot_nth [OF cs'(1)] L cs'(2) by simp
  have "cspace_lookup_snapshot cs' i = cspace_lookup_snapshot sp i" if "i \<noteq> int r" for i
    unfolding look using lookup_snapshot_nth [of sp ?sl i] L that by (cases "0 \<le> i") (auto simp: nth_list_update)
  moreover have "cspace_lookup_snapshot cs' (int r) = Some (Some c)" unfolding look using c r(2) L by auto
  moreover have "cspace_lookup_snapshot cs (int r) = Some None" using lookup_snapshot_clean [OF cs, of "int r"] r(3) by simp
  moreover have "cspace_lookup_snapshot cs i \<noteq> Some None" if "0 < i" "i < int r" for i
    using lookup_free_iff [OF cs, of "nat i"] r(4) [of "nat i"] that by simp
  moreover have "cspace_wf cs'" using w(2) by (simp add: slot_filled_def)
  ultimately show ?thesis using w(1) by blast
qed

lemma grown_lookup:
  assumes "cspace_wf cs" and "cspace_wf cs'" and "grown cs cs'" and "i < max_slots cs"
  shows "cspace_lookup_snapshot cs' i = cspace_lookup_snapshot cs i"
proof (cases "0 \<le> i")
  case True
  have k: "nat i < length (array_of (slots cs))" "i < max_slots cs'"
    using wf_length [OF assms(1)] wf_length [OF assms(2)] assms(3,4) True by (auto simp: grown_def)
  then have "array_of (slots cs') ! nat i = array_of (slots cs) ! nat i" using assms(3) by (simp add: grown_def)
  then show ?thesis
    using lookup_snapshot_nth [of cs "array_of (slots cs)" i] lookup_snapshot_nth [of cs' "array_of (slots cs')" i]
      wf_length [OF assms(1)] wf_length [OF assms(2)] assms(4) k by simp
qed (simp add: cspace_lookup_snapshot_def slot_in_range_def)

lemma grown_lowest:
  assumes "cspace_wf cs" and "cspace_wf cs'" and g: "grown cs cs'"
    and full: "\<forall>i < length (array_of (slots cs)). bit_at (array_of (free_bitmap cs)) i"
  shows "\<exists>sp1. cspace_bitmap_alloc cs' = Some (sp1, int (length (array_of (slots cs)))) \<and> slots sp1 = slots cs' \<and>
    max_slots sp1 = max_slots cs' \<and> 0 < length (array_of (slots cs)) \<and>
    length (array_of (slots cs)) < length (array_of (slots cs'))"
proof -
  let ?n = "length (array_of (slots cs))"
  have n: "0 < ?n" "length (array_of (slots cs')) = 2 * ?n" using assms(1) g by (auto simp: cspace_wf_def grown_def)
  have b: "bit_at (array_of (free_bitmap cs')) i \<longleftrightarrow> i < ?n" if "i < 2 * ?n" for i using g full that by (auto simp: grown_def)
  have nb: "\<not> bit_at (array_of (free_bitmap cs')) ?n" using b [of ?n] n(1) by simp
  then obtain i sp1 where i: "cspace_bitmap_alloc cs' = Some (sp1, int i)" "i < 2 * ?n"
      "\<not> bit_at (array_of (free_bitmap cs')) i" "\<forall>j < i. bit_at (array_of (free_bitmap cs')) j"
      "slots sp1 = slots cs'" "max_slots sp1 = max_slots cs'"
    using bitmap_alloc_lowest [OF assms(2)] n by auto
  have "i = ?n" using i(2-4) b [of i] nb by (metis linorder_neqE_nat)
  then show ?thesis using i n by auto
qed

text \<open>What an allocation that returns slot \<open>r\<close> leaves, as lookups see it.\<close>

definition slot_allocated :: "cspace_mem \<Rightarrow> cspace \<Rightarrow> cslot \<Rightarrow> cspace \<Rightarrow> int \<Rightarrow> bool" where
  "slot_allocated mem cs c cs' r \<longleftrightarrow> cspace_wf cs' \<and> 0 < r \<and> cspace_lookup_snapshot cs r = Some None \<and>
     (\<forall>i. 0 < i \<and> i < r \<longrightarrow> cspace_lookup_snapshot cs i \<noteq> Some None) \<and> cspace_lookup_snapshot cs' r = Some (Some c) \<and>
     (\<forall>i. i \<noteq> r \<and> (i < max_slots cs \<or> \<not> space_full cs \<or> cspace_mem_unused mem) \<longrightarrow>
       cspace_lookup_snapshot cs' i = cspace_lookup_snapshot cs i)"

lemma alloc_slot_free:
  assumes wf: "cspace_wf cs" and clean: "cspace_clean cs" and a: "cspace_bitmap_alloc cs = Some (sp1, int r)"
    and s: "slots sp1 = slots cs" "max_slots sp1 = max_slots cs" and r: "0 < r" "r < length (array_of (slots cs))"
    and fr: "\<not> bit_at (array_of (free_bitmap cs)) r" and low: "\<forall>j < r. bit_at (array_of (free_bitmap cs)) j"
  shows "\<exists>cs'. cspace_alloc_slot mem ty rt obj cs = Some (cs', int r) \<and>
    slot_allocated mem cs \<lparr>object_id = obj, cap_type = ty, rights = rt, in_use = 1\<rparr> cs' (int r)"
proof -
  let ?c = "\<lparr>object_id = obj, cap_type = ty, rights = rt, in_use = 1\<rparr>"
  obtain cs' where f: "write_slot sp1 (int r) ?c = Some cs'" "cspace_wf cs'" "cspace_lookup_snapshot cs (int r) = Some None"
      "\<forall>i. 0 < i \<and> i < int r \<longrightarrow> cspace_lookup_snapshot cs i \<noteq> Some None" "cspace_lookup_snapshot cs' (int r) = Some (Some ?c)"
      "\<forall>i. i \<noteq> int r \<longrightarrow> cspace_lookup_snapshot cs' i = cspace_lookup_snapshot cs i"
    using fill_lookup [OF wf clean wf a s r, of ?c] fr low r by (auto simp: caps_def)
  have "cspace_alloc_slot mem ty rt obj cs = Some (cs', int r)"
    using a f(1) by (simp add: cspace_alloc_slot_def cspace_find_slot_def)
  then show ?thesis using f r(1) unfolding slot_allocated_def by (intro exI [of _ cs']) auto
qed

lemma alloc_slot_grows:
  assumes wf: "cspace_wf cs" and clean: "cspace_clean cs" and mem: "cspace_mem_ok mem cs"
    and a: "cspace_bitmap_alloc cs = Some (cs, - 1)"
    and bits: "\<forall>i < length (array_of (slots cs)). bit_at (array_of (free_bitmap cs)) i"
  shows "if can_grow mem cs
    then \<exists>cs' r. cspace_alloc_slot mem ty rt obj cs = Some (cs', r) \<and>
      slot_allocated mem cs \<lparr>object_id = obj, cap_type = ty, rights = rt, in_use = 1\<rparr> cs' r
    else cspace_alloc_slot mem ty rt obj cs = Some (cs, - 1)"
proof -
  let ?c = "\<lparr>object_id = obj, cap_type = ty, rights = rt, in_use = 1\<rparr>"
  let ?n = "length (array_of (slots cs))"
  obtain sp g where gr: "cspace_grow mem cs = Some (sp, g)"
      "g = - 1 \<and> sp = cs \<and> \<not> can_grow mem cs \<or> g = 0 \<and> cspace_wf sp \<and> caps sp = caps cs \<and>
       (cspace_clean cs \<and> cspace_mem_unused mem \<longrightarrow> cspace_clean sp) \<and> can_grow mem cs \<and> grown cs sp"
    using cspace_grow_correct [OF wf mem] by blast
  show ?thesis
  proof (cases "can_grow mem cs")
    case False
    then show ?thesis using a gr by (simp add: cspace_alloc_slot_def cspace_find_slot_def)
  next
    case True
    then have sp: "g = 0" "cspace_wf sp" "caps sp = caps cs" "cspace_mem_unused mem \<longrightarrow> cspace_clean sp" "grown cs sp"
      using gr(2) clean by auto
    obtain sp1 where s1: "cspace_bitmap_alloc sp = Some (sp1, int ?n)" "slots sp1 = slots sp" "max_slots sp1 = max_slots sp"
        "0 < ?n" "?n < length (array_of (slots sp))"
      using grown_lowest [OF wf sp(2,5) bits] by blast
    obtain cs' where f: "write_slot sp1 (int ?n) ?c = Some cs'" "cspace_wf cs'" "cspace_lookup_snapshot cs (int ?n) = Some None"
        "\<forall>i. 0 < i \<and> i < int ?n \<longrightarrow> cspace_lookup_snapshot cs i \<noteq> Some None" "cspace_lookup_snapshot cs' (int ?n) = Some (Some ?c)"
        "\<forall>i. i \<noteq> int ?n \<longrightarrow> cspace_lookup_snapshot cs' i = cspace_lookup_snapshot sp i"
      using fill_lookup [OF wf clean sp(2) s1(1-5), of ?c] bits by (auto simp: caps_def)
    have "cspace_lookup_snapshot sp i = cspace_lookup_snapshot cs i" if "i < max_slots cs \<or> cspace_mem_unused mem" for i
      using that grown_lookup [OF wf sp(2,5)] lookup_snapshot_clean [OF wf clean] lookup_snapshot_clean [OF sp(2)] sp(3,4) by auto
    moreover have "cspace_alloc_slot mem ty rt obj cs = Some (cs', int ?n)"
      using a gr(1) sp(1) s1(1) f(1) by (simp add: cspace_alloc_slot_def cspace_find_slot_def)
    moreover have "space_full cs" using bits by (simp add: space_full_iff [OF wf clean])
    ultimately show ?thesis using f s1(4) True unfolding slot_allocated_def by auto
  qed
qed

lemma alloc_slot_lookup:
  assumes wf: "cspace_wf cs" and clean: "cspace_clean cs" and mem: "cspace_mem_ok mem cs"
  shows "if space_full cs \<and> \<not> can_grow mem cs then cspace_alloc_slot mem ty rt obj cs = Some (cs, - 1)
    else \<exists>cs' r. cspace_alloc_slot mem ty rt obj cs = Some (cs', r) \<and>
      slot_allocated mem cs \<lparr>object_id = obj, cap_type = ty, rights = rt, in_use = 1\<rparr> cs' r"
  using bitmap_alloc_lowest [OF wf]
proof (elim disjE exE conjE)
  assume a: "cspace_bitmap_alloc cs = Some (cs, - 1)"
    and b: "\<forall>i < length (array_of (slots cs)). bit_at (array_of (free_bitmap cs)) i"
  have "space_full cs" using b by (simp add: space_full_iff [OF wf clean])
  then show ?thesis using alloc_slot_grows [OF wf clean mem a b, of ty rt obj] by (simp split: if_splits)
next
  fix r sp1
  assume a: "cspace_bitmap_alloc cs = Some (sp1, int r)" and s: "slots sp1 = slots cs" "max_slots sp1 = max_slots cs"
    and r: "0 < r" "r < length (array_of (slots cs))" and fr: "\<not> bit_at (array_of (free_bitmap cs)) r"
    and low: "\<forall>j < r. bit_at (array_of (free_bitmap cs)) j"
  have "\<not> space_full cs" using r fr by (auto simp: space_full_iff [OF wf clean])
  then show ?thesis using alloc_slot_free [OF wf clean a s r fr low, of mem ty rt obj] by auto
qed

section \<open>Properties\<close>

text \<open>A fresh capability space.\<close>

definition fresh_cspace :: cspace where
  "fresh_cspace = fst (cspace_init \<lparr>cm_slots = Some [], cm_bitmap = Some []\<rparr>
     \<lparr>slots = None, free_bitmap = None, max_slots = 0, bitmap_words = 0\<rparr>)"

lemma fresh_cspace_eq: "fresh_cspace = \<lparr>slots = Some (replicate 256 zero_slot), free_bitmap = Some [1, 0, 0, 0, 0, 0, 0, 0],
    max_slots = 256, bitmap_words = 8\<rparr>"
  by (simp add: fresh_cspace_def cspace_init_def Let_def numeral_eq_Suc)

lemma fresh_bit_at: "i < 256 \<Longrightarrow> bit_at [1, 0, 0, 0, 0, 0, 0, 0 :: u32] i \<longleftrightarrow> i = 0"
proof -
  have "list_all (\<lambda>i. bit_at [1, 0, 0, 0, 0, 0, 0, 0 :: u32] i \<longleftrightarrow> i = 0) [0..<256]"
    by code_simp
  then show "i < 256 \<Longrightarrow> bit_at [1, 0, 0, 0, 0, 0, 0, 0 :: u32] i \<longleftrightarrow> i = 0"
    by (simp add: list_all_iff)
qed

lemma fresh_cspace_ok: "cspace_wf fresh_cspace" "cspace_clean fresh_cspace" "caps fresh_cspace = (\<lambda>_. None)"
  unfolding fresh_cspace_eq cspace_wf_def cspace_clean_def caps_def
  using fresh_bit_at by (auto simp: zero_slot_def)

definition one_cap_cspace :: cspace where
  "one_cap_cspace = fst (the (cspace_alloc_slot no_mem CAP_PORT CAP_SEND 0x1000 fresh_cspace))"

lemma one_cap_cspace_ok: "cspace_wf one_cap_cspace" "cspace_clean one_cap_cspace"
    "caps one_cap_cspace = [1 \<mapsto> \<lparr>object_id = 0x1000, cap_type = CAP_PORT, rights = CAP_SEND, in_use = 1\<rparr>]"
proof -
  obtain cs r where 1: "cspace_alloc_slot no_mem CAP_PORT CAP_SEND 0x1000 fresh_cspace = Some (cs, r)" "cspace_wf cs" "cspace_clean cs"
    "r = - 1 \<and> caps cs = (\<lambda>_. None) \<or> 0 < r \<and> caps cs = [nat r \<mapsto> \<lparr>object_id = 0x1000, cap_type = CAP_PORT, rights = CAP_SEND, in_use = 1\<rparr>]"
    using alloc_slot_correct [OF fresh_cspace_ok(1) no_mem_ok(1), of CAP_PORT CAP_SEND "0x1000"] fresh_cspace_ok no_mem_ok by auto
  have "map_option snd (cspace_alloc_slot no_mem CAP_PORT CAP_SEND 0x1000 fresh_cspace) = Some 1"
    by code_simp
  then have "r = 1" using 1(1) by simp
  then show "cspace_wf one_cap_cspace" "cspace_clean one_cap_cspace"
    "caps one_cap_cspace = [1 \<mapsto> \<lparr>object_id = 0x1000, cap_type = CAP_PORT, rights = CAP_SEND, in_use = 1\<rparr>]"
    using 1 by (auto simp: one_cap_cspace_def)
qed





text \<open>
  C24. Freeing a held capability empties its slot, gives back the reference a port capability owns, and a
  later lookup or second free of the slot fails.
\<close>
theorem cspace_free_slot_revokes:
  assumes "cspace_wf cs" and "cspace_clean cs" and "caps cs i = Some c" and "ports_inv st"
  shows "\<exists>cs' st'. cspace_free_slot cs (int i) st = Some (cs', st', 0) \<and> caps cs' = (caps cs)(i := None) \<and>
    cspace_lookup_snapshot cs' (int i) = Some None \<and> cspace_free_slot cs' (int i) st' = Some (cs', st', - 1) \<and>
    ports_inv st' \<and> (if cap_type c = CAP_PORT then port_release (object_id c) st = Some st' else st' = st)"
proof -
  obtain cs' st' where *: "cspace_free_slot cs (int i) st = Some (cs', st', 0)" "cspace_wf cs'" "caps cs' = (caps cs)(i := None)"
    "cspace_clean cs'" "ports_inv st'" "if cap_type c = CAP_PORT then port_release (object_id c) st = Some st' else st' = st"
    using free_slot_held [OF assms(1,3,4)] assms(2) by blast
  have look: "cspace_lookup_snapshot cs' (int i) = Some None"
    using lookup_snapshot_clean [OF *(2,4), of "int i"] *(3) by simp
  then have "cspace_free_slot cs' (int i) st' = Some (cs', st', - 1)"
    by (auto simp: cspace_lookup_snapshot_def cspace_free_slot_def nth_opt_def split: if_splits)
  then show ?thesis using * look by blast
qed

theorem cspace_free_slot_revokes_witness:
  "\<exists>cs' st'. cspace_free_slot one_cap_cspace 1 example_pstate = Some (cs', st', 0) \<and>
    cspace_lookup_snapshot cs' 1 = Some None \<and> cspace_free_slot cs' 1 st' = Some (cs', st', - 1)"
  using cspace_free_slot_revokes [OF one_cap_cspace_ok(1,2) _ example_pstate_inv, of 1] one_cap_cspace_ok(3)
  by auto

text \<open>
  Handles round-trip: decoding the handle built for a task and a slot gives back the task and the slot.
\<close>
lemma handle_round_trip:
  assumes "0 \<le> slot" and "slot < 2 ^ 31"
  shows "handle_task_id (task_make_handle t slot) = t \<and> handle_slot (task_make_handle t slot) = slot"
  using handle_task_id_make handle_slot_make [OF assms] by simp

lemma handle_round_trip_witness:
  "task_make_handle 7 300 = 0x70000012C \<and> handle_task_id 0x70000012C = 7 \<and> handle_slot 0x70000012C = 300"
proof -
  have "task_make_handle 7 300 = 0x70000012C" by (simp add: task_make_handle_def)
  then show ?thesis using handle_round_trip [of 300 7] by simp
qed

section \<open>Growth exposes stale memory\<close>

text \<open>A full space, and memory that still holds an old slot array.\<close>

definition full_cspace :: cspace where
  "full_cspace = \<lparr>slots = Some (zero_slot # replicate 255 \<lparr>object_id = 9, cap_type = CAP_MEMORY, rights = CAP_READ, in_use = 1\<rparr>),
     free_bitmap = Some (replicate 8 0xFFFFFFFF), max_slots = 256, bitmap_words = 8\<rparr>"

definition stale_mem :: cspace_mem where
  "stale_mem = \<lparr>cm_slots = Some (replicate 512 \<lparr>object_id = 0xDEAD, cap_type = CAP_PORT, rights = CAP_SEND, in_use = 1\<rparr>),
     cm_bitmap = Some (replicate 16 0)\<rparr>"

lemma full_bit_at: "i < 256 \<Longrightarrow> bit_at (replicate 8 (0xFFFFFFFF :: u32)) i"
proof -
  have "list_all (bit_at (replicate 8 (0xFFFFFFFF :: u32))) [0..<256]" by code_simp
  then show "i < 256 \<Longrightarrow> bit_at (replicate 8 (0xFFFFFFFF :: u32)) i" by (simp add: list_all_iff)
qed

lemma full_cspace_ok: "cspace_wf full_cspace" "cspace_clean full_cspace"
  unfolding cspace_wf_def cspace_clean_def full_cspace_def
  using full_bit_at by (auto simp: zero_slot_def nth_Cons split: nat.splits)

text \<open>
  \<^verbatim>\<open>cspace_grow\<close> does not initialise the slots it adds: with a well-formed, clean but full space and
  memory of the right size that holds old data, one allocation makes a slot that was never allocated
  answer a lookup with a port capability nobody granted.
\<close>
lemma cspace_grow_exposes_stale_slots:
  "cspace_wf full_cspace \<and> cspace_clean full_cspace \<and> cspace_mem_ok stale_mem full_cspace \<and>
   (\<exists>cs'. cspace_alloc_slot stale_mem CAP_MEMORY CAP_READ 5 full_cspace = Some (cs', 256) \<and> caps cs' 300 = None \<and>
     cspace_lookup_snapshot cs' 300 = Some (Some \<lparr>object_id = 0xDEAD, cap_type = CAP_PORT, rights = CAP_SEND, in_use = 1\<rparr>))"
proof -
  have "case cspace_alloc_slot stale_mem CAP_MEMORY CAP_READ 5 full_cspace of None \<Rightarrow> False | Some (cs', r) \<Rightarrow>
      r = 256 \<and> caps cs' 300 = None \<and>
      cspace_lookup_snapshot cs' 300 = Some (Some \<lparr>object_id = 0xDEAD, cap_type = CAP_PORT, rights = CAP_SEND, in_use = 1\<rparr>)"
    by code_simp
  moreover have "cspace_mem_ok stale_mem full_cspace"
    by (simp add: cspace_mem_ok_def stale_mem_def full_cspace_def)
  ultimately show ?thesis using full_cspace_ok by (auto split: option.splits)
qed

end
