(* ===== verification/VmObject.thy ===== *)
theory VmObject
  imports Pmm
begin

unbundle bit_operations_syntax

text \<open>
  Memory objects of \<^verbatim>\<open>mk/vm/vm_object.c\<close>: anonymous, fixed physical, shared, copy-on-write shadow
  and user-paged memory, with their reference counts and their fault handlers.

  The state holds the live objects by address, the page allocator and the contents of the
  physical page frames.  The union of the C structure and its type and fault-function fields are
  the datatype \<open>obj_kind\<close>.  A fault handler returns \<open>Inl\<close> an error code or \<open>Inr\<close> the physical address
  it stores in the page descriptor.  The reference count, an \<^verbatim>\<open>int\<close> of the code, is an unbounded integer
  here: the theorems hold while no object has 2 to the power 31 references.

  Arguments that stand for code outside this component: the addresses \<^verbatim>\<open>kmalloc\<close> returns, and the
  record \<open>vm_env\<close>: which physical addresses \<^verbatim>\<open>vmm_temp_map\<close> can map, which physical pages the kernel has
  mapped at the same virtual address, whether \<^verbatim>\<open>kcalloc\<close> succeeds, and the user-level pager protocol.

  The theorems give the reference-count discipline (an object is freed exactly when its last
  reference goes, its cached pages return to the page allocator, and the chain of parents is
  released), the behaviour of each fault handler, that a fault always returns, and two
  consequences of the copy-on-write handler as written.
\<close>

datatype obj_kind =
    ObjAnon
  | ObjPhys u64
  | ObjShared "u64 list option" u32
  | ObjShadow u64 "u64 list" int
  | ObjUserPaged

record vm_object =
  vo_ref :: int
  vo_kind :: obj_kind
  vo_size :: u64
  vo_port :: u64

record vmstate =
  vm_pmm :: pmm
  objs :: "u64 \<rightharpoonup> vm_object"
  frames :: "u64 \<Rightarrow> nat \<Rightarrow> u8"

type_synonym fault_result = "(vmstate \<times> (int + u64)) option"

record vm_env =
  temp_map :: "u64 \<Rightarrow> bool"
  ident_map :: "u64 \<Rightarrow> bool"
  kcalloc_ok :: bool
  pager :: "u64 \<Rightarrow> u64 \<Rightarrow> u64 \<Rightarrow> u32 \<Rightarrow> vmstate \<Rightarrow> fault_result"

abbreviation VM_PROT_READ :: u32 where "VM_PROT_READ \<equiv> 1"
abbreviation VM_PROT_WRITE :: u32 where "VM_PROT_WRITE \<equiv> 2"
abbreviation VM_PROT_EXEC :: u32 where "VM_PROT_EXEC \<equiv> 4"

fun obj_parent :: "obj_kind \<Rightarrow> u64" where
  "obj_parent (ObjShadow p _ _) = p"
| "obj_parent _ = NULL"

fun obj_copied :: "obj_kind \<Rightarrow> u64 list" where
  "obj_copied (ObjShadow _ m _) = m"
| "obj_copied _ = []"

fun is_shadow :: "obj_kind \<Rightarrow> bool" where
  "is_shadow (ObjShadow _ _ _) = True"
| "is_shadow _ = False"

section \<open>Creation\<close>

definition vm_object_alloc :: "u64 \<Rightarrow> obj_kind \<Rightarrow> u64 \<Rightarrow> u64 \<Rightarrow> vmstate \<Rightarrow> vmstate \<times> u64" where
  "vm_object_alloc ptr kind port sz st =
     (if sz = 0 then (st, NULL)
      else if ptr = NULL then (st, NULL)
      else (st\<lparr>objs := (objs st)(ptr \<mapsto> \<lparr>vo_ref = 1, vo_kind = kind, vo_size = sz, vo_port = port\<rparr>)\<rparr>, ptr))"

definition vm_object_create_anon :: "u64 \<Rightarrow> u64 \<Rightarrow> vmstate \<Rightarrow> vmstate \<times> u64" where
  "vm_object_create_anon ptr sz = vm_object_alloc ptr ObjAnon 0 sz"

definition vm_object_create_phys :: "u64 \<Rightarrow> u64 \<Rightarrow> u64 \<Rightarrow> vmstate \<Rightarrow> vmstate \<times> u64" where
  "vm_object_create_phys ptr phys_base sz = vm_object_alloc ptr (ObjPhys phys_base) 0 sz"

definition vm_object_create_shared :: "u64 \<Rightarrow> u64 \<Rightarrow> vmstate \<Rightarrow> vmstate \<times> u64" where
  "vm_object_create_shared ptr sz = vm_object_alloc ptr (ObjShared None 0) 0 sz"

definition vm_object_create_user_paged :: "u64 \<Rightarrow> u64 \<Rightarrow> u64 \<Rightarrow> vmstate \<Rightarrow> vmstate \<times> u64" where
  "vm_object_create_user_paged ptr sz port = vm_object_alloc ptr ObjUserPaged port sz"

definition vm_object_retain :: "u64 \<Rightarrow> vmstate \<Rightarrow> vmstate option" where
  "vm_object_retain a st =
     (if a = NULL then Some st
      else do {
        ob \<leftarrow> objs st a;
        Some (st\<lparr>objs := (objs st)(a \<mapsto> ob\<lparr>vo_ref := vo_ref ob + 1\<rparr>)\<rparr>)
      })"

text \<open>The two assignments to the \<^verbatim>\<open>int\<close> field \<^verbatim>\<open>map_nwords\<close>, with their truncations.\<close>

definition shadow_nwords :: "u64 \<Rightarrow> 32 word" where
  "shadow_nwords sz =
     (let pages = (ucast ((sz + PAGE_SIZE - 1) div PAGE_SIZE) :: 32 word)
      in ucast ((scast pages + 64 - 1 :: u64) div 64))"

definition vm_object_create_shadow :: "u64 \<Rightarrow> bool \<Rightarrow> u64 \<Rightarrow> vmstate \<Rightarrow> (vmstate \<times> u64) option" where
  "vm_object_create_shadow ptr ok parent st =
     (if parent = NULL then Some (st, NULL)
      else do {
        pa \<leftarrow> objs st parent;
        let n = shadow_nwords (vo_size pa);
        let words = unat (scast n :: u64);
        let (st', obj) = vm_object_alloc ptr (ObjShadow parent (replicate words 0) (sint n)) 0 (vo_size pa) st;
        if obj = NULL then Some (st, NULL)
        else if \<not> ok then Some (st'\<lparr>objs := (objs st')(obj := None)\<rparr>, NULL)
        else do {
          st' \<leftarrow> vm_object_retain parent st';
          Some (st', obj)
        }
      })"

section \<open>Release\<close>

definition free_cached_pages :: "u64 list \<Rightarrow> u32 \<Rightarrow> pmm \<Rightarrow> pmm option" where
  "free_cached_pages pages cap = foldM (\<lambda>i pm. do {
     p \<leftarrow> nth_opt pages i;
     if p \<noteq> 0 then pmm_free_page p pm else Some pm
   }) [0..<unat cap]"

definition release_pages :: "obj_kind \<Rightarrow> vmstate \<Rightarrow> vmstate option" where
  "release_pages k st = (case k of
     ObjShared (Some pages) cap \<Rightarrow> do { pm \<leftarrow> free_cached_pages pages cap (vm_pmm st); Some (st\<lparr>vm_pmm := pm\<rparr>) }
   | _ \<Rightarrow> Some st)"

partial_function (option) vm_object_release :: "u64 \<Rightarrow> vmstate \<Rightarrow> vmstate option" where
  "vm_object_release a st =
     (if a = NULL then Some st
      else do {
        ob \<leftarrow> objs st a;
        if vo_ref ob = 0 then Some st
        else do {
          let st = st\<lparr>objs := (objs st)(a \<mapsto> ob\<lparr>vo_ref := vo_ref ob - 1\<rparr>)\<rparr>;
          if vo_ref ob - 1 \<noteq> 0 then Some st
          else do {
            st \<leftarrow> (if obj_parent (vo_kind ob) \<noteq> NULL then vm_object_release (obj_parent (vo_kind ob)) st else Some st);
            st \<leftarrow> release_pages (vo_kind ob) st;
            Some (st\<lparr>objs := (objs st)(a := None)\<rparr>)
          }
        }
      })"

section \<open>Fault handlers\<close>

definition zero_page :: "nat \<Rightarrow> u8" where
  "zero_page = (\<lambda>_. 0)"

text \<open>Allocating a zeroed page, the common part of the anonymous and the shared handler.\<close>

definition alloc_zeroed_page :: "vm_env \<Rightarrow> vmstate \<Rightarrow> fault_result" where
  "alloc_zeroed_page env st = do {
     (pm, phys) \<leftarrow> pmm_alloc_page (vm_pmm st);
     let st = st\<lparr>vm_pmm := pm\<rparr>;
     if phys = NULL then Some (st, Inl (- 1))
     else if \<not> temp_map env phys then do {
       pm \<leftarrow> pmm_free_page phys pm;
       Some (st\<lparr>vm_pmm := pm\<rparr>, Inl (- 1))
     }
     else Some (st\<lparr>frames := (frames st)(phys := zero_page)\<rparr>, Inr phys)
   }"

definition vm_object_anon_fault :: "vm_env \<Rightarrow> u64 \<Rightarrow> u64 \<Rightarrow> vmstate \<Rightarrow> fault_result" where
  "vm_object_anon_fault env a offset st = do {
     ob \<leftarrow> objs st a;
     if offset \<ge> vo_size ob then Some (st, Inl (- 1)) else alloc_zeroed_page env st
   }"

definition vm_object_phys_fault :: "u64 \<Rightarrow> u64 \<Rightarrow> u64 \<Rightarrow> vmstate \<Rightarrow> fault_result" where
  "vm_object_phys_fault phys_base a offset st = do {
     ob \<leftarrow> objs st a;
     if offset \<ge> vo_size ob then Some (st, Inl (- 1))
     else Some (st, Inr (phys_base + (offset AND NOT 4095)))
   }"

text \<open>The doubling loop on a 32-bit capacity; it does not return when the capacity wraps to zero.\<close>

partial_function (option) grow_cap :: "u32 \<Rightarrow> u64 \<Rightarrow> u32 option" where
  "grow_cap new_cap page_idx = (if (ucast new_cap :: u64) \<le> page_idx then grow_cap (new_cap * 2) page_idx else Some new_cap)"

definition shared_grow :: "vm_env \<Rightarrow> u64 list option \<Rightarrow> u32 \<Rightarrow> u64 \<Rightarrow> (u64 list option \<times> u32) option option" where
  "shared_grow env pages cap page_idx =
     (if page_idx \<ge> (ucast cap :: u64) then do {
        new_cap \<leftarrow> grow_cap (if cap = 0 then 64 else cap * 2) page_idx;
        if \<not> kcalloc_ok env then Some None
        else do {
          new_pages \<leftarrow> (case pages of
             None \<Rightarrow> Some (replicate (unat new_cap) 0)
           | Some ps \<Rightarrow> if unat cap \<le> length ps \<and> unat cap \<le> unat new_cap
               then Some (take (unat cap) ps @ replicate (unat new_cap - unat cap) 0) else None);
          Some (Some (Some new_pages, new_cap))
        }
      }
      else Some (Some (pages, cap)))"

definition set_kind :: "u64 \<Rightarrow> obj_kind \<Rightarrow> vmstate \<Rightarrow> vmstate option" where
  "set_kind a k st = do { ob \<leftarrow> objs st a; Some (st\<lparr>objs := (objs st)(a \<mapsto> ob\<lparr>vo_kind := k\<rparr>)\<rparr>) }"

definition vm_object_shared_fault ::
  "vm_env \<Rightarrow> u64 list option \<Rightarrow> u32 \<Rightarrow> u64 \<Rightarrow> u64 \<Rightarrow> vmstate \<Rightarrow> fault_result" where
  "vm_object_shared_fault env pages cap a offset st = do {
     ob \<leftarrow> objs st a;
     if offset \<ge> vo_size ob then Some (st, Inl (- 1))
     else do {
       let page_idx = offset div PAGE_SIZE;
       g \<leftarrow> shared_grow env pages cap page_idx;
       case g of
         None \<Rightarrow> Some (st, Inl (- 1))
       | Some (pages, cap) \<Rightarrow> do {
           st \<leftarrow> set_kind a (ObjShared pages cap) st;
           ps \<leftarrow> pages;
           cached \<leftarrow> nth_opt ps (unat page_idx);
           if cached \<noteq> 0 then Some (st, Inr cached)
           else do {
             (st, r) \<leftarrow> alloc_zeroed_page env st;
             case r of
               Inl e \<Rightarrow> Some (st, Inl e)
             | Inr phys \<Rightarrow> do {
                 st \<leftarrow> set_kind a (ObjShared (Some (ps[unat page_idx := phys])) cap) st;
                 Some (st, Inr phys)
               }
           }
         }
     }
   }"

definition vm_object_user_paged_fault :: "vm_env \<Rightarrow> u64 \<Rightarrow> u64 \<Rightarrow> bool \<Rightarrow> vmstate \<Rightarrow> fault_result" where
  "vm_object_user_paged_fault env a offset write_fault st = do {
     ob \<leftarrow> objs st a;
     if offset \<ge> vo_size ob then Some (st, Inl (- 1))
     else do {
       let prot = (if write_fault then VM_PROT_READ OR VM_PROT_WRITE else VM_PROT_READ);
       pager env (vo_port ob) a offset prot st
     }
   }"

text \<open>
  The copy-on-write handler; \<open>fault\<close> is the indirect call through the parent's fault pointer.  The
  copy writes to the physical address of the new page as if it were a virtual address.
\<close>

definition shadow_word_idx :: "u64 \<Rightarrow> int" where
  "shadow_word_idx offset = sint (ucast (offset div PAGE_SIZE div 64) :: 32 word)"

definition shadow_mask :: "u64 \<Rightarrow> u64" where
  "shadow_mask offset = push_bit (unat (offset div PAGE_SIZE mod 64)) 1"

definition mark_copied :: "u64 \<Rightarrow> u64 \<Rightarrow> vmstate \<Rightarrow> vmstate option" where
  "mark_copied a offset st = do {
     ob \<leftarrow> objs st a;
     case vo_kind ob of
       ObjShadow p m n \<Rightarrow> do {
         w \<leftarrow> nth_opt m (nat (shadow_word_idx offset));
         m \<leftarrow> upd_opt m (nat (shadow_word_idx offset)) (w OR shadow_mask offset);
         set_kind a (ObjShadow p m n) st
       }
     | _ \<Rightarrow> None
   }"

definition vm_object_shadow_fault ::
  "vm_env \<Rightarrow> (u64 \<Rightarrow> u64 \<Rightarrow> bool \<Rightarrow> vmstate \<Rightarrow> fault_result) \<Rightarrow> u64 \<Rightarrow> u64 \<Rightarrow> bool \<Rightarrow> vmstate \<Rightarrow> fault_result" where
  "vm_object_shadow_fault env fault a offset write_fault st = do {
     ob \<leftarrow> objs st a;
     let parent = obj_parent (vo_kind ob);
     if offset \<ge> vo_size ob \<or> parent = NULL then Some (st, Inl (- 1))
     else do {
       w \<leftarrow> (if shadow_word_idx offset < 0 then None
             else nth_opt (obj_copied (vo_kind ob)) (nat (shadow_word_idx offset)));
       if w AND shadow_mask offset \<noteq> 0 then fault parent offset write_fault st
       else do {
         (st, r) \<leftarrow> fault parent offset False st;
         case r of
           Inl e \<Rightarrow> Some (st, Inl e)
         | Inr parent_phys \<Rightarrow> do {
             (pm, new_page) \<leftarrow> pmm_alloc_page (vm_pmm st);
             let st = st\<lparr>vm_pmm := pm\<rparr>;
             if new_page = NULL then Some (st, Inl (- 1))
             else if \<not> temp_map env parent_phys then do {
               pm \<leftarrow> pmm_free_page new_page pm;
               Some (st\<lparr>vm_pmm := pm\<rparr>, Inl (- 1))
             }
             else if \<not> ident_map env new_page then None
             else do {
               st \<leftarrow> mark_copied a offset
                 (st\<lparr>frames := (frames st)(new_page := frames st (parent_phys AND NOT 4095))\<rparr>);
               Some (st, Inr new_page)
             }
           }
       }
     }
   }"

text \<open>The call through an object's fault pointer.\<close>

definition leaf_fault :: "vm_env \<Rightarrow> obj_kind \<Rightarrow> u64 \<Rightarrow> u64 \<Rightarrow> bool \<Rightarrow> vmstate \<Rightarrow> fault_result" where
  "leaf_fault env k a offset write_fault st = (case k of
     ObjAnon \<Rightarrow> vm_object_anon_fault env a offset st
   | ObjPhys phys_base \<Rightarrow> vm_object_phys_fault phys_base a offset st
   | ObjShared pages cap \<Rightarrow> vm_object_shared_fault env pages cap a offset st
   | ObjUserPaged \<Rightarrow> vm_object_user_paged_fault env a offset write_fault st
   | ObjShadow _ _ _ \<Rightarrow> None)"

lemma shadow_fault_mono [partial_function_mono]:
  assumes "\<And>p off w s. mono_option (\<lambda>f. F f p off w s)"
  shows "mono_option (\<lambda>f. vm_object_shadow_fault env (F f) a offset write_fault st)"
  unfolding vm_object_shadow_fault_def Let_def
  by (intro partial_function_mono assms)

partial_function (option) vm_object_fault :: "vm_env \<Rightarrow> u64 \<Rightarrow> u64 \<Rightarrow> bool \<Rightarrow> vmstate \<Rightarrow> fault_result" where
  "vm_object_fault env a offset write_fault st = do {
     ob \<leftarrow> objs st a;
     if is_shadow (vo_kind ob)
     then vm_object_shadow_fault env (\<lambda>p off w s. vm_object_fault env p off w s) a offset write_fault st
     else leaf_fault env (vo_kind ob) a offset write_fault st
   }"

declare vm_object_release.simps [code] grow_cap.simps [code] vm_object_fault.simps [code]

section \<open>Invariants\<close>

text \<open>
  \<open>ext a\<close> counts the references to object \<open>a\<close> that are held outside the object store (by address
  maps and capabilities); the remaining references come from shadow objects.
\<close>

definition parent_of :: "vmstate \<Rightarrow> u64 \<Rightarrow> u64" where
  "parent_of st b = (case objs st b of None \<Rightarrow> NULL | Some ob \<Rightarrow> obj_parent (vo_kind ob))"

definition children :: "vmstate \<Rightarrow> u64 \<Rightarrow> u64 set" where
  "children st a = {b. a \<noteq> NULL \<and> parent_of st b = a}"

definition parent_rel :: "vmstate \<Rightarrow> (u64 \<times> u64) set" where
  "parent_rel st = {(parent_of st b, b) |b. parent_of st b \<noteq> NULL}"

lemma in_parent_rel: "(x, y) \<in> parent_rel st \<longleftrightarrow> x = parent_of st y \<and> x \<noteq> NULL"
  by (auto simp: parent_rel_def)

definition refs_inv :: "(u64 \<Rightarrow> nat) \<Rightarrow> vmstate \<Rightarrow> bool" where
  "refs_inv ext st \<longleftrightarrow>
     finite (dom (objs st)) \<and> objs st NULL = None \<and> wf (parent_rel st) \<and>
     (\<forall>a ob. objs st a = Some ob \<longrightarrow> vo_ref ob = int (ext a + card (children st a)) \<and> 0 < vo_ref ob) \<and>
     (\<forall>a. objs st a = None \<longrightarrow> ext a = 0 \<and> children st a = {})"

fun shared_pages :: "obj_kind \<Rightarrow> u64 list" where
  "shared_pages (ObjShared (Some ps) _) = ps"
| "shared_pages _ = []"

text \<open>The pages of the shared objects are tracked pages in use, each cached once.\<close>

definition cached_at :: "vmstate \<Rightarrow> u64 \<Rightarrow> nat \<Rightarrow> u64" where
  "cached_at st a i = (case objs st a of
     None \<Rightarrow> 0
   | Some ob \<Rightarrow> if i < length (shared_pages (vo_kind ob)) then shared_pages (vo_kind ob) ! i else 0)"

definition pages_inv :: "vmstate \<Rightarrow> bool" where
  "pages_inv st \<longleftrightarrow> pmm_inv (vm_pmm st) \<and>
     (\<forall>a i. cached_at st a i \<noteq> 0 \<longrightarrow> cached_at st a i AND 4095 = 0 \<and>
        page_no (cached_at st a i) < unat (total_pages (vm_pmm st)) \<and>
        page_no (cached_at st a i) \<notin> pmm_free (vm_pmm st)) \<and>
     (\<forall>a i b j. cached_at st a i \<noteq> 0 \<and> cached_at st a i = cached_at st b j \<longrightarrow> a = b \<and> i = j)"

abbreviation VM_SIZE_MAX :: nat where "VM_SIZE_MAX \<equiv> 8796093018112"

fun kind_ok :: "nat \<Rightarrow> obj_kind \<Rightarrow> bool" where
  "kind_ok sz (ObjShared None cap) \<longleftrightarrow> cap = 0"
| "kind_ok sz (ObjShared (Some ps) cap) \<longleftrightarrow> length ps = unat cap \<and> (\<exists>j. 6 \<le> j \<and> j < 32 \<and> unat cap = 2 ^ j)"
| "kind_ok sz (ObjShadow p m n) \<longleftrightarrow> p \<noteq> NULL \<and> sz \<le> length m * 64 * 4096"
| "kind_ok sz _ \<longleftrightarrow> True"

definition kinds_ok :: "vmstate \<Rightarrow> bool" where
  "kinds_ok st \<longleftrightarrow> (\<forall>a ob. objs st a = Some ob \<longrightarrow>
     vo_size ob \<noteq> 0 \<and> unat (vo_size ob) \<le> VM_SIZE_MAX \<and> kind_ok (unat (vo_size ob)) (vo_kind ob))"

definition vmo_inv :: "(u64 \<Rightarrow> nat) \<Rightarrow> vmstate \<Rightarrow> bool" where
  "vmo_inv ext st \<longleftrightarrow> refs_inv ext st \<and> pages_inv st \<and> kinds_ok st"

section \<open>The object graph\<close>

lemma refs_invD:
  assumes "refs_inv ext st"
  shows "finite (dom (objs st))" and "objs st NULL = None" and "wf (parent_rel st)"
    and "objs st a = Some ob \<Longrightarrow> vo_ref ob = int (ext a + card (children st a)) \<and> 0 < vo_ref ob"
    and "objs st a = None \<Longrightarrow> ext a = 0 \<and> children st a = {}"
  using assms unfolding refs_inv_def by blast+

lemma refs_invI:
  assumes "finite (dom (objs st))" and "objs st NULL = None" and "wf (parent_rel st)"
    and "\<And>a ob. objs st a = Some ob \<Longrightarrow> vo_ref ob = int (ext a + card (children st a))"
    and "\<And>a ob. objs st a = Some ob \<Longrightarrow> 0 < vo_ref ob"
    and "\<And>a. objs st a = None \<Longrightarrow> ext a = 0 \<and> children st a = {}"
  shows "refs_inv ext st"
  using assms unfolding refs_inv_def by blast

lemma refs_inv_live:
  assumes "refs_inv ext st" and "0 < ext a \<or> children st a \<noteq> {}"
  shows "\<exists>ob. objs st a = Some ob"
  using refs_invD(5) [OF assms(1), of a] assms(2) by fastforce

lemma parent_live:
  assumes "refs_inv ext st" and "parent_of st b \<noteq> NULL"
  shows "\<exists>ob. objs st (parent_of st b) = Some ob"
  by (rule refs_inv_live [OF assms(1)]) (use assms(2) in \<open>auto simp: children_def\<close>)

lemma finite_children:
  assumes "refs_inv ext st"
  shows "finite (children st a)"
proof (rule finite_subset)
  show "children st a \<subseteq> dom (objs st)"
    by (auto simp: children_def parent_of_def dom_def split: option.splits)
qed (rule refs_invD(1) [OF assms])

text \<open>Updates that keep every object's parent keep the graph.\<close>

definition obj_same :: "vm_object option \<Rightarrow> vm_object option \<Rightarrow> bool" where
  "obj_same x y \<longleftrightarrow> (case (x, y) of
     (None, None) \<Rightarrow> True
   | (Some ob, Some ob') \<Rightarrow> vo_ref ob' = vo_ref ob \<and> vo_size ob' = vo_size ob \<and> vo_port ob' = vo_port ob \<and>
       obj_parent (vo_kind ob') = obj_parent (vo_kind ob)
   | _ \<Rightarrow> False)"

definition same_graph :: "vmstate \<Rightarrow> vmstate \<Rightarrow> bool" where
  "same_graph st st' \<longleftrightarrow> (\<forall>a. obj_same (objs st a) (objs st' a))"

lemma obj_same_refl [simp]: "obj_same x x"
  by (auto simp: obj_same_def split: option.splits)

lemma obj_same_trans: "obj_same x y \<Longrightarrow> obj_same y z \<Longrightarrow> obj_same x z"
  by (auto simp: obj_same_def split: option.splits)

lemma obj_same_Some: "obj_same (Some ob) y \<Longrightarrow> \<exists>ob'. y = Some ob' \<and> vo_ref ob' = vo_ref ob \<and> vo_size ob' = vo_size ob
    \<and> vo_port ob' = vo_port ob \<and> obj_parent (vo_kind ob') = obj_parent (vo_kind ob)"
  by (auto simp: obj_same_def split: option.splits)

lemma obj_same_None: "obj_same x y \<Longrightarrow> x = None \<longleftrightarrow> y = None"
  by (auto simp: obj_same_def split: option.splits)

lemma same_graph_refl [simp]: "same_graph st st"
  by (simp add: same_graph_def)

lemma same_graph_trans: "same_graph st st' \<Longrightarrow> same_graph st' st'' \<Longrightarrow> same_graph st st''"
  by (meson same_graph_def obj_same_trans)

lemma same_graph_objs: "objs st' = objs st \<Longrightarrow> same_graph st st'"
  by (simp add: same_graph_def)

lemma same_graph_parent: "same_graph st st' \<Longrightarrow> parent_of st' = parent_of st"
proof (rule ext)
  fix x assume "same_graph st st'"
  then have "obj_same (objs st x) (objs st' x)" by (simp add: same_graph_def)
  then show "parent_of st' x = parent_of st x"
    by (auto simp: obj_same_def parent_of_def split: option.splits)
qed

lemma same_graph_refs:
  assumes "same_graph st st'" and "refs_inv f st"
  shows "refs_inv f st'"
proof -
  note p = same_graph_parent [OF assms(1)]
  have c: "children st' = children st" and r: "parent_rel st' = parent_rel st"
    by (auto simp: children_def parent_rel_def p)
  have n: "objs st' a = None \<longleftrightarrow> objs st a = None" for a
    using assms(1) obj_same_None [of "objs st a" "objs st' a"] by (auto simp: same_graph_def)
  then have d: "dom (objs st') = dom (objs st)" by (auto simp: dom_def)
  have "\<exists>ob. objs st a = Some ob \<and> vo_ref ob = vo_ref ob'" if "objs st' a = Some ob'" for a ob'
    using assms(1) that unfolding same_graph_def
    by (metis n not_None_eq obj_same_Some option.inject)
  then show ?thesis
    using assms(2) unfolding refs_inv_def c r d n by metis
qed

lemma children_drop: "objs st a = Some ob \<Longrightarrow> children (st\<lparr>objs := (objs st)(a := None)\<rparr>) c = children st c - {a}"
  by (auto simp: children_def parent_of_def)

lemma refs_drop:
  assumes inv: "refs_inv ext st" and a: "objs st a = Some ob" "vo_ref ob = 1" "0 < ext a"
  defines "p \<equiv> obj_parent (vo_kind ob)"
  shows "refs_inv (\<lambda>b. if b = a then 0 else if b = p \<and> p \<noteq> NULL then ext b + 1 else ext b)
    (st\<lparr>objs := (objs st)(a := None)\<rparr>)" (is "refs_inv ?ext ?st")
proof -
  have "int (ext a + card (children st a)) = 1" using refs_invD(4) [OF inv a(1)] a(2) by simp
  then have "ext a = 1" "card (children st a) = 0" using a(3) by linarith+
  then have c0: "ext a = 1" "children st a = {}" using finite_children [OF inv, of a] by auto
  have ch: "children ?st c = children st c - {a}" for c by (rule children_drop [OF a(1)])
  have mem: "a \<in> children st c \<longleftrightarrow> c \<noteq> NULL \<and> c = p" for c
    by (auto simp: children_def parent_of_def a p_def)
  have card: "?ext c + card (children ?st c) = ext c + card (children st c)" if "c \<noteq> a" for c
  proof (cases "c = p \<and> p \<noteq> NULL")
    case True
    then have "a \<in> children st c" using mem by simp
    then have "card (children st c) = Suc (card (children st c - {a}))"
      using finite_children [OF inv] by (metis card.remove)
    then show ?thesis using True that by (simp add: ch)
  next
    case False
    then have "children st c - {a} = children st c" using mem by auto
    then show ?thesis using False that by (simp add: ch)
  qed
  have "parent_rel ?st \<subseteq> parent_rel st"
    by (auto simp: parent_rel_def parent_of_def)
  then have wf: "wf (parent_rel ?st)" using refs_invD(3) [OF inv] by (rule wf_subset [rotated])
  have live: "vo_ref o' = int (?ext b + card (children ?st b)) \<and> 0 < vo_ref o'" if "objs ?st b = Some o'" for b o'
    using that refs_invD(4) [OF inv, of b o'] card [of b] by (auto split: if_splits)
  have dead: "?ext b = 0 \<and> children ?st b = {}" if "objs ?st b = None" for b
  proof (cases "b = a")
    case True
    then show ?thesis using c0(2) by (simp add: ch)
  next
    case False
    then have "ext b = 0" "children st b = {}" using that refs_invD(5) [OF inv, of b] by auto
    then show ?thesis using card [OF False] mem [of b] False by (auto simp: ch)
  qed
  show ?thesis
  proof (rule refs_invI)
    show "finite (dom (objs ?st))" "objs ?st NULL = None"
      using refs_invD(1,2) [OF inv] by simp_all
  qed (use wf live dead in blast)+
qed

lemma set_ref_graph:
  fixes n :: int
  assumes "objs st a = Some ob"
  defines "st' \<equiv> st\<lparr>objs := (objs st)(a \<mapsto> ob\<lparr>vo_ref := n\<rparr>)\<rparr>"
  shows "parent_of st' = parent_of st" and "children st' = children st" and "parent_rel st' = parent_rel st"
proof -
  show "parent_of st' = parent_of st"
    using assms(1) by (auto simp: parent_of_def st'_def fun_eq_iff)
  then show "children st' = children st" and "parent_rel st' = parent_rel st"
    by (simp_all add: children_def parent_rel_def fun_eq_iff)
qed

lemma refs_set_ref:
  assumes inv: "refs_inv ext st" and a: "objs st a = Some ob"
    and n: "0 < n + card (children st a)"
  shows "refs_inv (ext(a := n))
    (st\<lparr>objs := (objs st)(a \<mapsto> ob\<lparr>vo_ref := int (n + card (children st a))\<rparr>)\<rparr>)" (is "refs_inv _ ?st")
proof -
  note c = set_ref_graph(2,3) [OF a]
  show ?thesis
  proof (rule refs_invI)
    show "finite (dom (objs ?st))" "objs ?st NULL = None" "wf (parent_rel ?st)"
      using refs_invD(1,2,3) [OF inv] a by (auto simp: c)
    fix b o' assume b: "objs ?st b = Some o'"
    show "vo_ref o' = int ((ext(a := n)) b + card (children ?st b))"
      using b refs_invD(4) [OF inv, of b o'] unfolding c by (auto split: if_splits)
    show "0 < vo_ref o'"
      using b n refs_invD(4) [OF inv, of b o'] by (auto split: if_splits)
  next
    fix b assume "objs ?st b = None"
    then show "(ext(a := n)) b = 0 \<and> children ?st b = {}"
      using refs_invD(5) [OF inv, of b] unfolding c by (auto split: if_splits)
  qed
qed

section \<open>Releasing a reference\<close>

lemma release_pages_objs:
  "release_pages k (st\<lparr>objs := x\<rparr>) = map_option (\<lambda>st'. st'\<lparr>objs := x\<rparr>) (release_pages k st)"
  by (auto simp: release_pages_def split: obj_kind.splits option.splits bind_split)

lemma release_pages_objs_eq: "release_pages k st = Some st' \<Longrightarrow> objs st' = objs st \<and> frames st' = frames st"
  by (auto simp: release_pages_def split: obj_kind.splits option.splits bind_split_asm)

text \<open>A release never looks at an address that holds no object, so adding one there changes nothing.\<close>

lemma release_frame:
  assumes "vm_object_release p st = Some st'"
  shows "objs st a = None \<longrightarrow>
     objs st' a = None \<and>
     vm_object_release p (st\<lparr>objs := (objs st)(a \<mapsto> z)\<rparr>) = Some (st'\<lparr>objs := (objs st')(a \<mapsto> z)\<rparr>)"
proof (rule vm_object_release.raw_induct [OF _ assms])
  fix rel :: "u64 \<Rightarrow> vmstate \<Rightarrow> vmstate option" and p st st'
  assume 1: "\<And>p st st'. rel p st = Some st' \<Longrightarrow> objs st a = None \<longrightarrow>
      objs st' a = None \<and>
      vm_object_release p (st\<lparr>objs := (objs st)(a \<mapsto> z)\<rparr>) = Some (st'\<lparr>objs := (objs st')(a \<mapsto> z)\<rparr>)"
    "(if p = NULL then Some st
      else do {
        ob \<leftarrow> objs st p;
        if vo_ref ob = 0 then Some st
        else do {
          let st = st\<lparr>objs := (objs st)(p \<mapsto> ob\<lparr>vo_ref := vo_ref ob - 1\<rparr>)\<rparr>;
          if vo_ref ob - 1 \<noteq> 0 then Some st
          else do {
            st \<leftarrow> (if obj_parent (vo_kind ob) \<noteq> NULL then rel (obj_parent (vo_kind ob)) st else Some st);
            st \<leftarrow> release_pages (vo_kind ob) st;
            Some (st\<lparr>objs := (objs st)(p := None)\<rparr>)
          }
        }
      }) = Some st'"
  show "objs st a = None \<longrightarrow> objs st' a = None \<and>
      vm_object_release p (st\<lparr>objs := (objs st)(a \<mapsto> z)\<rparr>) = Some (st'\<lparr>objs := (objs st')(a \<mapsto> z)\<rparr>)"
  proof (rule impI, cases "p = NULL")
    case False
    assume a: "objs st a = None"
    from 1(2) False obtain ob where ob: "objs st p = Some ob" by (auto elim: bind_SomeE)
    with a have pa: "p \<noteq> a" by auto
    let ?st1 = "\<lambda>n. st\<lparr>objs := (objs st)(p \<mapsto> ob\<lparr>vo_ref := n\<rparr>)\<rparr>"
    let ?add = "\<lambda>s :: vmstate. s\<lparr>objs := (objs s)(a \<mapsto> z)\<rparr>"
    have tw: "?add (?st1 n) = (st\<lparr>objs := (objs st)(a \<mapsto> z, p \<mapsto> ob\<lparr>vo_ref := n\<rparr>)\<rparr>)" for n
      using pa by (simp add: fun_upd_twist)
    show "objs st' a = None \<and> vm_object_release p (?add st) = Some (?add st')"
    proof (cases "vo_ref ob = 1")
      case False
      then show ?thesis
        using 1(2) a ob pa \<open>p \<noteq> NULL\<close> tw [of "vo_ref ob - 1"]
        by (subst vm_object_release.simps) (auto simp: Let_def split: if_splits)
    next
      case last: True
      let ?q = "obj_parent (vo_kind ob)"
      obtain st2 st3 where st2: "(if ?q \<noteq> NULL then rel ?q (?st1 0) else Some (?st1 0)) = Some st2"
        and st3: "release_pages (vo_kind ob) st2 = Some st3" and st': "st' = st3\<lparr>objs := (objs st3)(p := None)\<rparr>"
        using 1(2) False ob last by (auto simp: Let_def elim!: bind_SomeE)
      have "objs st2 a = None \<and> (if ?q \<noteq> NULL then vm_object_release ?q (?add (?st1 0)) else Some (?add (?st1 0))) = Some (?add st2)"
        using 1(1) [of ?q "?st1 0" st2] st2 a pa by (auto split: if_splits)
      then have n2: "objs st2 a = None"
        and st2': "(if ?q \<noteq> NULL then vm_object_release ?q (?add (?st1 0)) else Some (?add (?st1 0))) = Some (?add st2)"
        by auto
      have o3: "objs st3 = objs st2" using release_pages_objs_eq [OF st3] by simp
      then have st3': "release_pages (vo_kind ob) (?add st2) = Some (?add st3)"
        using st3 by (simp add: release_pages_objs)
      have "vm_object_release p (?add st) = Some (?add st3\<lparr>objs := (objs (?add st3))(p := None)\<rparr>)"
        using st2' [unfolded tw] st3' ob pa False last
        by (subst vm_object_release.simps) (cases "?q = NULL"; simp add: Let_def)
      then show ?thesis
        using pa n2 o3 by (simp add: st' fun_upd_twist)
    qed
  qed (use 1(2) in \<open>auto simp: vm_object_release.simps [of NULL]\<close>)
qed

text \<open>What may become of an object while others are released: it is gone, or only its count changed.\<close>

definition kept :: "vm_object option \<Rightarrow> vm_object option \<Rightarrow> bool" where
  "kept x y \<longleftrightarrow> y = None \<or> (\<exists>ob n. x = Some ob \<and> y = Some (ob\<lparr>vo_ref := n\<rparr>))"

lemma kept_simps [simp]: "kept x x" "kept x None" "kept (Some ob) (Some (ob\<lparr>vo_ref := n\<rparr>))"
proof -
  have "ob = ob\<lparr>vo_ref := vo_ref ob\<rparr>" for ob :: vm_object by simp
  then show "kept x x" unfolding kept_def by (metis not_None_eq)
qed (auto simp: kept_def)

definition shrinks :: "vmstate \<Rightarrow> vmstate \<Rightarrow> bool" where
  "shrinks st st' \<longleftrightarrow> frames st' = frames st \<and> total_pages (vm_pmm st') = total_pages (vm_pmm st) \<and>
     (\<forall>b. kept (objs st b) (objs st' b))"

text \<open>The page numbers cached by objects of \<open>st\<close> that are gone in \<open>st'\<close>.\<close>

definition freed_pages :: "vmstate \<Rightarrow> vmstate \<Rightarrow> nat set" where
  "freed_pages st st' = {page_no (cached_at st b i) |b i. cached_at st b i \<noteq> 0 \<and> objs st' b = None}"

lemma shrinks_kinds: "shrinks st st' \<Longrightarrow> kinds_ok st \<Longrightarrow> kinds_ok st'"
  unfolding kinds_ok_def
proof (intro allI impI)
  fix a ob'
  assume "shrinks st st'" "objs st' a = Some ob'"
    and k: "\<forall>a ob. objs st a = Some ob \<longrightarrow> vo_size ob \<noteq> 0 \<and> unat (vo_size ob) \<le> VM_SIZE_MAX \<and> kind_ok (unat (vo_size ob)) (vo_kind ob)"
  then obtain ob n where "objs st a = Some ob" "ob' = ob\<lparr>vo_ref := n\<rparr>"
    unfolding shrinks_def kept_def by (metis option.distinct(1) option.inject)
  then show "vo_size ob' \<noteq> 0 \<and> unat (vo_size ob') \<le> VM_SIZE_MAX \<and> kind_ok (unat (vo_size ob')) (vo_kind ob')"
    using k by simp
qed

lemma cached_at_set_ref:
  "objs st a = Some ob \<Longrightarrow> cached_at (st\<lparr>objs := (objs st)(a \<mapsto> ob\<lparr>vo_ref := n\<rparr>)\<rparr>) = cached_at st"
  by (auto simp: cached_at_def fun_eq_iff)

lemma cached_at_drop:
  "cached_at (st\<lparr>vm_pmm := pm, objs := (objs st)(a := None)\<rparr>) b i = (if b = a then 0 else cached_at st b i)"
  by (auto simp: cached_at_def)

lemma pages_invD:
  assumes "pages_inv st"
  shows "pmm_inv (vm_pmm st)"
    and "cached_at st a i \<noteq> 0 \<Longrightarrow> cached_at st a i AND 4095 = 0"
    and "cached_at st a i \<noteq> 0 \<Longrightarrow> page_no (cached_at st a i) < unat (total_pages (vm_pmm st))"
    and "cached_at st a i \<noteq> 0 \<Longrightarrow> page_no (cached_at st a i) \<notin> pmm_free (vm_pmm st)"
    and "cached_at st a i \<noteq> 0 \<Longrightarrow> cached_at st a i = cached_at st b j \<Longrightarrow> a = b \<and> i = j"
  using assms unfolding pages_inv_def by blast+

lemma pages_invI:
  assumes "pmm_inv (vm_pmm st)"
    and "\<And>a i. cached_at st a i \<noteq> 0 \<Longrightarrow> cached_at st a i AND 4095 = 0"
    and "\<And>a i. cached_at st a i \<noteq> 0 \<Longrightarrow> page_no (cached_at st a i) < unat (total_pages (vm_pmm st))"
    and "\<And>a i. cached_at st a i \<noteq> 0 \<Longrightarrow> page_no (cached_at st a i) \<notin> pmm_free (vm_pmm st)"
    and "\<And>a i b j. cached_at st a i \<noteq> 0 \<Longrightarrow> cached_at st a i = cached_at st b j \<Longrightarrow> a = b \<and> i = j"
  shows "pages_inv st"
  using assms unfolding pages_inv_def by blast

lemma cached_page_inj:
  assumes "pages_inv st" and "cached_at st a i \<noteq> 0" and "cached_at st b j \<noteq> 0"
    and "page_no (cached_at st a i) = page_no (cached_at st b j)"
  shows "a = b \<and> i = j"
  using page_no_inj [OF pages_invD(2) [OF assms(1,2)] pages_invD(2) [OF assms(1,3)] assms(4)]
  by (rule pages_invD(5) [OF assms(1,2)])

lemma pages_inv_drop:
  assumes inv: "pages_inv st" and a: "objs st a = Some ob" and k: "kind_ok n (vo_kind ob)"
  shows "\<exists>pm. release_pages (vo_kind ob) st = Some (st\<lparr>vm_pmm := pm\<rparr>) \<and> total_pages pm = total_pages (vm_pmm st) \<and>
    pages_inv (st\<lparr>vm_pmm := pm, objs := (objs st)(a := None)\<rparr>) \<and>
    pmm_free pm = pmm_free (vm_pmm st) \<union> {page_no (cached_at st a i) |i. cached_at st a i \<noteq> 0}"
proof -
  let ?ps = "shared_pages (vo_kind ob)"
  note pinv = pages_invD [OF inv]
  obtain pm where pm: "foldM (\<lambda>p s. if p \<noteq> 0 then pmm_free_page p s else Some s) ?ps (vm_pmm st) = Some pm"
    "pmm_inv pm" "unat (total_pages pm) = unat (total_pages (vm_pmm st))"
    "pmm_free pm = pmm_free (vm_pmm st) \<union> {page_no p |p. p \<in> set ?ps \<and> p \<noteq> 0 \<and> page_no p < unat (total_pages (vm_pmm st))}"
    using ps.free_all [OF pinv(1), of ?ps] by blast
  have rel: "release_pages (vo_kind ob) st = Some (st\<lparr>vm_pmm := pm\<rparr>)"
    using pm(1) k foldM_nth_opt [of ?ps "\<lambda>p s. if p \<noteq> 0 then pmm_free_page p s else Some s"]
    by (auto simp: release_pages_def free_cached_pages_def split: obj_kind.splits option.splits)
  have tot: "total_pages pm = total_pages (vm_pmm st)" using pm(3) by (simp add: word_unat_eq_iff)
  have at: "cached_at st a i = (if i < length ?ps then ?ps ! i else 0)" for i by (simp add: cached_at_def a)
  have cached: "{page_no p |p. p \<in> set ?ps \<and> p \<noteq> 0 \<and> page_no p < unat (total_pages (vm_pmm st))} =
      {page_no (cached_at st a i) |i. cached_at st a i \<noteq> 0}" (is "?A = ?B")
  proof -
    have "page_no p \<in> ?B" if "p \<in> set ?ps" "p \<noteq> 0" for p
      using that at by (auto simp: in_set_conv_nth)
    moreover have "page_no (cached_at st a i) \<in> ?A" if "cached_at st a i \<noteq> 0" for i
    proof -
      have "cached_at st a i \<in> set ?ps" using that at [of i] by (auto split: if_splits)
      then show ?thesis using that pinv(3) [OF that] by blast
    qed
    ultimately show ?thesis by blast
  qed
  let ?st = "st\<lparr>vm_pmm := pm, objs := (objs st)(a := None)\<rparr>"
  have "pages_inv ?st"
  proof (rule pages_invI)
    fix b i assume c: "cached_at ?st b i \<noteq> 0"
    then have b: "b \<noteq> a" "cached_at ?st b i = cached_at st b i" "cached_at st b i \<noteq> 0"
      by (auto simp: cached_at_drop split: if_splits)
    show "cached_at ?st b i AND 4095 = 0" "page_no (cached_at ?st b i) < unat (total_pages (vm_pmm ?st))"
      using pinv(2,3) [OF b(3)] b(2) tot by simp_all
    show "page_no (cached_at ?st b i) \<notin> pmm_free (vm_pmm ?st)"
      using pinv(4) [OF b(3)] cached_page_inj [OF inv b(3), of a] b(1,2) pm(4) unfolding cached by auto
    show "b = c \<and> i = j" if "cached_at ?st b i = cached_at ?st c j" for c j
      using pinv(5) [OF b(3), of c j] that b by (auto simp: cached_at_drop split: if_splits)
  qed (simp add: pm(2))
  then show ?thesis using rel tot pm(4) unfolding cached by blast
qed

lemma cached_at_None: "objs st b = None \<Longrightarrow> cached_at st b i = 0"
  by (simp add: cached_at_def)

lemma cached_at_parent: "objs st a = Some ob \<Longrightarrow> obj_parent (vo_kind ob) \<noteq> NULL \<Longrightarrow> cached_at st a i = 0"
  by (cases "vo_kind ob") (auto simp: cached_at_def)

lemma release_pages_parent: "obj_parent k \<noteq> NULL \<Longrightarrow> release_pages k st = Some st"
  by (cases k) (auto simp: release_pages_def)

lemma pages_inv_cong:
  "cached_at st' = cached_at st \<Longrightarrow> vm_pmm st' = vm_pmm st \<Longrightarrow> pages_inv st' = pages_inv st"
  by (simp add: pages_inv_def)

lemma kinds_okD:
  "kinds_ok st \<Longrightarrow> objs st a = Some ob \<Longrightarrow>
    vo_size ob \<noteq> 0 \<and> unat (vo_size ob) \<le> VM_SIZE_MAX \<and> kind_ok (unat (vo_size ob)) (vo_kind ob)"
  by (auto simp: kinds_ok_def)

definition released :: "(u64 \<Rightarrow> nat) \<Rightarrow> u64 \<Rightarrow> vmstate \<Rightarrow> vmstate \<Rightarrow> bool" where
  "released ext a st st' \<longleftrightarrow> vmo_inv (ext(a := ext a - 1)) st' \<and> shrinks st st' \<and>
     (objs st' a = None \<longleftrightarrow> ext a + card (children st a) = 1) \<and>
     pmm_free (vm_pmm st') = pmm_free (vm_pmm st) \<union> freed_pages st st'"

lemma release_shared:
  assumes inv: "vmo_inv ext st" and a: "objs st a = Some ob" and r: "vo_ref ob \<noteq> 1" and e: "0 < ext a"
  shows "\<exists>st'. vm_object_release a st = Some st' \<and> released ext a st st'"
proof -
  note refs = inv [unfolded vmo_inv_def, THEN conjunct1]
  note ref = refs_invD(4) [OF refs a]
  let ?st = "st\<lparr>objs := (objs st)(a \<mapsto> ob\<lparr>vo_ref := vo_ref ob - 1\<rparr>)\<rparr>"
  have eq: "vo_ref ob - 1 = int (ext a - 1 + card (children st a))" using ref e by simp
  then have pos: "0 < ext a - 1 + card (children st a)" using ref r by linarith
  have "a \<noteq> NULL" using refs_invD(2) [OF refs] a by auto
  then have "vm_object_release a st = Some ?st"
    using a ref r by (subst vm_object_release.simps) (simp add: Let_def)
  moreover have sh: "shrinks st ?st" using a by (simp add: shrinks_def)
  moreover have "refs_inv (ext(a := ext a - 1)) ?st" unfolding eq by (rule refs_set_ref [OF refs a pos])
  moreover have "pages_inv ?st"
    using inv pages_inv_cong [OF cached_at_set_ref [OF a]] by (simp add: vmo_inv_def)
  moreover have "freed_pages st ?st = {}"
    by (auto simp: freed_pages_def cached_at_None split: if_splits)
  ultimately show ?thesis
    using shrinks_kinds [OF sh] inv ref r pos by (auto simp: released_def vmo_inv_def)
qed

lemma release_last_leaf:
  assumes inv: "vmo_inv ext st" and a: "objs st a = Some ob" and r: "vo_ref ob = 1" and e: "0 < ext a"
    and p: "obj_parent (vo_kind ob) = NULL"
  shows "\<exists>st'. vm_object_release a st = Some st' \<and> released ext a st st'"
proof -
  have refs: "refs_inv ext st" and pages: "pages_inv st" and kinds: "kinds_ok st"
    using inv by (auto simp: vmo_inv_def)
  have k: "kind_ok (unat (vo_size ob)) (vo_kind ob)" using kinds_okD [OF kinds a] by blast
  obtain pm where pm: "release_pages (vo_kind ob) st = Some (st\<lparr>vm_pmm := pm\<rparr>)" "total_pages pm = total_pages (vm_pmm st)"
    "pages_inv (st\<lparr>vm_pmm := pm, objs := (objs st)(a := None)\<rparr>)"
    "pmm_free pm = pmm_free (vm_pmm st) \<union> {page_no (cached_at st a i) |i. cached_at st a i \<noteq> 0}"
    using pages_inv_drop [OF pages a k] by blast
  let ?st = "st\<lparr>vm_pmm := pm, objs := (objs st)(a := None)\<rparr>"
  have one: "ext a + card (children st a) = 1" using refs_invD(4) [OF refs a] r by linarith
  have "a \<noteq> NULL" using refs_invD(2) [OF refs] a by auto
  then have "vm_object_release a st = Some ?st"
    using a r p pm(1) by (subst vm_object_release.simps) (simp add: Let_def release_pages_objs)
  moreover have sh: "shrinks st ?st" using pm(2) by (simp add: shrinks_def)
  moreover have "refs_inv (ext(a := ext a - 1)) ?st"
  proof (rule same_graph_refs [OF same_graph_objs])
    show "refs_inv (ext(a := ext a - 1)) (st\<lparr>objs := (objs st)(a := None)\<rparr>)"
      using refs_drop [OF refs a r e] p one e by (simp add: fun_upd_def if_distrib cong: if_cong)
  qed simp
  moreover have "freed_pages st ?st = {page_no (cached_at st a i) |i. cached_at st a i \<noteq> 0}"
    by (auto simp: freed_pages_def cached_at_None split: if_splits)
  ultimately show ?thesis
    using shrinks_kinds [OF sh] kinds pm(3,4) one by (auto simp: released_def vmo_inv_def)
qed

lemma release_last_shadow:
  assumes inv: "vmo_inv ext st" and a: "objs st a = Some ob" and r: "vo_ref ob = 1" and e: "0 < ext a"
    and p: "obj_parent (vo_kind ob) \<noteq> NULL"
    and rec: "\<And>f. vmo_inv f (st\<lparr>objs := (objs st)(a := None)\<rparr>) \<Longrightarrow> 0 < f (obj_parent (vo_kind ob)) \<Longrightarrow>
      \<exists>st'. vm_object_release (obj_parent (vo_kind ob)) (st\<lparr>objs := (objs st)(a := None)\<rparr>) = Some st' \<and>
        released f (obj_parent (vo_kind ob)) (st\<lparr>objs := (objs st)(a := None)\<rparr>) st'"
  shows "\<exists>st'. vm_object_release a st = Some st' \<and> released ext a st st'"
proof -
  let ?p = "obj_parent (vo_kind ob)" and ?st = "st\<lparr>objs := (objs st)(a := None)\<rparr>"
  let ?f = "\<lambda>b. if b = a then 0 else if b = ?p \<and> ?p \<noteq> NULL then ext b + 1 else ext b"
  have refs: "refs_inv ext st" and pages: "pages_inv st" and kinds: "kinds_ok st"
    using inv by (auto simp: vmo_inv_def)
  have one: "ext a + card (children st a) = 1" "ext a = 1" using refs_invD(4) [OF refs a] r e by linarith+
  have pa: "?p \<noteq> a"
    using wf_not_refl [OF refs_invD(3) [OF refs], of a] p by (auto simp: parent_rel_def parent_of_def a)
  have c: "cached_at ?st b i = cached_at st b i" for b i
    using cached_at_parent [OF a p] by (simp add: cached_at_def)
  then have "pages_inv ?st" using pages by (subst pages_inv_cong [of _ st]) (auto simp: fun_eq_iff)
  moreover have "kinds_ok ?st" using kinds by (auto simp: kinds_ok_def)
  ultimately have inv': "vmo_inv ?f ?st" using refs_drop [OF refs a r e] by (simp add: vmo_inv_def)
  have fp: "0 < ?f ?p" using p pa by simp
  obtain st2 where st2: "vm_object_release ?p ?st = Some st2" and rl: "released ?f ?p ?st st2"
    using rec [OF inv' fp] by blast
  have fr: "objs st2 a = None" "vm_object_release ?p (?st\<lparr>objs := (objs ?st)(a \<mapsto> z)\<rparr>) = Some (st2\<lparr>objs := (objs st2)(a \<mapsto> z)\<rparr>)" for z
    using release_frame [OF st2, of a z] by auto
  have na: "(objs st2)(a := None) = objs st2" using fr(1) by (simp add: fun_upd_idem)
  have "a \<noteq> NULL" using refs_invD(2) [OF refs] a by auto
  then have "vm_object_release a st = Some st2"
    using a r p fr(2) [of "ob\<lparr>vo_ref := 0\<rparr>"]
    by (subst vm_object_release.simps) (simp add: Let_def release_pages_parent na)
  moreover have "?f(?p := ?f ?p - 1) = ext(a := ext a - 1)" using p pa one(2) by (auto simp: fun_eq_iff)
  moreover have "freed_pages st st2 = freed_pages ?st st2" by (simp add: freed_pages_def c)
  moreover have "shrinks st st2" if "shrinks ?st st2"
    using that fr(1) kept_simps(2) unfolding shrinks_def by (metis fun_upd_other vmstate.select_convs(1,2,3) vmstate.surjective vmstate.update_convs(2))
  ultimately show ?thesis
    using rl fr(1) one(1) by (auto simp: released_def)
qed

lemma release_correct:
  assumes "vmo_inv ext st" and "0 < ext a"
  shows "\<exists>st'. vm_object_release a st = Some st' \<and> released ext a st st'"
  using assms
proof (induction "card (dom (objs st))" arbitrary: st ext a rule: less_induct)
  case less
  have refs: "refs_inv ext st" using less.prems(1) by (simp add: vmo_inv_def)
  then obtain ob where ob: "objs st a = Some ob" using refs_inv_live less.prems(2) by blast
  show ?case
  proof (cases "vo_ref ob = 1 \<and> obj_parent (vo_kind ob) \<noteq> NULL")
    case True
    have "card (dom (objs (st\<lparr>objs := (objs st)(a := None)\<rparr>))) < card (dom (objs st))"
      using refs_invD(1) [OF refs] ob by (auto intro!: psubset_card_mono)
    then show ?thesis
      using release_last_shadow [OF less.prems(1) ob _ less.prems(2)] less.hyps True by blast
  next
    case False
    then show ?thesis
      using release_shared [OF less.prems(1) ob _ less.prems(2)]
        release_last_leaf [OF less.prems(1) ob _ less.prems(2)] by blast
  qed
qed

lemma retain_correct:
  assumes "vmo_inv ext st" and "objs st a = Some ob"
  shows "\<exists>st'. vm_object_retain a st = Some st' \<and> vmo_inv (ext(a := ext a + 1)) st' \<and>
    (\<forall>b. kept (objs st b) (objs st' b)) \<and> dom (objs st') = dom (objs st) \<and> vm_pmm st' = vm_pmm st \<and> frames st' = frames st"
proof -
  have refs: "refs_inv ext st" using assms(1) by (simp add: vmo_inv_def)
  let ?st = "st\<lparr>objs := (objs st)(a \<mapsto> ob\<lparr>vo_ref := vo_ref ob + 1\<rparr>)\<rparr>"
  have eq: "vo_ref ob + 1 = int (ext a + 1 + card (children st a))" using refs_invD(4) [OF refs assms(2)] by simp
  have "refs_inv (ext(a := ext a + 1)) ?st" unfolding eq by (rule refs_set_ref [OF refs assms(2)]) simp
  moreover have "shrinks st ?st" using assms(2) by (simp add: shrinks_def)
  moreover have "pages_inv ?st"
    using assms(1) pages_inv_cong [OF cached_at_set_ref [OF assms(2)]] by (simp add: vmo_inv_def)
  moreover have "a \<noteq> NULL" using refs_invD(2) [OF refs] assms(2) by auto
  ultimately show ?thesis
    using assms shrinks_kinds [of st ?st] by (auto simp: vm_object_retain_def vmo_inv_def)
qed

section \<open>Creating objects\<close>

lemma refs_add:
  assumes inv: "refs_inv ext st" and fresh: "objs st ptr = None" "ptr \<noteq> NULL" and new: "vo_ref ob = 1"
    and par: "obj_parent (vo_kind ob) = p" "p \<noteq> NULL \<longrightarrow> 0 < ext p"
  shows "refs_inv (\<lambda>b. if b = ptr then 1 else if b = p \<and> p \<noteq> NULL then ext b - 1 else ext b)
    (st\<lparr>objs := (objs st)(ptr \<mapsto> ob)\<rparr>)" (is "refs_inv ?ext ?st")
proof -
  have dead: "ext ptr = 0" "children st ptr = {}" using refs_invD(5) [OF inv fresh(1)] by auto
  have p_ptr: "p \<noteq> NULL \<Longrightarrow> p \<noteq> ptr" using par(2) dead(1) by auto
  have po: "parent_of ?st b = (if b = ptr then p else parent_of st b)" for b
    using par(1) by (simp add: parent_of_def)
  have nul: "parent_of st ptr = NULL" using fresh(1) by (simp add: parent_of_def)
  have ch: "children ?st c = (if c = p \<and> p \<noteq> NULL then insert ptr (children st c) else children st c)" for c
    by (auto simp: children_def po nul)
  have out: "ptr \<notin> children st c" for c by (auto simp: children_def nul)
  have card: "?ext c + card (children ?st c) = ext c + card (children st c)" if "c \<noteq> ptr" for c
    using that par(2) finite_children [OF inv, of c] out by (auto simp: ch)
  have "parent_rel ?st = (if p = NULL then parent_rel st else insert (p, ptr) (parent_rel st))"
    by (auto simp: in_parent_rel po nul split: if_splits)
  moreover have "(ptr, p) \<notin> (parent_rel st)\<^sup>*" if "p \<noteq> NULL"
  proof
    assume "(ptr, p) \<in> (parent_rel st)\<^sup>*"
    then show False
    proof (cases rule: converse_rtranclE)
      case (step c)
      then have "c \<in> children st ptr" using fresh(2) by (auto simp: parent_rel_def children_def)
      then show False using dead(2) by simp
    qed (use p_ptr that in simp)
  qed
  ultimately have wf: "wf (parent_rel ?st)" using refs_invD(3) [OF inv] by simp
  show ?thesis
  proof (rule refs_invI)
    show "finite (dom (objs ?st))" "objs ?st NULL = None" using refs_invD(1,2) [OF inv] fresh(2) by simp_all
    fix b o' assume b: "objs ?st b = Some o'"
    show "vo_ref o' = int (?ext b + card (children ?st b))"
    proof (cases "b = ptr")
      case True
      have "children ?st ptr = {}" using ch [of ptr] p_ptr dead(2) by auto
      then show ?thesis using True b new by simp
    next
      case False
      then show ?thesis using b refs_invD(4) [OF inv, of b o'] card [OF False] by simp
    qed
    show "0 < vo_ref o'" using b new refs_invD(4) [OF inv, of b o'] by (auto split: if_splits)
  next
    fix b assume "objs ?st b = None"
    then have b: "b \<noteq> ptr" "objs st b = None" by (auto split: if_splits)
    then have "ext b = 0" "children st b = {}" using refs_invD(5) [OF inv] by auto
    moreover from this have "b \<noteq> p \<or> p = NULL" using par(2) by auto
    ultimately show "?ext b = 0 \<and> children ?st b = {}" using b by (auto simp: ch)
  qed (rule wf)
qed

lemma pages_add:
  assumes "pages_inv st" and "objs st ptr = None" and "shared_pages (vo_kind ob) = []"
  shows "pages_inv (st\<lparr>objs := (objs st)(ptr \<mapsto> ob)\<rparr>)"
proof (subst pages_inv_cong [of _ st])
  show "cached_at (st\<lparr>objs := (objs st)(ptr \<mapsto> ob)\<rparr>) = cached_at st"
    using assms(2,3) by (auto simp: cached_at_def fun_eq_iff)
qed (use assms(1) in simp_all)

lemma vm_object_alloc_correct:
  assumes inv: "vmo_inv ext st" and fresh: "objs st ptr = None" "ptr \<noteq> NULL" and sz: "sz \<noteq> 0" "unat sz \<le> VM_SIZE_MAX"
    and k: "kind_ok (unat sz) k" "obj_parent k = NULL" "shared_pages k = []"
  shows "\<exists>st'. vm_object_alloc ptr k port sz st = (st', ptr) \<and> vmo_inv (ext(ptr := 1)) st' \<and>
    objs st' = (objs st)(ptr \<mapsto> \<lparr>vo_ref = 1, vo_kind = k, vo_size = sz, vo_port = port\<rparr>)"
proof -
  let ?ob = "\<lparr>vo_ref = 1, vo_kind = k, vo_size = sz, vo_port = port\<rparr>"
  have refs: "refs_inv ext st" "pages_inv st" "kinds_ok st" using inv by (auto simp: vmo_inv_def)
  have "(\<lambda>b. if b = ptr then 1 else if b = NULL \<and> NULL \<noteq> NULL then ext b - 1 else ext b) = ext(ptr := 1)"
    by (auto simp: fun_eq_iff)
  then have "refs_inv (ext(ptr := 1)) (st\<lparr>objs := (objs st)(ptr \<mapsto> ?ob)\<rparr>)"
    using refs_add [OF refs(1) fresh, of ?ob NULL] k(2) by simp
  moreover have "pages_inv (st\<lparr>objs := (objs st)(ptr \<mapsto> ?ob)\<rparr>)"
    using pages_add [OF refs(2) fresh(1), of ?ob] k(3) by simp
  moreover have "kinds_ok (st\<lparr>objs := (objs st)(ptr \<mapsto> ?ob)\<rparr>)"
    using refs(3) k(1) sz by (auto simp: kinds_ok_def)
  ultimately show ?thesis
    using fresh sz by (simp add: vm_object_alloc_def vmo_inv_def)
qed

lemma shadow_nwords_eq:
  assumes "unat sz \<le> VM_SIZE_MAX"
  shows "unat (shadow_nwords sz) = ((unat sz + 4095) div 4096 + 63) div 64" 
proof -
  define pg :: "32 word" where "pg = ucast ((sz + PAGE_SIZE - 1) div PAGE_SIZE)"
  have "unat ((sz + PAGE_SIZE - 1) div PAGE_SIZE) = (unat sz + 4095) div 4096"
    using assms by (simp add: unat_div unat_word_ariths)
  then have p: "unat pg = (unat sz + 4095) div 4096"
    using assms by (simp add: pg_def unsigned_ucast_eq take_bit_nat_eq_self)
  moreover have "unat pg < 2 ^ 31"
    using assms unfolding p by simp
  ultimately have "unat ((scast pg + 64 - 1 :: u64) div 64) = ((unat sz + 4095) div 4096 + 63) div 64"
    by (simp add: unat_div unat_word_ariths unat_scast_small)
  moreover have "((unat sz + 4095) div 4096 + 63) div 64 < 2 ^ 32"
    using assms by simp
  moreover have "shadow_nwords sz = ucast ((scast pg + 64 - 1 :: u64) div 64)"
    unfolding shadow_nwords_def Let_def pg_def ..
  ultimately show ?thesis
    by (simp add: unsigned_ucast_eq take_bit_nat_eq_self)
qed

lemma shadow_nwords_enough:
  assumes "unat sz \<le> VM_SIZE_MAX"
  shows "unat sz \<le> unat (scast (shadow_nwords sz) :: u64) * 64 * 4096"
proof -
  let ?p = "(unat sz + 4095) div 4096"
  have "?p \<le> (?p + 63) div 64 * 64" "unat sz \<le> ?p * 4096" by linarith+
  then have "unat sz \<le> (?p + 63) div 64 * 64 * 4096" by linarith
  moreover have "(?p + 63) div 64 < 2 ^ 31" using assms by simp
  ultimately show ?thesis
    using shadow_nwords_eq [OF assms] by (simp add: unat_scast_small)
qed

lemma vm_object_create_shadow_correct:
  assumes inv: "vmo_inv ext st" and fresh: "objs st ptr = None" "ptr \<noteq> NULL" and pa: "objs st parent = Some pa"
  shows "\<exists>st'. vm_object_create_shadow ptr True parent st = Some (st', ptr) \<and> vmo_inv (ext(ptr := 1)) st' \<and>
    parent_of st' ptr = parent"
proof -
  have refs: "refs_inv ext st" using inv by (simp add: vmo_inv_def)
  let ?n = "shadow_nwords (vo_size pa)"
  let ?ob = "\<lparr>vo_ref = 1, vo_kind = ObjShadow parent (replicate (unat (scast ?n :: u64)) 0) (sint ?n),
    vo_size = vo_size pa, vo_port = 0\<rparr>"
  have np: "parent \<noteq> NULL" "ptr \<noteq> parent" using refs_invD(2) [OF refs] pa fresh(1) by auto
  obtain st1 where st1: "vm_object_retain parent st = Some st1" "vmo_inv (ext(parent := ext parent + 1)) st1"
    "dom (objs st1) = dom (objs st)"
    using retain_correct [OF inv pa] by blast
  let ?st = "st1\<lparr>objs := (objs st1)(ptr \<mapsto> ?ob)\<rparr>"
  have fresh1: "objs st1 ptr = None" using st1(3) fresh(1) by (metis domIff)
  have inv1: "refs_inv (ext(parent := ext parent + 1)) st1" "pages_inv st1" "kinds_ok st1"
    using st1(2) by (auto simp: vmo_inv_def)
  have sz: "vo_size pa \<noteq> 0" "unat (vo_size pa) \<le> VM_SIZE_MAX"
    using inv kinds_okD [OF _ pa] by (auto simp: vmo_inv_def)
  have "(\<lambda>b. if b = ptr then 1 else if b = parent \<and> parent \<noteq> NULL then (ext(parent := ext parent + 1)) b - 1
      else (ext(parent := ext parent + 1)) b) = ext(ptr := 1)"
    using np by (auto simp: fun_eq_iff)
  then have "refs_inv (ext(ptr := 1)) ?st"
    using refs_add [OF inv1(1) fresh1 fresh(2), of ?ob parent] by simp
  moreover have "pages_inv ?st" using pages_add [OF inv1(2) fresh1, of ?ob] by simp
  moreover have "kinds_ok ?st"
    using inv1(3) sz np(1) shadow_nwords_enough [OF sz(2)] by (auto simp: kinds_ok_def)
  moreover have "vm_object_create_shadow ptr True parent st = Some (?st, ptr)"
    using np fresh sz(1) pa st1(1)
    by (auto simp: vm_object_create_shadow_def vm_object_alloc_def vm_object_retain_def Let_def fun_upd_twist)
  ultimately show ?thesis by (auto simp: vmo_inv_def parent_of_def)
qed

section \<open>Allocating a page for a fault\<close>

text \<open>
  What a fault may do to the state: the objects keep their counts, sizes and parents, pages in use
  keep their contents, and the invariants hold.
\<close>

text \<open>Pages that are in a cache stay there.\<close>

definition cache_kept :: "vmstate \<Rightarrow> vmstate \<Rightarrow> bool" where
  "cache_kept st st' \<longleftrightarrow> (\<forall>a i. cached_at st a i \<noteq> 0 \<longrightarrow> cached_at st' a i = cached_at st a i)"

lemma cache_kept_cached: "cached_at st' = cached_at st \<Longrightarrow> cache_kept st st'"
  by (simp add: cache_kept_def)

lemma cache_kept_objs: "objs st' = objs st \<Longrightarrow> cache_kept st st'"
  by (simp add: cache_kept_def cached_at_def)

lemma cache_kept_trans: "cache_kept st st' \<Longrightarrow> cache_kept st' st'' \<Longrightarrow> cache_kept st st''"
  by (simp add: cache_kept_def)

definition fault_step :: "vmstate \<Rightarrow> vmstate \<Rightarrow> bool" where
  "fault_step st st' \<longleftrightarrow> same_graph st st' \<and> pages_inv st' \<and> kinds_ok st' \<and>
     total_pages (vm_pmm st') = total_pages (vm_pmm st) \<and> pmm_free (vm_pmm st') \<subseteq> pmm_free (vm_pmm st) \<and> cache_kept st st' \<and>
     (\<forall>p. page_no p \<notin> pmm_free (vm_pmm st) \<longrightarrow> frames st' p = frames st p)"

lemma fault_step_refl: "pages_inv st \<Longrightarrow> kinds_ok st \<Longrightarrow> fault_step st st"
  by (simp add: fault_step_def cache_kept_objs)

lemma fault_step_trans: "fault_step st st' \<Longrightarrow> fault_step st' st'' \<Longrightarrow> fault_step st st''"
  by (auto simp: fault_step_def intro: same_graph_trans cache_kept_trans)

lemma fault_step_vmo_inv: "vmo_inv ext st \<Longrightarrow> fault_step st st' \<Longrightarrow> vmo_inv ext st'"
  using same_graph_refs by (auto simp: vmo_inv_def fault_step_def)

lemma pages_inv_less_free:
  assumes "pages_inv st" and "pmm_inv pm" and "total_pages pm = total_pages (vm_pmm st)"
    and "pmm_free pm \<subseteq> pmm_free (vm_pmm st)"
  shows "pages_inv (st\<lparr>vm_pmm := pm, frames := fr\<rparr>)"
proof -
  have c: "cached_at (st\<lparr>vm_pmm := pm, frames := fr\<rparr>) = cached_at st" by (simp add: cached_at_def fun_eq_iff)
  show ?thesis
    by (rule pages_invI) (use assms pages_invD [OF assms(1)] in \<open>auto simp: c\<close>)
qed

lemma alloc_zeroed_page_correct:
  assumes inv: "pages_inv st"
  shows "\<exists>st' r. alloc_zeroed_page env st = Some (st', r) \<and> objs st' = objs st \<and> pages_inv st' \<and>
    total_pages (vm_pmm st') = total_pages (vm_pmm st) \<and>
    (case r of
       Inl e \<Rightarrow> e = - 1 \<and> frames st' = frames st \<and> pmm_free (vm_pmm st') \<subseteq> pmm_free (vm_pmm st) \<and>
         pmm_free (vm_pmm st) - {0} \<subseteq> pmm_free (vm_pmm st')
     | Inr p \<Rightarrow> p \<noteq> NULL \<and> p AND 4095 = 0 \<and> page_no p \<in> pmm_free (vm_pmm st) \<and>
         pmm_free (vm_pmm st') = pmm_free (vm_pmm st) - {page_no p} \<and> frames st' = (frames st)(p := zero_page))"
proof -
  note pinv = pages_invD(1) [OF inv]
  obtain pm p where pm: "pmm_alloc_page (vm_pmm st) = Some (pm, p)" "pmm_inv pm"
    "unat (total_pages pm) = unat (total_pages (vm_pmm st))" "pmm_free pm = pmm_free (vm_pmm st) - {page_no p}"
    "p AND 4095 = 0" "p \<noteq> NULL \<longrightarrow> page_no p \<in> pmm_free (vm_pmm st)"
    by (rule ps.allocE [OF pinv])
  have tot: "total_pages pm = total_pages (vm_pmm st)" using pm(3) by (simp add: word_unat_eq_iff)
  note keep = pages_inv_less_free [OF inv]
  show ?thesis
  proof (cases "p = NULL \<or> temp_map env p")
    case True
    have "pmm_free pm \<subseteq> pmm_free (vm_pmm st)" using pm(4) by blast
    then show ?thesis
      using True pm tot keep [OF pm(2) tot, of "frames st"] keep [OF pm(2) tot, of "(frames st)(p := zero_page)"]
      by (cases "p = NULL") (simp_all add: alloc_zeroed_page_def Let_def)
  next
    case False
    then obtain pm2 where pm2: "pmm_free_page p pm = Some pm2" "pmm_inv pm2"
      "unat (total_pages pm2) = unat (total_pages (vm_pmm st))" "pmm_free pm2 = pmm_free (vm_pmm st)"
      using ps.alloc_free [OF pinv pm(1)] by blast
    then have "total_pages pm2 = total_pages (vm_pmm st)" by (simp add: word_unat_eq_iff)
    then show ?thesis
      using False pm(1) pm2 keep [OF pm2(2), of "frames st"] by (auto simp: alloc_zeroed_page_def)
  qed
qed

lemma alloc_zeroed_page_returns:
  assumes "pages_inv st"
  shows "\<exists>st' r. alloc_zeroed_page env st = Some (st', r) \<and> objs st' = objs st \<and> (\<forall>e. r = Inl e \<longrightarrow> e = - 1)"
proof -
  obtain st' r where "alloc_zeroed_page env st = Some (st', r)" "objs st' = objs st" "case r of Inl e \<Rightarrow> e = - 1 | Inr p \<Rightarrow> True"
    using alloc_zeroed_page_correct [OF assms, of env] by (metis (no_types, lifting) sum.case_eq_if)
  then show ?thesis by (cases r) auto
qed

text \<open>The handlers without a cache: anonymous and fixed physical memory.\<close>

lemma fault_step_alloc:
  assumes "pages_inv st" and "kinds_ok st" and "alloc_zeroed_page env st = Some (st', r)"
  shows "fault_step st st'"
proof -
  obtain s1 r1 where s1: "alloc_zeroed_page env st = Some (s1, r1)" "objs s1 = objs st" "pages_inv s1"
    "total_pages (vm_pmm s1) = total_pages (vm_pmm st)"
    "case r1 of
       Inl e \<Rightarrow> e = - 1 \<and> frames s1 = frames st \<and> pmm_free (vm_pmm s1) \<subseteq> pmm_free (vm_pmm st) \<and>
         pmm_free (vm_pmm st) - {0} \<subseteq> pmm_free (vm_pmm s1)
     | Inr p \<Rightarrow> p \<noteq> NULL \<and> p AND 4095 = 0 \<and> page_no p \<in> pmm_free (vm_pmm st) \<and>
         pmm_free (vm_pmm s1) = pmm_free (vm_pmm st) - {page_no p} \<and> frames s1 = (frames st)(p := zero_page)"
    using alloc_zeroed_page_correct [OF assms(1), of env] by blast
  then have "st' = s1" "r = r1" using assms(3) by auto
  moreover have "kinds_ok s1" using assms(2) s1(2) by (simp add: kinds_ok_def)
  ultimately show ?thesis
    using s1 same_graph_objs [OF s1(2)] cache_kept_objs [OF s1(2)] by (cases r1) (auto simp: fault_step_def)
qed

section \<open>The page cache of shared objects\<close>

lemma grow_cap_correct:
  assumes "unat c = 2 ^ j" and "j < 32" and "unat idx < 2 ^ 31"
  shows "\<exists>k c'. j \<le> k \<and> k < 32 \<and> grow_cap c idx = Some c' \<and> unat c' = 2 ^ k \<and> unat idx < 2 ^ k"
  using assms(1,2)
proof (induction "32 - j" arbitrary: j c)
  case (Suc n)
  have uc: "unat (ucast c :: u64) = 2 ^ j" using Suc.prems by (simp add: unsigned_ucast_eq take_bit_nat_eq_self)
  show ?case
  proof (cases "unat idx < 2 ^ j")
    case True
    then show ?thesis
      using Suc.prems uc by (subst grow_cap.simps) (auto simp: word_le_nat_alt)
  next
    case False
    then have j: "j < 31" using assms(3) Suc.prems(2) by (cases "j = 31") auto
    have "(2 :: nat) ^ Suc j < 2 ^ 32" using j by (intro power_strict_increasing) auto
    then have "unat (c * 2) = 2 ^ Suc j" using Suc.prems(1) by (simp add: unat_word_ariths)
    moreover have "n = 32 - Suc j" "Suc j < 32" using Suc.hyps(2) j by simp_all
    ultimately obtain k c' where "Suc j \<le> k" "k < 32" "grow_cap (c * 2) idx = Some c'" "unat c' = 2 ^ k" "unat idx < 2 ^ k"
      using Suc.hyps(1) [of "Suc j" "c * 2"] by blast
    moreover have "grow_cap c idx = grow_cap (c * 2) idx"
      using False uc by (subst grow_cap.simps) (simp add: word_le_nat_alt)
    ultimately show ?thesis by (metis Suc_leD)
  qed
qed simp

lemma double_pow:
  fixes c :: u32
  assumes "c = 0 \<or> (\<exists>j<32. unat c = 2 ^ j)"
  shows "c * 2 = 0 \<or> (\<exists>j<32. unat (c * 2) = 2 ^ j)"
  using assms
proof (elim disjE exE conjE)
  fix j assume j: "j < (32 :: nat)" "unat c = 2 ^ j"
  have u: "unat (c * 2) = 2 ^ Suc j mod 2 ^ 32" using j(2) by (simp add: unat_word_ariths mult.commute)
  show ?thesis
  proof (cases "j = 31")
    case True
    then show ?thesis using u by (simp add: unat_eq_zero)
  next
    case False
    then have "Suc j < 32" "(2 :: nat) ^ Suc j < 2 ^ 32" using j(1) power_strict_increasing [of "Suc j" 32 "2 :: nat"] by auto
    then show ?thesis using u by (metis mod_less)
  qed
qed simp

lemma grow_cap_diverges:
  assumes "2 ^ 31 \<le> unat idx" and "c = 0 \<or> (\<exists>j<32. unat c = 2 ^ j)"
  shows "grow_cap c idx = None"
proof -
  have "c = 0 \<or> (\<exists>j<32. unat c = 2 ^ j) \<longrightarrow> 2 ^ 31 \<le> unat idx \<longrightarrow> False" if "grow_cap c idx = Some y" for y
  proof (rule grow_cap.raw_induct [OF _ that], intro impI)
    fix f :: "u32 \<Rightarrow> u64 \<Rightarrow> u32 option" and c idx y
    assume IH: "\<And>c idx y. f c idx = Some y \<Longrightarrow> c = 0 \<or> (\<exists>j<32. unat c = 2 ^ j) \<longrightarrow> 2 ^ 31 \<le> unat idx \<longrightarrow> False"
      and eq: "(if (ucast c :: u64) \<le> idx then f (c * 2) idx else Some c) = Some y"
      and c: "c = 0 \<or> (\<exists>j<32. unat c = 2 ^ j)" and idx: "2 ^ 31 \<le> unat idx"
    have "unat c \<le> 2 ^ 31"
      using c power_increasing [of _ 31 "2::nat"] by fastforce
    then have "(ucast c :: u64) \<le> idx"
      using idx by (simp add: word_le_nat_alt unsigned_ucast_eq take_bit_nat_eq_self)
    moreover have "c * 2 = 0 \<or> (\<exists>j<32. unat (c * 2) = 2 ^ j)" using c by (rule double_pow)
    ultimately show False using IH [of "c * 2" idx y] eq idx by auto
  qed
  then show ?thesis using assms by (cases "grow_cap c idx") auto
qed

definition at_idx :: "u64 list \<Rightarrow> nat \<Rightarrow> u64" where
  "at_idx ps i = (if i < length ps then ps ! i else 0)"

lemma cached_at_eq: "objs st a = Some ob \<Longrightarrow> cached_at st a i = at_idx (shared_pages (vo_kind ob)) i"
  by (simp add: cached_at_def at_idx_def)

lemma shared_grow_correct:
  assumes k: "kind_ok sz (ObjShared pages cap)" and idx: "unat idx < 2 ^ 31"
  shows "shared_grow env pages cap idx = Some None \<or>
    (\<exists>ps cap'. shared_grow env pages cap idx = Some (Some (Some ps, cap')) \<and> kind_ok sz (ObjShared (Some ps) cap') \<and>
      unat idx < length ps \<and> at_idx ps = at_idx (shared_pages (ObjShared pages cap)))"
proof (cases "unat idx < unat cap")
  case True
  then obtain ps where "pages = Some ps" using k by (cases pages) auto
  then show ?thesis
    using True k by (auto simp: shared_grow_def word_le_nat_alt unsigned_ucast_eq take_bit_nat_eq_self unat_u32_less [simplified])
next
  case False
  let ?c = "if cap = 0 then 64 else cap * 2"
  have "\<exists>j. 6 \<le> j \<and> j < 32 \<and> unat ?c = 2 ^ j \<and> unat cap < 2 ^ j"
  proof (cases pages)
    case None
    then show ?thesis using k by (intro exI [of _ 6]) auto
  next
    case (Some ps)
    then obtain j where j: "6 \<le> j" "j < 32" "unat cap = 2 ^ j" using k by auto
    have "j < 31" using False idx j(2,3) by (cases "j = 31") auto
    moreover have "unat (cap * 2) = 2 ^ Suc j"
      using j(3) \<open>j < 31\<close> power_strict_increasing [of "Suc j" 32 "2 :: nat"] by (simp add: unat_word_ariths)
    moreover have "cap \<noteq> 0" using j(3) by auto
    ultimately show ?thesis using j by (intro exI [of _ "Suc j"]) auto
  qed
  then obtain j where j: "6 \<le> j" "j < 32" "unat ?c = 2 ^ j" "unat cap < 2 ^ j" by blast
  from grow_cap_correct [OF j(3,2) idx] obtain n c' where
    c': "j \<le> n" "n < 32" "grow_cap ?c idx = Some c'" "unat c' = 2 ^ n" "unat idx < 2 ^ n"
    by blast
  have le: "unat cap \<le> 2 ^ n" using j(4) power_increasing [OF c'(1), of "2 :: nat"] by linarith
  have sg: "shared_grow env pages cap idx = (if \<not> kcalloc_ok env then Some None else do {
      new_pages \<leftarrow> (case pages of
          None \<Rightarrow> Some (replicate (unat c') 0)
        | Some ps \<Rightarrow> if unat cap \<le> length ps \<and> unat cap \<le> unat c'
            then Some (take (unat cap) ps @ replicate (unat c' - unat cap) 0) else None);
      Some (Some (Some new_pages, c')) })"
    using False c'(3) unat_u32_less [of cap]
    by (simp add: shared_grow_def word_le_nat_alt unsigned_ucast_eq take_bit_nat_eq_self)
  show ?thesis
    using k le c' j(1) unfolding sg
    by (cases pages) (auto simp: at_idx_def fun_eq_iff nth_append)
qed

lemma set_kind_eq: "objs st a = Some ob \<Longrightarrow> set_kind a k st = Some (st\<lparr>objs := (objs st)(a \<mapsto> ob\<lparr>vo_kind := k\<rparr>)\<rparr>)"
  by (simp add: set_kind_def)

lemma same_graph_set_kind:
  assumes "objs st a = Some ob" and "objs st' = (objs st)(a \<mapsto> ob\<lparr>vo_kind := k\<rparr>)" and "obj_parent k = obj_parent (vo_kind ob)"
  shows "same_graph st st'"
proof -
  have "obj_same (Some ob) (Some (ob\<lparr>vo_kind := k\<rparr>))" using assms(3) by (simp add: obj_same_def)
  then show ?thesis using assms(1,2) by (simp add: same_graph_def)
qed

lemma kinds_ok_set_kind:
  assumes "kinds_ok st" and "objs st a = Some ob" and "objs st' = (objs st)(a \<mapsto> ob\<lparr>vo_kind := k\<rparr>)"
    and "kind_ok (unat (vo_size ob)) k"
  shows "kinds_ok st'"
  using assms kinds_okD [OF assms(1,2)] by (auto simp: kinds_ok_def)

lemma cached_at_set_kind:
  assumes "objs st' = (objs st)(a \<mapsto> ob\<lparr>vo_kind := k\<rparr>)"
  shows "cached_at st' = (cached_at st)(a := at_idx (shared_pages k))"
  using assms by (simp add: cached_at_def at_idx_def fun_eq_iff)

text \<open>Replacing the cache by one with the same entries.\<close>

lemma fault_step_regrow:
  assumes inv: "pages_inv st" "kinds_ok st" and a: "objs st a = Some ob"
    and k: "kind_ok (unat (vo_size ob)) k" "obj_parent k = obj_parent (vo_kind ob)"
    and same: "at_idx (shared_pages k) = at_idx (shared_pages (vo_kind ob))"
  defines "st' \<equiv> st\<lparr>objs := (objs st)(a \<mapsto> ob\<lparr>vo_kind := k\<rparr>)\<rparr>"
  shows "fault_step st st' \<and> cached_at st' = cached_at st"
proof -
  have o: "objs st' = (objs st)(a \<mapsto> ob\<lparr>vo_kind := k\<rparr>)" by (simp add: st'_def)
  have "cached_at st' = cached_at st"
    unfolding cached_at_set_kind [OF o] same using cached_at_eq [OF a] by (auto simp: fun_eq_iff)
  moreover from this have "pages_inv st'" using inv(1) pages_inv_cong [of st' st] by (simp add: st'_def)
  ultimately show ?thesis
    using same_graph_set_kind [OF a o k(2)] kinds_ok_set_kind [OF inv(2) a o k(1)] cache_kept_cached [of st' st]
    by (simp add: fault_step_def st'_def)
qed

text \<open>Entering a page that was free into the cache.\<close>

lemma fault_step_insert:
  assumes inv: "pages_inv st" "kinds_ok st" and a: "objs st a = Some ob" "vo_kind ob = ObjShared (Some ps) cap"
    and i: "i < length ps" "ps ! i = 0" and z: "alloc_zeroed_page env st = Some (st1, Inr p)"
  defines "st' \<equiv> st1\<lparr>objs := (objs st1)(a \<mapsto> ob\<lparr>vo_kind := ObjShared (Some (ps[i := p])) cap\<rparr>)\<rparr>"
  shows "fault_step st st' \<and> cached_at st' = (cached_at st)(a := (cached_at st a)(i := p)) \<and> p \<noteq> 0 \<and>
    page_no p \<in> pmm_free (vm_pmm st) \<and> frames st' p = zero_page"
proof -
  let ?k = "ObjShared (Some (ps[i := p])) cap"
  have st1: "objs st1 = objs st" "pages_inv st1" "total_pages (vm_pmm st1) = total_pages (vm_pmm st)"
    and p: "p \<noteq> NULL" "p AND 4095 = 0" "page_no p \<in> pmm_free (vm_pmm st)"
      "pmm_free (vm_pmm st1) = pmm_free (vm_pmm st) - {page_no p}" "frames st1 = (frames st)(p := zero_page)"
    using alloc_zeroed_page_correct [OF inv(1), of env] z by auto
  have o: "objs st' = (objs st)(a \<mapsto> ob\<lparr>vo_kind := ?k\<rparr>)" by (simp add: st'_def st1)
  have "at_idx (ps[i := p]) = (at_idx ps)(i := p)" using i(1) by (auto simp: at_idx_def fun_eq_iff)
  then have c: "cached_at st' = (cached_at st)(a := (cached_at st a)(i := p))"
    unfolding cached_at_set_kind [OF o] using cached_at_eq [OF a(1)] a(2) by (auto simp: fun_eq_iff)
  have pm': "total_pages (vm_pmm st') = total_pages (vm_pmm st)" "pmm_free (vm_pmm st') = pmm_free (vm_pmm st) - {page_no p}"
    by (simp_all add: st'_def st1 p)
  have tp: "page_no p < unat (total_pages (vm_pmm st))" using pmm_free_bound [OF p(3)] .
  have ne: "cached_at st b j \<noteq> p" for b j using pages_invD(4) [OF inv(1), of b j] p(1,3) by auto
  have "pages_inv st'"
  proof (rule pages_invI)
    fix b j assume b: "cached_at st' b j \<noteq> 0"
    have "cached_at st' b j = p \<or> cached_at st' b j = cached_at st b j" by (simp add: c)
    moreover have "cached_at st b j AND 4095 = 0 \<and> page_no (cached_at st b j) < unat (total_pages (vm_pmm st)) \<and>
        page_no (cached_at st b j) \<notin> pmm_free (vm_pmm st)" if "cached_at st b j \<noteq> 0"
      using pages_invD(2,3,4) [OF inv(1) that] by blast
    ultimately have "cached_at st' b j AND 4095 = 0 \<and> page_no (cached_at st' b j) < unat (total_pages (vm_pmm st)) \<and>
        (cached_at st' b j = p \<or> page_no (cached_at st' b j) \<notin> pmm_free (vm_pmm st))"
      using p(2) tp b by metis
    then show "cached_at st' b j AND 4095 = 0" "page_no (cached_at st' b j) < unat (total_pages (vm_pmm st'))"
      "page_no (cached_at st' b j) \<notin> pmm_free (vm_pmm st')"
      unfolding pm' by (blast, blast, metis DiffD1 DiffD2 singletonI)
    show "b = d \<and> j = l" if "cached_at st' b j = cached_at st' d l" for d l
      using that b pages_invD(5) [OF inv(1), of b j d l] ne [of b j] ne [of d l] by (auto simp: c split: if_splits)
  qed (use pages_invD(1) [OF st1(2)] in \<open>simp add: st'_def\<close>)
  moreover have "kinds_ok st'"
    using kinds_ok_set_kind [OF inv(2) a(1) o] kinds_okD [OF inv(2) a(1)] a(2) by auto
  moreover have "cache_kept st st'" using i cached_at_eq [OF a(1)] a(2) by (simp add: cache_kept_def c at_idx_def)
  ultimately show ?thesis
    using same_graph_set_kind [OF a(1) o] a(2) st1(3) p c by (auto simp: fault_step_def st'_def)
qed

lemma shared_fault_hit:
  assumes a: "objs st a = Some ob" "vo_kind ob = ObjShared pages cap" and k: "kind_ok (unat (vo_size ob)) (vo_kind ob)"
    and off: "offset < vo_size ob" and hit: "cached_at st a (unat (offset div PAGE_SIZE)) \<noteq> 0"
  shows "vm_object_shared_fault env pages cap a offset st = Some (st, Inr (cached_at st a (unat (offset div PAGE_SIZE))))"
proof -
  let ?i = "unat (offset div PAGE_SIZE)"
  obtain ps where ps: "pages = Some ps" "?i < length ps" "ps ! ?i \<noteq> 0" "cached_at st a ?i = ps ! ?i"
    using hit a by (cases pages) (auto simp: cached_at_def split: if_splits)
  then have "shared_grow env pages cap (offset div PAGE_SIZE) = Some (Some (pages, cap))"
    using k a(2) unat_u32_less [of cap]
    by (simp add: shared_grow_def word_le_nat_alt unsigned_ucast_eq take_bit_nat_eq_self)
  moreover have "st\<lparr>objs := (objs st)(a \<mapsto> ob\<lparr>vo_kind := ObjShared pages cap\<rparr>)\<rparr> = st"
    using a by (simp add: fun_upd_idem)
  ultimately show ?thesis
    using a off [unfolded not_le [symmetric]] ps by (simp add: vm_object_shared_fault_def set_kind_eq)
qed

lemma shared_idx_bound:
  assumes "unat sz \<le> VM_SIZE_MAX" and "offset < sz"
  shows "unat (offset div PAGE_SIZE) < 2 ^ 31"
  using assms by (simp add: word_less_nat_alt unat_div)

lemma shared_fault_miss:
  assumes inv: "pages_inv st" "kinds_ok st" and a: "objs st a = Some ob" "vo_kind ob = ObjShared pages cap"
    and off: "offset < vo_size ob" and miss: "cached_at st a (unat (offset div PAGE_SIZE)) = 0"
  shows "\<exists>st' r. vm_object_shared_fault env pages cap a offset st = Some (st', r) \<and> fault_step st st' \<and>
    (case r of
       Inl e \<Rightarrow> e = - 1 \<and> cached_at st' = cached_at st
     | Inr p \<Rightarrow> p \<noteq> 0 \<and> cached_at st' = (cached_at st)(a := (cached_at st a)(unat (offset div PAGE_SIZE) := p)) \<and>
         page_no p \<in> pmm_free (vm_pmm st) \<and> frames st' p = zero_page)"
proof -
  let ?i = "unat (offset div PAGE_SIZE)"
  note k = kinds_okD [OF inv(2) a(1)]
  have i: "?i < 2 ^ 31" using shared_idx_bound k off by blast
  note unf = vm_object_shared_fault_def
  from shared_grow_correct [of "unat (vo_size ob)" pages cap "offset div PAGE_SIZE" env] i k a(2)
  consider (fail) "shared_grow env pages cap (offset div PAGE_SIZE) = Some None"
    | (ok) ps cap' where "shared_grow env pages cap (offset div PAGE_SIZE) = Some (Some (Some ps, cap'))"
      "kind_ok (unat (vo_size ob)) (ObjShared (Some ps) cap')" "?i < length ps"
      "at_idx ps = at_idx (shared_pages (ObjShared pages cap))"
    by auto
  then show ?thesis
  proof cases
    case fail
    then show ?thesis using a off [unfolded not_le [symmetric]] fault_step_refl [OF inv] by (simp add: unf)
  next
    case ok
    let ?ob1 = "ob\<lparr>vo_kind := ObjShared (Some ps) cap'\<rparr>"
    let ?st1 = "st\<lparr>objs := (objs st)(a \<mapsto> ?ob1)\<rparr>"
    have s1: "fault_step st ?st1" "cached_at ?st1 = cached_at st"
      using fault_step_regrow [OF inv a(1), of "ObjShared (Some ps) cap'"] ok(2,4) a(2) by auto
    then have inv1: "pages_inv ?st1" "kinds_ok ?st1" by (auto simp: fault_step_def)
    have o1: "objs ?st1 a = Some ?ob1" "vo_kind ?ob1 = ObjShared (Some ps) cap'" by simp_all
    have z: "ps ! ?i = 0"
    proof -
      have "cached_at st a ?i = at_idx ps ?i" unfolding cached_at_eq [OF a(1)] a(2) ok(4) ..
      then show ?thesis using miss ok(3) by (simp add: at_idx_def)
    qed
    obtain st2 r where st2: "alloc_zeroed_page env ?st1 = Some (st2, r)" "objs st2 = objs ?st1" and e: "\<forall>e. r = Inl e \<longrightarrow> e = - 1"
      using alloc_zeroed_page_returns [OF inv1(1)] by blast
    have s2: "fault_step ?st1 st2" using fault_step_alloc [OF inv1 st2(1)] .
    have run: "vm_object_shared_fault env pages cap a offset st = (case r of
        Inl e \<Rightarrow> Some (st2, Inl e)
      | Inr phys \<Rightarrow> Some (st2\<lparr>objs := (objs st2)(a \<mapsto> ?ob1\<lparr>vo_kind := ObjShared (Some (ps[?i := phys])) cap'\<rparr>)\<rparr>, Inr phys))"
      using a off [unfolded not_le [symmetric]] ok(1,3) z st2 by (simp add: unf set_kind_eq split: sum.split)
    show ?thesis
    proof (cases r)
      case (Inl x)
      moreover have "cached_at st2 = cached_at st" using st2(2) s1(2) by (simp add: cached_at_def fun_eq_iff)
      ultimately show ?thesis using run e fault_step_trans [OF s1(1) s2] by auto
    next
      case (Inr p)
      note ins = fault_step_insert [OF inv1 o1 ok(3) z st2(1) [unfolded Inr]]
      show ?thesis
        using run Inr ins s1 fault_step_trans [OF s1(1)] by auto
    qed
  qed
qed

section \<open>The copy-on-write handler and the dispatch\<close>

lemma shadow_word_idx_eq:
  assumes "unat sz \<le> VM_SIZE_MAX" and "offset < sz" and "unat sz \<le> n * 64 * 4096"
  shows "shadow_word_idx offset = int (unat offset div 4096 div 64)" and "unat offset div 4096 div 64 < n"
proof -
  have "unat (offset div PAGE_SIZE div 64) = unat offset div 4096 div 64" by (simp add: unat_div)
  moreover have "unat offset div 4096 div 64 < 2 ^ 31"
    using assms(1,2) by (simp add: word_less_nat_alt)
  ultimately show "shadow_word_idx offset = int (unat offset div 4096 div 64)"
    unfolding shadow_word_idx_def
    by (subst sint_small) (simp_all add: unsigned_ucast_eq take_bit_nat_eq_self)
  have "unat offset < n * 64 * 4096" using assms(2,3) by (simp add: word_less_nat_alt)
  then show "unat offset div 4096 div 64 < n" by (simp add: div_less_iff_less_mult)
qed

lemma mark_copied_correct:
  assumes inv: "pages_inv st" "kinds_ok st" and a: "objs st a = Some ob" "vo_kind ob = ObjShadow p m n" and off: "offset < vo_size ob"
  shows "\<exists>st'. mark_copied a offset st = Some st' \<and> fault_step st st' \<and> vm_pmm st' = vm_pmm st \<and> frames st' = frames st \<and>
    objs st' = (objs st)(a \<mapsto> ob\<lparr>vo_kind := ObjShadow p
      (m[unat offset div 4096 div 64 := m ! (unat offset div 4096 div 64) OR shadow_mask offset]) n\<rparr>)"
proof -
  have k: "unat (vo_size ob) \<le> VM_SIZE_MAX" "unat (vo_size ob) \<le> length m * 64 * 4096" "p \<noteq> NULL"
    using kinds_okD [OF inv(2) a(1)] a(2) by auto
  note w = shadow_word_idx_eq [OF k(1) off k(2)]
  let ?i = "unat offset div 4096 div 64"
  let ?k = "ObjShadow p (m[?i := m ! ?i OR shadow_mask offset]) n"
  have "fault_step st (st\<lparr>objs := (objs st)(a \<mapsto> ob\<lparr>vo_kind := ?k\<rparr>)\<rparr>)"
    using fault_step_regrow [OF inv a(1), of ?k] k a(2) by auto
  then show ?thesis using a w by (simp add: mark_copied_def set_kind_eq)
qed

lemma fault_step_take:
  assumes inv: "pages_inv st" "kinds_ok st" and pm: "pmm_alloc_page (vm_pmm st) = Some (pm, p)"
    and fr: "\<And>q. p = NULL \<or> q \<noteq> p \<Longrightarrow> fr q = frames st q"
  shows "fault_step st (st\<lparr>vm_pmm := pm, frames := fr\<rparr>)"
proof -
  obtain pm' p' where "pmm_alloc_page (vm_pmm st) = Some (pm', p')" "pmm_inv pm'"
    "unat (total_pages pm') = unat (total_pages (vm_pmm st))" "pmm_free pm' = pmm_free (vm_pmm st) - {page_no p'}"
    "p' AND 4095 = 0" "p' \<noteq> NULL \<longrightarrow> page_no p' \<in> pmm_free (vm_pmm st)"
    by (rule ps.allocE [OF pages_invD(1) [OF inv(1)]])
  then have "pmm_inv pm" "unat (total_pages pm) = unat (total_pages (vm_pmm st))" "pmm_free pm \<subseteq> pmm_free (vm_pmm st)"
    "p \<noteq> NULL \<longrightarrow> page_no p \<in> pmm_free (vm_pmm st)"
    using pm by auto
  then have a: "pmm_inv pm" "total_pages pm = total_pages (vm_pmm st)" "pmm_free pm \<subseteq> pmm_free (vm_pmm st)"
    "p \<noteq> NULL \<longrightarrow> page_no p \<in> pmm_free (vm_pmm st)"
    by (simp_all only: word_unat_eq_iff)
  have "kinds_ok (st\<lparr>vm_pmm := pm, frames := fr\<rparr>)" using inv(2) by (simp add: kinds_ok_def)
  moreover have "same_graph st (st\<lparr>vm_pmm := pm, frames := fr\<rparr>)" by (rule same_graph_objs) simp
  moreover have "fr q = frames st q" if "page_no q \<notin> pmm_free (vm_pmm st)" for q
    using that a(4) fr [of q] by auto
  ultimately show ?thesis
    using pages_inv_less_free [OF inv(1) a(1,2,3), of fr] a(2,3) by (simp add: fault_step_def cache_kept_objs)
qed

lemma fault_step_take_back:
  assumes inv: "pages_inv st" "kinds_ok st" and pm: "pmm_alloc_page (vm_pmm st) = Some (pm, p)" "p \<noteq> NULL"
  shows "\<exists>pm2. pmm_free_page p pm = Some pm2 \<and> fault_step st (st\<lparr>vm_pmm := pm2\<rparr>)"
proof -
  obtain pm2 where pm2: "pmm_free_page p pm = Some pm2" "pmm_inv pm2"
      "unat (total_pages pm2) = unat (total_pages (vm_pmm st))" "pmm_free pm2 = pmm_free (vm_pmm st)"
    using ps.alloc_free [OF pages_invD(1) [OF inv(1)] pm] by blast
  then have "total_pages pm2 = total_pages (vm_pmm st)" by (simp add: word_unat_eq_iff)
  moreover have "kinds_ok (st\<lparr>vm_pmm := pm2\<rparr>)" using inv(2) by (simp add: kinds_ok_def)
  moreover have "same_graph st (st\<lparr>vm_pmm := pm2\<rparr>)" by (rule same_graph_objs) simp
  ultimately have "fault_step st (st\<lparr>vm_pmm := pm2\<rparr>)"
    using pages_inv_less_free [OF inv(1) pm2(2), of "frames st"] pm2(4) by (simp add: fault_step_def cache_kept_objs)
  then show ?thesis using pm2(1) by blast
qed

text \<open>
  The environment a fault needs: the pager returns and leaves the store and the page caches consistent, and the
  kernel has the pages of the allocator mapped at their physical addresses.
\<close>

definition pager_ok :: "vm_env \<Rightarrow> bool" where
  "pager_ok env \<longleftrightarrow> (\<forall>port a offset prot st. pages_inv st \<and> kinds_ok st \<longrightarrow>
     (\<exists>st' r. pager env port a offset prot st = Some (st', r) \<and> fault_step st st'))"

definition ident_ok :: "vm_env \<Rightarrow> vmstate \<Rightarrow> bool" where
  "ident_ok env st \<longleftrightarrow> (\<forall>p. page_no p < unat (total_pages (vm_pmm st)) \<longrightarrow> ident_map env p)"

lemma leaf_fault_returns:
  assumes inv: "pages_inv st" "kinds_ok st" and a: "objs st a = Some ob" "\<not> is_shadow (vo_kind ob)" and env: "pager_ok env"
  shows "\<exists>st' r. leaf_fault env (vo_kind ob) a offset w st = Some (st', r) \<and> fault_step st st'"
proof (cases "vo_size ob \<le> offset")
  case True
  then show ?thesis
    using a fault_step_refl [OF inv]
    by (cases "vo_kind ob") (auto simp: leaf_fault_def vm_object_anon_fault_def vm_object_phys_fault_def
        vm_object_shared_fault_def vm_object_user_paged_fault_def)
next
  case False
  then have off: "offset < vo_size ob" by simp
  show ?thesis
  proof (cases "vo_kind ob")
    case ObjAnon
    obtain st' r where "alloc_zeroed_page env st = Some (st', r)" using alloc_zeroed_page_returns [OF inv(1)] by blast
    then show ?thesis using fault_step_alloc [OF inv] ObjAnon a(1) False by (auto simp: leaf_fault_def vm_object_anon_fault_def)
  next
    case (ObjPhys b)
    then show ?thesis using a(1) False fault_step_refl [OF inv] by (simp add: leaf_fault_def vm_object_phys_fault_def)
  next
    case (ObjShared pages cap)
    have k: "kind_ok (unat (vo_size ob)) (vo_kind ob)" using kinds_okD [OF inv(2) a(1)] by blast
    have "\<exists>st' r. vm_object_shared_fault env pages cap a offset st = Some (st', r) \<and> fault_step st st'"
      using shared_fault_hit [OF a(1) ObjShared k off, of env] shared_fault_miss [OF inv a(1) ObjShared off, of env]
        fault_step_refl [OF inv] by blast
    then show ?thesis using ObjShared by (simp add: leaf_fault_def)
  next
    case ObjUserPaged
    then show ?thesis
      using env inv a(1) False unfolding pager_ok_def by (simp add: leaf_fault_def vm_object_user_paged_fault_def)
  qed (use a(2) in simp)
qed

lemma shadow_copy_returns:
  assumes inv: "pages_inv st" "kinds_ok st" and a: "objs st a = Some ob" "vo_kind ob = ObjShadow p m n" "offset < vo_size ob"
    and env: "ident_ok env st"
  shows "\<exists>st' r. do {
      (pm, new_page) \<leftarrow> pmm_alloc_page (vm_pmm st);
      let st = st\<lparr>vm_pmm := pm\<rparr>;
      if new_page = NULL then Some (st, Inl (- 1))
      else if \<not> temp_map env parent_phys then do {
        pm \<leftarrow> pmm_free_page new_page pm;
        Some (st\<lparr>vm_pmm := pm\<rparr>, Inl (- 1))
      }
      else if \<not> ident_map env new_page then None
      else do {
        st \<leftarrow> mark_copied a offset
          (st\<lparr>frames := (frames st)(new_page := frames st (parent_phys AND NOT 4095))\<rparr>);
        Some (st, Inr new_page)
      }
    } = Some (st', r) \<and> fault_step st st'"
proof -
  obtain pm q where pm: "pmm_alloc_page (vm_pmm st) = Some (pm, q)" and q: "q \<noteq> NULL \<longrightarrow> page_no q \<in> pmm_free (vm_pmm st)"
    by (rule ps.allocE [OF pages_invD(1) [OF inv(1)]])
  note take = fault_step_take [OF inv pm]
  consider "q = NULL" | "q \<noteq> NULL" "\<not> temp_map env parent_phys" | "q \<noteq> NULL" "temp_map env parent_phys" by blast
  then show ?thesis
  proof cases
    case 1
    then show ?thesis using pm take [of "frames st"] by simp
  next
    case 2
    then show ?thesis using fault_step_take_back [OF inv pm] pm by (auto simp: Let_def)
  next
    case 3
    let ?st = "st\<lparr>vm_pmm := pm, frames := (frames st)(q := frames st (parent_phys AND NOT 4095))\<rparr>"
    have t: "fault_step st ?st" by (rule take) (use 3 in auto)
    then have inv': "pages_inv ?st" "kinds_ok ?st" by (auto simp: fault_step_def)
    have "objs ?st a = Some ob" using a(1) by simp
    from mark_copied_correct [OF inv' this a(2,3)] obtain st' where
      "mark_copied a offset ?st = Some st'" "fault_step ?st st'" by blast
    moreover have "ident_map env q"
      using env q 3(1) pmm_free_bound by (auto simp: ident_ok_def)
    ultimately show ?thesis using 3 pm fault_step_trans [OF t] by (auto simp: Let_def)
  qed
qed

lemma shadow_fault_returns:
  assumes inv: "pages_inv st" "kinds_ok st" and a: "objs st a = Some ob" "vo_kind ob = ObjShadow p m n"
    and env: "ident_ok env st"
    and parent: "\<And>w. \<exists>st' r. fault p offset w st = Some (st', r) \<and> fault_step st st'"
  shows "\<exists>st' r. vm_object_shadow_fault env fault a offset w st = Some (st', r) \<and> fault_step st st'"
proof (cases "vo_size ob \<le> offset")
  case True
  then show ?thesis using a fault_step_refl [OF inv] by (simp add: vm_object_shadow_fault_def)
next
  case False
  then have off: "offset < vo_size ob" by simp
  have k: "unat (vo_size ob) \<le> VM_SIZE_MAX" "unat (vo_size ob) \<le> length m * 64 * 4096" "p \<noteq> NULL"
    using kinds_okD [OF inv(2) a(1)] a(2) by auto
  note idx = shadow_word_idx_eq [OF k(1) off k(2)]
  show ?thesis
  proof (cases "m ! (unat offset div 4096 div 64) AND shadow_mask offset = 0")
    case copied: False
    then show ?thesis using a False k(3) idx parent [of w] by (simp add: vm_object_shadow_fault_def)
  next
    case fresh: True
    obtain st1 r1 where r1: "fault p offset False st = Some (st1, r1)" "fault_step st st1" using parent by blast
    then have inv1: "pages_inv st1" "kinds_ok st1" "same_graph st st1" by (auto simp: fault_step_def)
    obtain ob1 where ob1: "objs st1 a = Some ob1" "vo_size ob1 = vo_size ob" "obj_parent (vo_kind ob1) = p"
      using inv1(3) a obj_same_Some [of ob "objs st1 a"] unfolding same_graph_def by (metis obj_parent.simps(1))
    then obtain m1 n1 where k1: "vo_kind ob1 = ObjShadow p m1 n1" using k(3) by (cases "vo_kind ob1") auto
    have env1: "ident_ok env st1" using env r1(2) by (simp add: ident_ok_def fault_step_def)
    show ?thesis
    proof (cases r1)
      case (Inl e)
      then show ?thesis using a False k(3) idx fresh r1 by (simp add: vm_object_shadow_fault_def)
    next
      case (Inr q)
      have off1: "offset < vo_size ob1" using off ob1(2) by simp
      from shadow_copy_returns [OF inv1(1,2) ob1(1) k1 off1 env1, of q] obtain st' r where
        "fault_step st1 st'" "vm_object_shadow_fault env fault a offset w st = Some (st', r)"
        using a False k(3) idx fresh r1(1) Inr by (auto simp: vm_object_shadow_fault_def)
      then show ?thesis using fault_step_trans [OF r1(2)] by blast
    qed
  qed
qed

lemma fault_returns:
  assumes inv: "vmo_inv ext st" and live: "objs st a \<noteq> None" and env: "pager_ok env" "ident_ok env st"
  shows "\<exists>st' r. vm_object_fault env a offset w st = Some (st', r) \<and> fault_step st st'"
proof -
  have refs: "refs_inv ext st" and pk: "pages_inv st" "kinds_ok st" using inv by (auto simp: vmo_inv_def)
  show ?thesis
    using live
  proof (induction a arbitrary: w rule: wf_induct_rule [OF refs_invD(3) [OF refs]])
    case (1 a)
    then obtain ob where ob: "objs st a = Some ob" by blast
    show ?case
    proof (cases "is_shadow (vo_kind ob)")
      case False
      then show ?thesis
        using leaf_fault_returns [OF pk ob _ env(1)] ob by (subst vm_object_fault.simps) simp
    next
      case True
      then obtain p m n where k: "vo_kind ob = ObjShadow p m n" by (cases "vo_kind ob") auto
      then have p: "parent_of st a = p" "p \<noteq> NULL" using kinds_okD [OF pk(2) ob] ob by (auto simp: parent_of_def)
      then have "(p, a) \<in> parent_rel st" "objs st p \<noteq> None"
        using parent_live [OF refs, of a] by (auto simp: in_parent_rel)
      then show ?thesis
        using shadow_fault_returns [OF pk ob k env(2), of "\<lambda>p off w s. vm_object_fault env p off w s"] 1 True ob
        by (subst vm_object_fault.simps) auto
    qed
  qed
qed

lemma fault_shared_eq:
  "objs st a = Some ob \<Longrightarrow> vo_kind ob = ObjShared pages cap \<Longrightarrow>
    vm_object_fault env a offset w st = vm_object_shared_fault env pages cap a offset st"
  by (subst vm_object_fault.simps) (simp add: leaf_fault_def)

lemma fault_phys_eq:
  "objs st a = Some ob \<Longrightarrow> vo_kind ob = ObjPhys base \<Longrightarrow> offset < vo_size ob \<Longrightarrow>
    vm_object_fault env a offset w st = Some (st, Inr (base + (offset AND NOT 4095)))"
  by (subst vm_object_fault.simps) (simp add: leaf_fault_def vm_object_phys_fault_def not_le [symmetric])

lemma fault_shadow_eq:
  assumes "objs st a = Some ob" and "vo_kind ob = ObjShadow p m n" and "p \<noteq> NULL" and "offset < vo_size ob"
    and "shadow_word_idx offset = int i" and "i < length m"
  shows "vm_object_fault env a offset w st =
    (if m ! i AND shadow_mask offset \<noteq> 0 then vm_object_fault env p offset w st
     else vm_object_shadow_fault env (\<lambda>p off w s. vm_object_fault env p off w s) a offset w st)"
  using assms
  by (subst vm_object_fault.simps) (simp add: vm_object_shadow_fault_def not_le [symmetric])

lemma shadow_mask_or: "(w OR shadow_mask offset) AND shadow_mask offset \<noteq> 0"
proof -
  have lt: "unat (offset div PAGE_SIZE mod 64) < 64" by (simp add: unat_mod)
  then have "bit (w OR shadow_mask offset) (unat (offset div PAGE_SIZE mod 64))"
    by (simp add: shadow_mask_def bit_simps)
  then show ?thesis using lt by (simp add: shadow_mask_def)
qed

section \<open>An example store\<close>

definition empty_vm :: vmstate where
  "empty_vm = \<lparr>vm_pmm = pmm_example, objs = Map.empty, frames = (\<lambda>_ _. 7)\<rparr>"

definition example_vm :: vmstate where
  "example_vm = fst (vm_object_create_shared 0x1000 0x2000 empty_vm)"

definition example_shadow_vm :: vmstate where
  "example_shadow_vm = fst (the (vm_object_create_shadow 0x3000 True 0x1000 example_vm))"

definition good_env :: vm_env where
  "good_env = \<lparr>temp_map = (\<lambda>_. True), ident_map = (\<lambda>_. True), kcalloc_ok = True,
     pager = (\<lambda>port a offset prot st. Some (st, Inl (- 11)))\<rparr>"

lemma empty_vm_inv: "vmo_inv (\<lambda>_. 0) empty_vm"
  by (auto simp: vmo_inv_def refs_inv_def pages_inv_def kinds_ok_def empty_vm_def parent_rel_def parent_of_def
      children_def cached_at_def pmm_example_inv)

lemma example_vm_inv: "vmo_inv ((\<lambda>_. 0)(0x1000 := 1)) example_vm"
  and example_vm_objs: "objs example_vm = [0x1000 \<mapsto> \<lparr>vo_ref = 1, vo_kind = ObjShared None 0, vo_size = 0x2000, vo_port = 0\<rparr>]"
  using vm_object_alloc_correct [OF empty_vm_inv, of "0x1000" "0x2000" "ObjShared None 0" 0]
  by (auto simp: example_vm_def vm_object_create_shared_def empty_vm_def)

lemma example_shadow_vm_inv: "vmo_inv ((\<lambda>_. 0)(0x1000 := 1, 0x3000 := 1)) example_shadow_vm"
  using vm_object_create_shadow_correct [OF example_vm_inv, of "0x3000" "0x1000"]
  by (auto simp: example_shadow_vm_def example_vm_objs)

lemma example_shadow_live: "objs example_shadow_vm 0x3000 \<noteq> None"
  using refs_inv_live [of "(\<lambda>_. 0)(0x1000 := 1, 0x3000 := 1)" example_shadow_vm "0x3000"] example_shadow_vm_inv
  by (auto simp: vmo_inv_def)

lemma good_env_ok: "pager_ok good_env" "ident_ok good_env st"
  by (auto simp: pager_ok_def ident_ok_def good_env_def intro: fault_step_refl)

definition example_cow_vm :: vmstate where
  "example_cow_vm = fst (the (vm_object_create_shadow 0x3000 True 0x1000
     (fst (vm_object_create_phys 0x1000 0xB8000 0x1000 empty_vm))))"

lemma example_cow_objs:
  "objs example_cow_vm =
    [0x1000 \<mapsto> \<lparr>vo_ref = 2, vo_kind = ObjPhys 0xB8000, vo_size = 0x1000, vo_port = 0\<rparr>,
     0x3000 \<mapsto> \<lparr>vo_ref = 1, vo_kind = ObjShadow 0x1000 [0] 1, vo_size = 0x1000, vo_port = 0\<rparr>]"
  "vm_pmm example_cow_vm = pmm_example" "frames example_cow_vm = (\<lambda>_ _. 7)"
proof -
  have "shadow_nwords 0x1000 = 1" by (simp add: shadow_nwords_def)
  then show "objs example_cow_vm =
    [0x1000 \<mapsto> \<lparr>vo_ref = 2, vo_kind = ObjPhys 0xB8000, vo_size = 0x1000, vo_port = 0\<rparr>,
     0x3000 \<mapsto> \<lparr>vo_ref = 1, vo_kind = ObjShadow 0x1000 [0] 1, vo_size = 0x1000, vo_port = 0\<rparr>]"
  "vm_pmm example_cow_vm = pmm_example" "frames example_cow_vm = (\<lambda>_ _. 7)"
    by (simp_all add: example_cow_vm_def vm_object_create_shadow_def vm_object_create_phys_def vm_object_alloc_def
        vm_object_retain_def empty_vm_def Let_def fun_upd_twist)
qed

lemma example_cow_inv: "vmo_inv ((\<lambda>_. 0)(0x1000 := 1, 0x3000 := 1)) example_cow_vm"
proof -
  obtain st' where st': "vm_object_create_phys 0x1000 0xB8000 0x1000 empty_vm = (st', 0x1000)"
    "vmo_inv ((\<lambda>_. 0)(0x1000 := 1)) st'"
    "objs st' = [0x1000 \<mapsto> \<lparr>vo_ref = 1, vo_kind = ObjPhys 0xB8000, vo_size = 0x1000, vo_port = 0\<rparr>]"
    using vm_object_alloc_correct [OF empty_vm_inv, of "0x1000" "0x1000" "ObjPhys 0xB8000" 0]
    by (auto simp: vm_object_create_phys_def empty_vm_def)
  then show ?thesis
    using vm_object_create_shadow_correct [OF st'(2), of "0x3000" "0x1000"] by (auto simp: example_cow_vm_def)
qed

lemma example_cow_fault:
  "\<exists>st'. vm_object_fault good_env 0x3000 0 True example_cow_vm = Some (st', Inr 0x1000)"
proof -
  have "pmm_alloc_page (vm_pmm example_cow_vm) = Some (take_page 1 pmm_example, 0x1000)"
    using pmm_alloc_page_eq [OF pmm_example_inv] by (simp add: pmm_example_free example_cow_objs)
  then show ?thesis
    by (subst vm_object_fault.simps, simp add: example_cow_objs vm_object_shadow_fault_def shadow_word_idx_def)
      (subst fault_phys_eq [of _ _ "\<lparr>vo_ref = 2, vo_kind = ObjPhys 0xB8000, vo_size = 0x1000, vo_port = 0\<rparr>" "0xB8000"],
        simp_all add: example_cow_objs shadow_word_idx_def good_env_def mark_copied_def set_kind_def)
qed

text \<open>An object of 1 MB, whose page cache starts with 64 entries and grows when page 80 is touched.\<close>

definition big_vm :: vmstate where
  "big_vm = fst (vm_object_create_shared 0x1000 0x100000 empty_vm)"

lemma big_vm_inv: "vmo_inv ((\<lambda>_. 0)(0x1000 := 1)) big_vm"
  and big_vm_objs: "objs big_vm = [0x1000 \<mapsto> \<lparr>vo_ref = 1, vo_kind = ObjShared None 0, vo_size = 0x100000, vo_port = 0\<rparr>]"
  using vm_object_alloc_correct [OF empty_vm_inv, of "0x1000" "0x100000" "ObjShared None 0" 0]
  by (auto simp: big_vm_def vm_object_create_shared_def empty_vm_def)

lemma big_vm_fault: "\<exists>st'. vm_object_fault good_env 0x1000 0x1008 True big_vm = Some (st', Inr 0x1000)"
proof -
  have "vm_pmm big_vm = pmm_example"
    by (simp add: big_vm_def vm_object_create_shared_def vm_object_alloc_def empty_vm_def)
  then have "pmm_alloc_page (vm_pmm big_vm) = Some (take_page 1 pmm_example, 0x1000)"
    using pmm_alloc_page_eq [OF pmm_example_inv] by (simp add: pmm_example_free)
  moreover have "\<not> (64 :: u64) \<le> 1" by (simp add: word_le_nat_alt)
  ultimately show ?thesis
    by (subst fault_shared_eq [of _ _ "\<lparr>vo_ref = 1, vo_kind = ObjShared None 0, vo_size = 0x100000, vo_port = 0\<rparr>" None 0])
      (simp_all add: big_vm_objs vm_object_shared_fault_def shared_grow_def grow_cap.simps [of 64 1] good_env_def
        set_kind_def alloc_zeroed_page_def Let_def nth_opt_def)
qed

section \<open>Sequences of faults\<close>

text \<open>Faults one after the other, each with its own environment, object, offset and kind of access.\<close>

fun run_faults :: "(vm_env \<times> u64 \<times> u64 \<times> bool) list \<Rightarrow> vmstate \<Rightarrow> vmstate option" where
  "run_faults [] st = Some st"
| "run_faults ((env, a, offset, w) # fs) st = do { (st, _) \<leftarrow> vm_object_fault env a offset w st; run_faults fs st }"

lemma fault_envs_step:
  assumes "\<forall>(e, b, d, v) \<in> set fs. objs st b \<noteq> None \<and> pager_ok e \<and> ident_ok e st" and "fault_step st st'"
  shows "\<forall>(e, b, d, v) \<in> set fs. objs st' b \<noteq> None \<and> pager_ok e \<and> ident_ok e st'"
proof -
  have "objs st b \<noteq> None \<Longrightarrow> objs st' b \<noteq> None" "ident_ok e st \<Longrightarrow> ident_ok e st'" for b e
    using assms(2) obj_same_None [of "objs st b" "objs st' b"] by (auto simp: fault_step_def same_graph_def ident_ok_def)
  then show ?thesis using assms(1) by fast
qed

lemma run_faults_returns:
  assumes "vmo_inv ext st" and "\<forall>(e, b, d, v) \<in> set fs. objs st b \<noteq> None \<and> pager_ok e \<and> ident_ok e st"
  shows "\<exists>st'. run_faults fs st = Some st' \<and> fault_step st st'"
  using assms
proof (induction fs arbitrary: st)
  case Nil
  then show ?case using fault_step_refl [of st] by (simp add: vmo_inv_def)
next
  case (Cons x fs)
  obtain e b d v where x: "x = (e, b, d, v)" by (cases x)
  then obtain st1 r where f: "vm_object_fault e b d v st = Some (st1, r)" "fault_step st st1"
    using fault_returns [OF Cons.prems(1), of b e d v] Cons.prems(2) by auto
  moreover have "\<forall>(e, b, d, v) \<in> set fs. objs st1 b \<noteq> None \<and> pager_ok e \<and> ident_ok e st1"
    using fault_envs_step [OF _ f(2), of fs] Cons.prems(2) by simp
  ultimately show ?case using Cons.IH [OF fault_step_vmo_inv [OF Cons.prems(1) f(2)]] x fault_step_trans by fastforce
qed

lemma shared_fault_caches:
  assumes inv: "vmo_inv ext st" and a: "objs st a = Some ob" "vo_kind ob = ObjShared pages cap"
    and f: "vm_object_fault env a offset w st = Some (st', Inr p)"
  shows "fault_step st st' \<and> cached_at st' a (unat (offset div PAGE_SIZE)) = p \<and> p \<noteq> 0 \<and>
    (cached_at st a (unat (offset div PAGE_SIZE)) = 0 \<longrightarrow> page_no p \<in> pmm_free (vm_pmm st) \<and> frames st' p = zero_page)"
proof -
  have pk: "pages_inv st" "kinds_ok st" using inv by (auto simp: vmo_inv_def)
  have k: "kind_ok (unat (vo_size ob)) (vo_kind ob)" using kinds_okD [OF pk(2) a(1)] by blast
  have f': "vm_object_shared_fault env pages cap a offset st = Some (st', Inr p)"
    using f fault_shared_eq [OF a] by simp
  then have off: "offset < vo_size ob" using a(1) by (auto simp: vm_object_shared_fault_def split: if_splits)
  show ?thesis
    using shared_fault_hit [OF a k off, of env] shared_fault_miss [OF pk a off, of env] f' fault_step_refl [OF pk]
    by (cases "cached_at st a (unat (offset div PAGE_SIZE)) = 0") force+
qed

lemma cached_fault:
  assumes s: "fault_step st st'" and a: "objs st a = Some ob" and off: "offset < vo_size ob"
    and c: "cached_at st' a (unat (offset div PAGE_SIZE)) \<noteq> 0"
  shows "vm_object_fault env a offset w st' = Some (st', Inr (cached_at st' a (unat (offset div PAGE_SIZE))))"
proof -
  obtain ob' where ob': "objs st' a = Some ob'" "vo_size ob' = vo_size ob"
    using s a obj_same_Some [of ob "objs st' a"] unfolding fault_step_def same_graph_def by metis
  then obtain pages' cap' where k': "vo_kind ob' = ObjShared pages' cap'"
    using c by (cases "vo_kind ob'") (auto simp: cached_at_def)
  have "kinds_ok st'" using s by (simp add: fault_step_def)
  then show ?thesis
    using shared_fault_hit [OF ob'(1) k', of offset env] kinds_okD [of st' a ob'] ob' off c fault_shared_eq [OF ob'(1) k'] by simp
qed

section \<open>Properties\<close>

text \<open>
  C14. Releasing one of the outside references of a memory object is always defined: it keeps the
  reference counts exact, frees the object exactly when that was its last reference (of address maps,
  capabilities and shadow objects together), and returns to the page allocator exactly the cached
  pages of the objects that are gone; the other objects change in nothing but their count.
\<close>
theorem vm_object_release_correct:
  assumes "vmo_inv ext st" and "0 < ext a"
  shows "\<exists>st'. vm_object_release a st = Some st' \<and> vmo_inv (ext(a := ext a - 1)) st' \<and> shrinks st st' \<and>
    (objs st' a = None \<longleftrightarrow> ext a + card (children st a) = 1) \<and>
    pmm_free (vm_pmm st') = pmm_free (vm_pmm st) \<union> freed_pages st st'"
  using release_correct [OF assms] by (simp add: released_def)

theorem vm_object_release_correct_witness:
  "\<exists>st'. vm_object_release 0x3000 example_shadow_vm = Some st' \<and> vmo_inv ((\<lambda>_. 0)(0x1000 := 1)) st'"
proof -
  have "((\<lambda>_. 0 :: nat)(0x1000 := 1, 0x3000 := 1))(0x3000 := 0) = (\<lambda>_ :: u64. 0)(0x1000 := 1)"
    by (auto simp: fun_eq_iff)
  then show ?thesis
    using vm_object_release_correct [OF example_shadow_vm_inv, of "0x3000"] by auto
qed

text \<open>
  A page fault on a live object always returns, through any chain of shadow objects, when the
  pager returns and the kernel maps the allocator's pages; it keeps the invariants, and no page that
  was in use changes its contents.
\<close>
lemma vm_object_fault_total:
  assumes "vmo_inv ext st" and "objs st a \<noteq> None" and "pager_ok env" and "ident_ok env st"
  shows "\<exists>st' r. vm_object_fault env a offset w st = Some (st', r) \<and> vmo_inv ext st' \<and> same_graph st st' \<and>
    (\<forall>p. page_no p \<notin> pmm_free (vm_pmm st) \<longrightarrow> frames st' p = frames st p)"
proof -
  obtain st' r where "vm_object_fault env a offset w st = Some (st', r)" "fault_step st st'"
    using fault_returns [OF assms] by blast
  then show ?thesis using fault_step_vmo_inv [OF assms(1)] by (auto simp: fault_step_def)
qed

lemma vm_object_fault_total_witness:
  "\<exists>st' r. vm_object_fault good_env 0x3000 0x1000 True example_shadow_vm = Some (st', r) \<and>
    vmo_inv ((\<lambda>_. 0)(0x1000 := 1, 0x3000 := 1)) st'"
  using vm_object_fault_total [OF example_shadow_vm_inv example_shadow_live good_env_ok, of "0x1000" True] by blast



text \<open>
  C19. The first write through a shadow of fixed physical memory gives a private copy of the parent's
  page.  The next fault on the same page does not return that copy: it goes to the parent again and
  hands out the parent's own page, so later writes reach the memory the shadow was meant to protect.
\<close>
theorem shadow_refault_exposes_parent:
  assumes inv: "vmo_inv ext st" and a: "objs st a = Some ob" "vo_kind ob = ObjShadow p m n"
    and p: "objs st p = Some pb" "vo_kind pb = ObjPhys base" and off: "offset < vo_size ob" "offset < vo_size pb"
    and fresh: "m ! (unat offset div 4096 div 64) AND shadow_mask offset = 0"
    and f: "vm_object_fault env a offset True st = Some (st', Inr q)"
  shows "frames st' q = frames st ((base + (offset AND NOT 4095)) AND NOT 4095) \<and> page_no q \<in> pmm_free (vm_pmm st) \<and>
    vm_object_fault env a offset True st' = Some (st', Inr (base + (offset AND NOT 4095)))"
proof -
  have pk: "pages_inv st" "kinds_ok st" using inv by (auto simp: vmo_inv_def)
  let ?i = "unat offset div 4096 div 64" and ?src = "base + (offset AND NOT 4095)"
  have k: "unat (vo_size ob) \<le> VM_SIZE_MAX" "unat (vo_size ob) \<le> length m * 64 * 4096" "p \<noteq> NULL"
    using kinds_okD [OF pk(2) a(1)] a(2) by auto
  have pa: "p \<noteq> a" using a p by auto
  note idx = shadow_word_idx_eq [OF k(1) off(1) k(2)]
  obtain pm r where pm: "pmm_alloc_page (vm_pmm st) = Some (pm, r)" and r: "r \<noteq> NULL \<longrightarrow> page_no r \<in> pmm_free (vm_pmm st)"
    by (rule ps.allocE [OF pages_invD(1) [OF pk(1)]])
  let ?st1 = "st\<lparr>vm_pmm := pm, frames := (frames st)(r := frames st (?src AND NOT 4095))\<rparr>"
  have run: "r \<noteq> NULL" "mark_copied a offset ?st1 = Some st'" "q = r"
    using f fresh idx pm fault_shadow_eq [OF a k(3) off(1) idx, of env True] fault_phys_eq [OF p off(2), of env] a k(3) off(1)
    by (auto simp: vm_object_shadow_fault_def Let_def not_le [symmetric] split: if_splits elim!: bind_SomeE)
  have pk1: "pages_inv ?st1" "kinds_ok ?st1"
    using fault_step_take [OF pk pm, of "(frames st)(r := frames st (?src AND NOT 4095))"] run(1)
    by (auto simp: fault_step_def)
  let ?m = "m[?i := m ! ?i OR shadow_mask offset]" and ?ob = "ob\<lparr>vo_kind := ObjShadow p (m[?i := m ! ?i OR shadow_mask offset]) n\<rparr>"
  have st': "frames st' = frames ?st1" "objs st' = (objs st)(a \<mapsto> ?ob)"
    using mark_copied_correct [OF pk1 _ a(2) off(1), of a] a(1) run(2) by auto
  have "vm_object_fault env a offset True st' = vm_object_fault env p offset True st'"
    using fault_shadow_eq [of st' a ?ob p ?m n offset ?i env True] st'(2) k(3) off(1) idx shadow_mask_or [of "m ! ?i" offset]
    by simp
  also have "\<dots> = Some (st', Inr ?src)"
    by (rule fault_phys_eq) (use p off(2) st'(2) pa in simp_all)
  finally show ?thesis using run r st'(1) by simp
qed

theorem shadow_refault_exposes_parent_witness:
  "\<exists>st'. vm_object_fault good_env 0x3000 0 True example_cow_vm = Some (st', Inr 0x1000) \<and>
    vm_object_fault good_env 0x3000 0 True st' = Some (st', Inr 0xB8000)"
proof -
  obtain st' where st': "vm_object_fault good_env 0x3000 0 True example_cow_vm = Some (st', Inr 0x1000)"
    using example_cow_fault by blast
  then show ?thesis
    using shadow_refault_exposes_parent [OF example_cow_inv _ _ _ _ _ _ _ st'] by (simp add: example_cow_objs)
qed

text \<open>
  The doubling loop that sizes the page cache of a shared object ends exactly for page indices
  below 2 to the 31: then the capacity it returns exceeds the index.  From there on the 32-bit capacity
  wraps to zero and the loop never ends.
\<close>
lemma shared_capacity_growth:
  shows "if unat page_idx < 2 ^ 31 then \<exists>c. grow_cap 64 page_idx = Some c \<and> unat page_idx < unat c
    else grow_cap 64 page_idx = None"
proof -
  have p6: "unat (64 :: u32) = 2 ^ 6" by simp
  then have "\<exists>j<32. unat (64 :: u32) = 2 ^ j" by (intro exI [of _ 6]) simp
  then show ?thesis
    using grow_cap_correct [OF p6, of page_idx] grow_cap_diverges [of page_idx 64] by fastforce
qed

end
