(* ===== verification/VmMap.thy ===== *)
theory VmMap
  imports VmObject
begin

unbundle bit_operations_syntax

text \<open>
  Address maps of \<^verbatim>\<open>mk/vm/vm_map.c\<close>: an array of entries sorted by start address, each mapping a range
  of virtual addresses to a memory object.  The array has \<open>max_entries\<close> cells, of which the first
  \<open>entry_count\<close> are live; both counts lie between 0 and 65536 and are natural numbers here.

  Arguments that stand for code outside the component: \<open>mem n\<close>, the result of allocating an array of
  \<open>n\<close> entries (NULL, or \<open>n\<close> entries of arbitrary contents), and the environment of the fault
  handlers.  After the array has been reallocated, an access through a pointer into the old one is
  undefined (\<open>None\<close>).

  The theorems relate the map to the address space it stands for, a partial function from
  addresses to (object, offset, protection, inheritance): mapping and unmapping update it exactly,
  the binary search finds the entry of an address, a fault is resolved through that entry; the
  reference counts of the objects stay exact; protection changes are right when the range starts
  at an entry's boundary, and two examples show what happens when it does not.
\<close>

record vm_entry =
  ve_start :: u64
  ve_end :: u64
  ve_obj :: u64
  ve_offset :: u64
  ve_prot :: u32
  ve_inherit :: u32

record vm_map =
  entries :: "vm_entry list"
  entry_count :: nat
  max_entries :: nat
  map_pml4 :: u64

type_synonym map_mem = "nat \<Rightarrow> vm_entry list option"

abbreviation VM_MAP_INIT_CAPACITY :: nat where "VM_MAP_INIT_CAPACITY \<equiv> 64"
abbreviation VM_MAP_MAX_CAPACITY :: nat where "VM_MAP_MAX_CAPACITY \<equiv> 65536"
abbreviation USER_BASE :: u64 where "USER_BASE \<equiv> 0x8000000"
abbreviation USER_STACK_TOP :: u64 where "USER_STACK_TOP \<equiv> 0x7FFFFFFFF000"

section \<open>The entry array\<close>

definition entry_overlaps :: "vm_entry \<Rightarrow> u64 \<Rightarrow> u64 \<Rightarrow> bool" where
  "entry_overlaps e start endp = (ve_start e < endp \<and> ve_end e > start)"

fun shift_right_loop :: "vm_entry list \<Rightarrow> nat \<Rightarrow> nat \<Rightarrow> vm_entry list option" where
  "shift_right_loop es i 0 = Some es"
| "shift_right_loop es i (Suc n) = do {
     x \<leftarrow> nth_opt es (i - 1);
     es \<leftarrow> upd_opt es i x;
     shift_right_loop es (i - 1) n
   }"

definition entries_shift_right :: "nat \<Rightarrow> vm_map \<Rightarrow> vm_map option" where
  "entries_shift_right index m = do {
     es \<leftarrow> shift_right_loop (entries m) (entry_count m) (entry_count m - index);
     Some (m\<lparr>entries := es\<rparr>)
   }"

fun shift_left_loop :: "vm_entry list \<Rightarrow> nat \<Rightarrow> nat \<Rightarrow> vm_entry list option" where
  "shift_left_loop es i 0 = Some es"
| "shift_left_loop es i (Suc n) = do {
     x \<leftarrow> nth_opt es (i + 1);
     es \<leftarrow> upd_opt es i x;
     shift_left_loop es (i + 1) n
   }"

definition entries_shift_left :: "nat \<Rightarrow> vm_map \<Rightarrow> vm_map option" where
  "entries_shift_left index m = do {
     es \<leftarrow> shift_left_loop (entries m) index (entry_count m - 1 - index);
     Some (m\<lparr>entries := es, entry_count := entry_count m - 1\<rparr>)
   }"

definition set_entry :: "nat \<Rightarrow> vm_entry \<Rightarrow> vm_map \<Rightarrow> vm_map option" where
  "set_entry i e m = do { es \<leftarrow> upd_opt (entries m) i e; Some (m\<lparr>entries := es\<rparr>) }"

definition vm_map_grow :: "map_mem \<Rightarrow> vm_map \<Rightarrow> (vm_map \<times> int) option" where
  "vm_map_grow mem m =
     (let new_cap = (if max_entries m < VM_MAP_INIT_CAPACITY then VM_MAP_INIT_CAPACITY else max_entries m * 2)
      in if new_cap > VM_MAP_MAX_CAPACITY then Some (m, - 1)
         else case mem new_cap of
             None \<Rightarrow> Some (m, - 1)
           | Some new_entries \<Rightarrow>
               if entry_count m \<le> length (entries m) \<and> entry_count m \<le> length new_entries
               then Some (m\<lparr>entries := take (entry_count m) (entries m) @ drop (entry_count m) new_entries,
                   max_entries := new_cap\<rparr>, 0)
               else None)"

partial_function (option) vm_map_ensure_capacity :: "map_mem \<Rightarrow> nat \<Rightarrow> vm_map \<Rightarrow> (vm_map \<times> int) option" where
  "vm_map_ensure_capacity mem extra m =
     (if entry_count m + extra > max_entries m then do {
        (m, r) \<leftarrow> vm_map_grow mem m;
        if r < 0 then Some (m, - 1) else vm_map_ensure_capacity mem extra m
      }
      else Some (m, 0))"

section \<open>Creation and destruction\<close>

definition zero_entry :: vm_entry where
  "zero_entry = \<lparr>ve_start = 0, ve_end = 0, ve_obj = NULL, ve_offset = 0, ve_prot = 0, ve_inherit = 0\<rparr>"

definition vm_map_init :: "map_mem \<Rightarrow> u64 \<Rightarrow> vm_map \<Rightarrow> vm_map \<times> int" where
  "vm_map_init mem pml4 m =
     (if pml4 = NULL then (m, - 1)
      else case mem VM_MAP_INIT_CAPACITY of
          None \<Rightarrow> (m\<lparr>entries := []\<rparr>, - 1)
        | Some _ \<Rightarrow> (\<lparr>entries = replicate VM_MAP_INIT_CAPACITY zero_entry, entry_count = 0,
            max_entries = VM_MAP_INIT_CAPACITY, map_pml4 = pml4\<rparr>, 0))"

definition vm_map_destroy :: "vm_map \<Rightarrow> vmstate \<Rightarrow> (vm_map \<times> vmstate) option" where
  "vm_map_destroy m st = do {
     st \<leftarrow> foldM (\<lambda>i st. do {
         e \<leftarrow> nth_opt (entries m) i;
         if ve_obj e \<noteq> NULL then vm_object_release (ve_obj e) st else Some st
       }) [0..<entry_count m] st;
     Some (m\<lparr>entries := [], entry_count := 0, max_entries := 0\<rparr>, st)
   }"

section \<open>Mapping\<close>

fun any_overlap :: "vm_entry list \<Rightarrow> u64 \<Rightarrow> u64 \<Rightarrow> nat \<Rightarrow> nat \<Rightarrow> bool option" where
  "any_overlap es addr endp i 0 = Some False"
| "any_overlap es addr endp i (Suc n) = do {
     e \<leftarrow> nth_opt es i;
     if entry_overlaps e addr endp then Some True else any_overlap es addr endp (i + 1) n
   }"

fun insert_index :: "vm_entry list \<Rightarrow> u64 \<Rightarrow> nat \<Rightarrow> nat \<Rightarrow> nat option" where
  "insert_index es addr i 0 = Some i"
| "insert_index es addr i (Suc n) = do {
     e \<leftarrow> nth_opt es i;
     if ve_start e > addr then Some i else insert_index es addr (i + 1) n
   }"

definition insert_entry :: "nat \<Rightarrow> vm_entry \<Rightarrow> vm_map \<Rightarrow> vm_map option" where
  "insert_entry i e m = do {
     m \<leftarrow> entries_shift_right i m;
     m \<leftarrow> set_entry i e m;
     Some (m\<lparr>entry_count := entry_count m + 1\<rparr>)
   }"

definition map_args_ok :: "u64 \<Rightarrow> u64 \<Rightarrow> u64 \<Rightarrow> u64 \<Rightarrow> bool" where
  "map_args_ok addr obj obj_offset sz \<longleftrightarrow>
     obj \<noteq> NULL \<and> sz \<noteq> 0 \<and> addr AND 4095 = 0 \<and> obj_offset AND 4095 = 0 \<and> sz AND 4095 = 0 \<and>
     \<not> addr + sz < addr \<and> \<not> addr < USER_BASE \<and> \<not> addr + sz > USER_STACK_TOP"

definition vm_map_map ::
  "map_mem \<Rightarrow> u64 \<Rightarrow> u64 \<Rightarrow> u64 \<Rightarrow> u64 \<Rightarrow> u32 \<Rightarrow> u32 \<Rightarrow> vm_map \<Rightarrow> vmstate \<Rightarrow> (vm_map \<times> vmstate \<times> int) option" where
  "vm_map_map mem addr obj obj_offset sz prot inherit m st =
     (if \<not> map_args_ok addr obj obj_offset sz then Some (m, st, - 1)
      else do {
        let endp = addr + sz;
        ov \<leftarrow> any_overlap (entries m) addr endp 0 (entry_count m);
        if ov then Some (m, st, - 1)
        else do {
          (m, r) \<leftarrow> vm_map_ensure_capacity mem 1 m;
          if r < 0 then Some (m, st, - 1)
          else do {
            insert_idx \<leftarrow> insert_index (entries m) addr 0 (entry_count m);
            st \<leftarrow> vm_object_retain obj st;
            m \<leftarrow> insert_entry insert_idx \<lparr>ve_start = addr, ve_end = endp, ve_obj = obj,
              ve_offset = obj_offset, ve_prot = prot, ve_inherit = inherit\<rparr> m;
            Some (m, st, 0)
          }
        }
      })"

section \<open>Unmapping\<close>

text \<open>
  One iteration at index \<open>i\<close>; the result holds the next index, or \<open>None\<close> when the function returns
  -1.  The pointer \<^verbatim>\<open>e\<close> is taken before the capacity is ensured.
\<close>

definition unmap_step ::
  "map_mem \<Rightarrow> u64 \<Rightarrow> u64 \<Rightarrow> nat \<Rightarrow> vm_map \<Rightarrow> vmstate \<Rightarrow> (vm_map \<times> vmstate \<times> nat option) option" where
  "unmap_step mem addr endp i m st = do {
     e \<leftarrow> nth_opt (entries m) i;
     if \<not> entry_overlaps e addr endp then Some (m, st, Some (i + 1))
     else if addr \<le> ve_start e \<and> endp \<ge> ve_end e then do {
       st \<leftarrow> (if ve_obj e \<noteq> NULL then vm_object_release (ve_obj e) st else Some st);
       m \<leftarrow> entries_shift_left i m;
       Some (m, st, Some i)
     }
     else if addr \<le> ve_start e \<and> endp < ve_end e then do {
       m \<leftarrow> set_entry i (e\<lparr>ve_start := endp, ve_offset := ve_offset e + (endp - ve_start e)\<rparr>) m;
       Some (m, st, Some (i + 1))
     }
     else if addr > ve_start e \<and> endp \<ge> ve_end e then do {
       m \<leftarrow> set_entry i (e\<lparr>ve_end := addr\<rparr>) m;
       Some (m, st, Some (i + 1))
     }
     else if addr > ve_start e \<and> endp < ve_end e then do {
       (m1, r) \<leftarrow> vm_map_ensure_capacity mem 1 m;
       if r < 0 then Some (m1, st, None)
       else if max_entries m1 \<noteq> max_entries m then None
       else do {
         let right_fragment = e\<lparr>ve_start := endp, ve_offset := ve_offset e + (endp - ve_start e)\<rparr>;
         st \<leftarrow> vm_object_retain (ve_obj right_fragment) st;
         m \<leftarrow> set_entry i (e\<lparr>ve_end := addr\<rparr>) m1;
         m \<leftarrow> insert_entry (i + 1) right_fragment m;
         Some (m, st, Some (i + 2))
       }
     }
     else Some (m, st, Some (i + 1))
   }"

partial_function (option) unmap_loop ::
  "map_mem \<Rightarrow> u64 \<Rightarrow> u64 \<Rightarrow> nat \<Rightarrow> vm_map \<Rightarrow> vmstate \<Rightarrow> (vm_map \<times> vmstate \<times> int) option" where
  "unmap_loop mem addr endp i m st =
     (if i < entry_count m then do {
        (m, st, n) \<leftarrow> unmap_step mem addr endp i m st;
        if n = None then Some (m, st, - 1) else unmap_loop mem addr endp (the n) m st
      }
      else Some (m, st, 0))"

definition vm_map_unmap :: "map_mem \<Rightarrow> u64 \<Rightarrow> u64 \<Rightarrow> vm_map \<Rightarrow> vmstate \<Rightarrow> (vm_map \<times> vmstate \<times> int) option" where
  "vm_map_unmap mem addr sz m st =
     (if sz = 0 \<or> addr + sz < addr then Some (m, st, - 1)
      else unmap_loop mem addr (addr + sz) 0 m st)"

section \<open>Changing protection\<close>

definition protect_step ::
  "map_mem \<Rightarrow> u32 \<Rightarrow> u64 \<Rightarrow> u64 \<Rightarrow> nat \<Rightarrow> vm_map \<Rightarrow> vmstate \<Rightarrow> (vm_map \<times> vmstate \<times> nat option) option" where
  "protect_step mem prot addr endp i m st = do {
     e \<leftarrow> nth_opt (entries m) i;
     if \<not> entry_overlaps e addr endp then Some (m, st, Some (i + 1))
     else if addr \<le> ve_start e \<and> endp \<ge> ve_end e then do {
       m \<leftarrow> set_entry i (e\<lparr>ve_prot := prot\<rparr>) m;
       Some (m, st, Some (i + 1))
     }
     else if addr \<le> ve_start e \<and> endp < ve_end e then do {
       (m1, r) \<leftarrow> vm_map_ensure_capacity mem 1 m;
       if r < 0 then Some (m1, st, None)
       else if max_entries m1 \<noteq> max_entries m then None
       else do {
         let right_fragment = e\<lparr>ve_start := endp, ve_offset := ve_offset e + (endp - ve_start e)\<rparr>;
         st \<leftarrow> vm_object_retain (ve_obj right_fragment) st;
         m \<leftarrow> set_entry i (e\<lparr>ve_end := endp, ve_prot := prot\<rparr>) m1;
         m \<leftarrow> insert_entry (i + 1) right_fragment m;
         Some (m, st, Some (i + 2))
       }
     }
     else if addr > ve_start e \<and> endp \<ge> ve_end e then do {
       (m1, r) \<leftarrow> vm_map_ensure_capacity mem 1 m;
       if r < 0 then Some (m1, st, None)
       else if max_entries m1 \<noteq> max_entries m then None
       else do {
         let left_fragment = e\<lparr>ve_end := addr\<rparr>;
         st \<leftarrow> vm_object_retain (ve_obj left_fragment) st;
         m \<leftarrow> set_entry i (e\<lparr>ve_start := addr, ve_offset := ve_offset e + (addr - ve_start left_fragment),
           ve_prot := prot\<rparr>) m1;
         m \<leftarrow> insert_entry (i + 1) left_fragment m;
         Some (m, st, Some (i + 2))
       }
     }
     else if addr > ve_start e \<and> endp < ve_end e then do {
       (m1, r) \<leftarrow> vm_map_ensure_capacity mem 2 m;
       if r < 0 then Some (m1, st, None)
       else if max_entries m1 \<noteq> max_entries m then None
       else do {
         let right_fragment = e\<lparr>ve_start := endp, ve_offset := ve_offset e + (endp - ve_start e)\<rparr>;
         st \<leftarrow> vm_object_retain (ve_obj right_fragment) st;
         m \<leftarrow> set_entry i (e\<lparr>ve_end := addr\<rparr>) m1;
         st \<leftarrow> vm_object_retain (ve_obj e) st;
         let middle = \<lparr>ve_start = addr, ve_end = endp, ve_obj = ve_obj e,
           ve_offset = ve_offset e + (addr - ve_start e), ve_prot = prot, ve_inherit = ve_inherit e\<rparr>;
         m \<leftarrow> entries_shift_right (i + 1) m;
         m \<leftarrow> entries_shift_right (i + 2) m;
         m \<leftarrow> set_entry (i + 1) middle m;
         m \<leftarrow> set_entry (i + 2) right_fragment m;
         Some (m\<lparr>entry_count := entry_count m + 2\<rparr>, st, Some (i + 3))
       }
     }
     else Some (m, st, Some (i + 1))
   }"

partial_function (option) protect_loop ::
  "map_mem \<Rightarrow> u32 \<Rightarrow> u64 \<Rightarrow> u64 \<Rightarrow> nat \<Rightarrow> vm_map \<Rightarrow> vmstate \<Rightarrow> (vm_map \<times> vmstate \<times> int) option" where
  "protect_loop mem prot addr endp i m st =
     (if i < entry_count m then do {
        (m, st, n) \<leftarrow> protect_step mem prot addr endp i m st;
        if n = None then Some (m, st, - 1) else protect_loop mem prot addr endp (the n) m st
      }
      else Some (m, st, 0))"

definition vm_map_protect ::
  "map_mem \<Rightarrow> u64 \<Rightarrow> u64 \<Rightarrow> u32 \<Rightarrow> vm_map \<Rightarrow> vmstate \<Rightarrow> (vm_map \<times> vmstate \<times> int) option" where
  "vm_map_protect mem addr sz prot m st =
     (if sz = 0 \<or> addr + sz < addr then Some (m, st, - 1)
      else protect_loop mem prot addr (addr + sz) 0 m st)"

section \<open>Lookup and faults\<close>

function bsearch :: "vm_entry list \<Rightarrow> u64 \<Rightarrow> int \<Rightarrow> int \<Rightarrow> int \<Rightarrow> int option" where
  "bsearch es addr lo hi best =
     (if lo \<le> hi then
        let mid = lo + (hi - lo) div 2
        in if mid < 0 then None
           else do {
             e \<leftarrow> nth_opt es (nat mid);
             if ve_start e \<le> addr then bsearch es addr (mid + 1) hi mid
             else bsearch es addr lo (mid - 1) best
           }
      else Some best)"
  by pat_completeness auto
termination
  by (relation "measure (\<lambda>(es, addr, lo, hi, best). nat (hi - lo + 1))") auto

declare bsearch.simps [simp del]

definition vm_map_find_entry :: "u64 \<Rightarrow> vm_map \<Rightarrow> nat option option" where
  "vm_map_find_entry addr m =
     (if entry_count m = 0 then Some None
      else do {
        best \<leftarrow> bsearch (entries m) addr 0 (int (entry_count m) - 1) (- 1);
        if best \<ge> 0 then do {
          e \<leftarrow> nth_opt (entries m) (nat best);
          Some (if addr < ve_end e then Some (nat best) else None)
        }
        else Some None
      })"

definition vm_map_resolve_fault :: "vm_env \<Rightarrow> u64 \<Rightarrow> bool \<Rightarrow> vm_map \<Rightarrow> vmstate \<Rightarrow> fault_result" where
  "vm_map_resolve_fault env fault_addr write_fault m st = do {
     found \<leftarrow> vm_map_find_entry fault_addr m;
     case found of
       None \<Rightarrow> Some (st, Inl (- 1))
     | Some i \<Rightarrow> do {
         entry \<leftarrow> nth_opt (entries m) i;
         let required_prot = (if write_fault then VM_PROT_WRITE else VM_PROT_READ);
         if ve_prot entry AND required_prot = 0 then Some (st, Inl (- 1))
         else do {
           let offset = ((fault_addr - ve_start entry) + ve_offset entry) AND NOT 4095;
           (st, r) \<leftarrow> vm_object_fault env (ve_obj entry) offset write_fault st;
           Some (st, case r of Inr phys \<Rightarrow> Inr phys | Inl e \<Rightarrow> if e = - 11 then Inl (- 11) else Inl (- 1))
         }
       }
   }"

declare vm_map_ensure_capacity.simps [code] unmap_loop.simps [code] protect_loop.simps [code]

section \<open>The array operations on the live entries\<close>

definition live :: "vm_map \<Rightarrow> vm_entry list" where
  "live m = take (entry_count m) (entries m)"

definition arr_ok :: "vm_map \<Rightarrow> bool" where
  "arr_ok m \<longleftrightarrow> entry_count m \<le> max_entries m \<and> length (entries m) = max_entries m"

lemma length_live: "arr_ok m \<Longrightarrow> length (live m) = entry_count m"
  by (simp add: live_def arr_ok_def)

lemma nth_live: "arr_ok m \<Longrightarrow> i < entry_count m \<Longrightarrow> nth_opt (entries m) i = Some (live m ! i)"
  by (simp add: live_def arr_ok_def)

lemma shift_right_loop_eq:
  assumes "n \<le> i" and "i < length es"
  shows "\<exists>es'. shift_right_loop es i n = Some es' \<and> length es' = length es \<and>
    (\<forall>j<length es. es' ! j = (if i - n < j \<and> j \<le> i then es ! (j - 1) else es ! j))"
  using assms
proof (induction n arbitrary: es i)
  case (Suc n)
  let ?es = "es[i := es ! (i - 1)]"
  have "n \<le> i - 1" "i - 1 < length ?es" using Suc.prems by auto
  from Suc.IH [OF this] obtain es' where es': "shift_right_loop ?es (i - 1) n = Some es'" "length es' = length es"
    "\<forall>j<length es. es' ! j = (if i - 1 - n < j \<and> j \<le> i - 1 then ?es ! (j - 1) else ?es ! j)"
    by auto
  have "es' ! j = (if i - Suc n < j \<and> j \<le> i then es ! (j - 1) else es ! j)" if "j < length es" for j
    using es'(3) that Suc.prems by (auto simp: nth_list_update)
  then show ?case using es'(1,2) Suc.prems by simp
qed (auto simp: not_less [symmetric])

lemma shift_left_loop_eq:
  assumes "i + n < length es"
  shows "\<exists>es'. shift_left_loop es i n = Some es' \<and> length es' = length es \<and>
    (\<forall>j<length es. es' ! j = (if i \<le> j \<and> j < i + n then es ! (j + 1) else es ! j))"
  using assms
proof (induction n arbitrary: es i)
  case (Suc n)
  let ?es = "es[i := es ! (i + 1)]"
  have "Suc i + n < length ?es" using Suc.prems by auto
  from Suc.IH [OF this] obtain es' where es': "shift_left_loop ?es (Suc i) n = Some es'" "length es' = length es"
    "\<forall>j<length es. es' ! j = (if Suc i \<le> j \<and> j < Suc i + n then ?es ! (j + 1) else ?es ! j)"
    by auto
  have "es' ! j = (if i \<le> j \<and> j < i + Suc n then es ! (j + 1) else es ! j)" if "j < length es" for j
    using es'(3) that Suc.prems by (auto simp: nth_list_update)
  then show ?case using es'(1,2) Suc.prems by simp
qed auto

lemma set_entry_live:
  assumes "arr_ok m" and "i < entry_count m"
  shows "\<exists>m'. set_entry i e m = Some m' \<and> arr_ok m' \<and> live m' = (live m)[i := e] \<and>
    entry_count m' = entry_count m \<and> max_entries m' = max_entries m \<and> map_pml4 m' = map_pml4 m"
  using assms by (auto simp: set_entry_def arr_ok_def live_def take_update_swap)

lemma insert_entry_live:
  assumes ok: "arr_ok m" and i: "i \<le> entry_count m" and c: "entry_count m < max_entries m"
  shows "\<exists>m'. insert_entry i e m = Some m' \<and> arr_ok m' \<and> live m' = take i (live m) @ e # drop i (live m) \<and>
    entry_count m' = entry_count m + 1 \<and> max_entries m' = max_entries m \<and> map_pml4 m' = map_pml4 m"
proof -
  let ?c = "entry_count m" and ?es = "entries m"
  have len: "?c < length ?es" using ok c by (simp add: arr_ok_def)
  from shift_right_loop_eq [of "?c - i" ?c ?es] i len obtain es' where
    es': "shift_right_loop ?es ?c (?c - i) = Some es'" "length es' = length ?es"
    "\<forall>j<length ?es. es' ! j = (if i < j \<and> j \<le> ?c then ?es ! (j - 1) else ?es ! j)"
    by auto
  let ?m = "m\<lparr>entries := es'[i := e], entry_count := ?c + 1\<rparr>"
  have "insert_entry i e m = Some ?m"
    using es' i len by (simp add: insert_entry_def entries_shift_right_def set_entry_def)
  moreover have "live ?m = take i (live m) @ e # drop i (live m)"
  proof (rule nth_equalityI)
    show "length (live ?m) = length (take i (live m) @ e # drop i (live m))"
      using len es'(2) i by (simp add: live_def)
    fix j assume "j < length (live ?m)"
    then have "j \<le> ?c" using len es'(2) by (simp add: live_def)
    then show "live ?m ! j = (take i (live m) @ e # drop i (live m)) ! j"
      using len es' i by (auto simp: live_def nth_append nth_list_update nth_Cons' min_def)
  qed
  ultimately show ?thesis using ok c es'(2) by (auto simp: arr_ok_def)
qed

lemma shift_left_live:
  assumes ok: "arr_ok m" and i: "i < entry_count m"
  shows "\<exists>m'. entries_shift_left i m = Some m' \<and> arr_ok m' \<and> live m' = take i (live m) @ drop (Suc i) (live m) \<and>
    entry_count m' = entry_count m - 1 \<and> max_entries m' = max_entries m \<and> map_pml4 m' = map_pml4 m"
proof -
  let ?c = "entry_count m" and ?es = "entries m"
  have len: "?c \<le> length ?es" using ok by (simp add: arr_ok_def)
  then have "?c - Suc 0 < length ?es" using i by simp
  from shift_left_loop_eq [of i "?c - 1 - i" ?es] i this obtain es' where
    es': "shift_left_loop ?es i (?c - 1 - i) = Some es'" "length es' = length ?es"
    "\<forall>j<length ?es. es' ! j = (if i \<le> j \<and> j < ?c - 1 then ?es ! (j + 1) else ?es ! j)"
    by auto
  let ?m = "m\<lparr>entries := es', entry_count := ?c - 1\<rparr>"
  have "entries_shift_left i m = Some ?m"
    using es' by (simp add: entries_shift_left_def)
  moreover have "live ?m = take i (live m) @ drop (Suc i) (live m)"
  proof (rule nth_equalityI)
    show "length (live ?m) = length (take i (live m) @ drop (Suc i) (live m))"
      using len es'(2) i by (simp add: live_def)
    fix j assume "j < length (live ?m)"
    then have "j < ?c - 1" using len es'(2) by (simp add: live_def)
    then show "live ?m ! j = (take i (live m) @ drop (Suc i) (live m)) ! j"
      using len es' i by (auto simp: live_def nth_append min_def)
  qed
  ultimately show ?thesis using ok es'(2) by (auto simp: arr_ok_def)
qed

text \<open>Growing keeps the live entries; it runs at most a few times and then fits or fails.\<close>

definition map_mem_ok :: "map_mem \<Rightarrow> bool" where
  "map_mem_ok mem \<longleftrightarrow> (\<forall>n es. mem n = Some es \<longrightarrow> length es = n)"

lemma vm_map_grow_live:
  assumes ok: "arr_ok m" and mem: "map_mem_ok mem"
  shows "\<exists>m' r. vm_map_grow mem m = Some (m', r) \<and> arr_ok m' \<and> live m' = live m \<and> entry_count m' = entry_count m \<and>
    map_pml4 m' = map_pml4 m \<and>
    (r = - 1 \<and> m' = m \<or> r = 0 \<and> max_entries m < max_entries m' \<and> max_entries m' \<le> VM_MAP_MAX_CAPACITY)"
proof -
  let ?n = "if max_entries m < VM_MAP_INIT_CAPACITY then VM_MAP_INIT_CAPACITY else max_entries m * 2"
  show ?thesis
  proof (cases "?n > VM_MAP_MAX_CAPACITY \<or> mem ?n = None")
    case True
    then show ?thesis using ok by (auto simp: vm_map_grow_def Let_def)
  next
    case False
    then obtain es where es: "mem ?n = Some es" "length es = ?n" using mem by (auto simp: map_mem_ok_def)
    moreover have "max_entries m < ?n" by simp
    ultimately show ?thesis
      using False ok by (auto simp: vm_map_grow_def Let_def arr_ok_def live_def)
  qed
qed

lemma ensure_capacity_live:
  assumes "arr_ok m" and "map_mem_ok mem"
  shows "\<exists>m' r. vm_map_ensure_capacity mem extra m = Some (m', r) \<and> arr_ok m' \<and> live m' = live m \<and>
    entry_count m' = entry_count m \<and> map_pml4 m' = map_pml4 m \<and>
    (r = - 1 \<or> r = 0 \<and> entry_count m' + extra \<le> max_entries m')"
  using assms(1)
proof (induction "VM_MAP_MAX_CAPACITY - max_entries m" arbitrary: m rule: less_induct)
  case less
  show ?case
  proof (cases "entry_count m + extra > max_entries m")
    case True
    obtain m1 r where m1: "vm_map_grow mem m = Some (m1, r)" "arr_ok m1" "live m1 = live m" "entry_count m1 = entry_count m"
      "map_pml4 m1 = map_pml4 m"
      "r = - 1 \<and> m1 = m \<or> r = 0 \<and> max_entries m < max_entries m1 \<and> max_entries m1 \<le> VM_MAP_MAX_CAPACITY"
      using vm_map_grow_live [OF less.prems assms(2)] by blast
    show ?thesis
    proof (cases "r = 0")
      case r: True
      then have "VM_MAP_MAX_CAPACITY - max_entries m1 < VM_MAP_MAX_CAPACITY - max_entries m" using m1(6) by auto
      from less.hyps [OF this m1(2)] show ?thesis
        using True r m1 by (subst vm_map_ensure_capacity.simps) auto
    next
      case False
      then show ?thesis using True m1 less.prems by (subst vm_map_ensure_capacity.simps) auto
    qed
  qed (use less.prems in \<open>subst vm_map_ensure_capacity.simps, auto\<close>)
qed

lemma ensure_capacity_fits:
  "entry_count m + extra \<le> max_entries m \<Longrightarrow> vm_map_ensure_capacity mem extra m = Some (m, 0)"
  by (subst vm_map_ensure_capacity.simps) simp

section \<open>The address space of a list of entries\<close>

definition covers :: "vm_entry \<Rightarrow> u64 \<Rightarrow> bool" where
  "covers e x \<longleftrightarrow> ve_start e \<le> x \<and> x < ve_end e"

definition entry_view :: "vm_entry \<Rightarrow> u64 \<Rightarrow> u64 \<times> u64 \<times> u32 \<times> u32" where
  "entry_view e x = (ve_obj e, x - ve_start e + ve_offset e, ve_prot e, ve_inherit e)"

definition space :: "vm_entry list \<Rightarrow> u64 \<Rightarrow> (u64 \<times> u64 \<times> u32 \<times> u32) option" where
  "space es x = map_option (\<lambda>e. entry_view e x) (List.find (\<lambda>e. covers e x) es)"

definition wf_entries :: "vm_entry list \<Rightarrow> bool" where
  "wf_entries es \<longleftrightarrow> sorted_wrt (\<lambda>a b. ve_end a \<le> ve_start b) es \<and> (\<forall>e\<in>set es. ve_start e < ve_end e \<and> ve_obj e \<noteq> NULL)"

lemma wf_entries_Cons:
  "wf_entries (e # es) \<longleftrightarrow> (\<forall>f\<in>set es. ve_end e \<le> ve_start f) \<and> ve_start e < ve_end e \<and> ve_obj e \<noteq> NULL \<and> wf_entries es"
  by (auto simp: wf_entries_def)

lemma wf_entries_append:
  "wf_entries (es @ fs) \<longleftrightarrow> wf_entries es \<and> wf_entries fs \<and> (\<forall>e\<in>set es. \<forall>f\<in>set fs. ve_end e \<le> ve_start f)"
  by (auto simp: wf_entries_def sorted_wrt_append)

lemma wf_entries_Nil [simp]: "wf_entries []"
  by (simp add: wf_entries_def)

lemma space_Nil [simp]: "space [] x = None"
  by (simp add: space_def)

lemma space_Cons: "space (e # es) x = (if covers e x then Some (entry_view e x) else space es x)"
  by (simp add: space_def)

lemma space_append: "space (es @ fs) x = (case space es x of None \<Rightarrow> space fs x | Some v \<Rightarrow> Some v)"
  by (induction es) (auto simp: space_Cons)

lemma space_None_iff: "space es x = None \<longleftrightarrow> (\<forall>e\<in>set es. \<not> covers e x)"
  by (induction es) (auto simp: space_Cons)

lemma space_member:
  assumes "wf_entries es" and "e \<in> set es" and "covers e x"
  shows "space es x = Some (entry_view e x)"
  using assms
proof (induction es)
  case (Cons f es)
  show ?case
  proof (cases "e = f")
    case False
    then have "ve_end f \<le> ve_start e" using Cons.prems by (auto simp: wf_entries_Cons)
    then have "\<not> covers f x" using Cons.prems(3) by (auto simp: covers_def)
    then show ?thesis using Cons False by (auto simp: space_Cons wf_entries_Cons)
  qed (use Cons.prems in \<open>simp add: space_Cons\<close>)
qed simp

text \<open>What unmapping a range leaves of an entry.\<close>

definition cut_entry :: "u64 \<Rightarrow> u64 \<Rightarrow> vm_entry \<Rightarrow> vm_entry list" where
  "cut_entry addr endp e =
     (if \<not> entry_overlaps e addr endp then [e]
      else (if ve_start e < addr then [e\<lparr>ve_end := addr\<rparr>] else []) @
        (if endp < ve_end e then [e\<lparr>ve_start := endp, ve_offset := ve_offset e + (endp - ve_start e)\<rparr>] else []))"

definition unmap_list :: "u64 \<Rightarrow> u64 \<Rightarrow> vm_entry list \<Rightarrow> vm_entry list" where
  "unmap_list addr endp es = concat (map (cut_entry addr endp) es)"

lemma unmap_list_simps [simp]:
  "unmap_list addr endp [] = []" "unmap_list addr endp (e # es) = cut_entry addr endp e @ unmap_list addr endp es"
  by (simp_all add: unmap_list_def)

lemma cut_member:
  assumes "f \<in> set (cut_entry addr endp e)" and "ve_start e < ve_end e" and "addr < endp"
  shows "ve_start e \<le> ve_start f" and "ve_end f \<le> ve_end e" and "ve_start f < ve_end f" and "ve_obj f = ve_obj e"
  using assms by (auto simp: cut_entry_def entry_overlaps_def split: if_splits)

lemma cut_space:
  assumes "ve_start e < ve_end e" and "addr < endp"
  shows "space (cut_entry addr endp e) x = (if addr \<le> x \<and> x < endp then None else space [e] x)"
  using assms by (auto simp: cut_entry_def space_Cons space_append covers_def entry_overlaps_def entry_view_def algebra_simps)

lemma wf_cut:
  assumes "ve_start e < ve_end e" and "addr < endp" and "ve_obj e \<noteq> NULL"
  shows "wf_entries (cut_entry addr endp e)"
  using assms by (auto simp: cut_entry_def wf_entries_Cons wf_entries_append entry_overlaps_def)

lemma unmap_list_member:
  assumes "f \<in> set (unmap_list addr endp es)" and "wf_entries es" and "addr < endp"
  shows "\<exists>e\<in>set es. ve_start e \<le> ve_start f \<and> ve_end f \<le> ve_end e"
proof -
  obtain e where "e \<in> set es" "f \<in> set (cut_entry addr endp e)" using assms(1) by (auto simp: unmap_list_def)
  moreover from this have "ve_start e < ve_end e" using assms(2) by (simp add: wf_entries_def)
  ultimately show ?thesis using cut_member(1,2) [of f addr endp e] assms(3) by blast
qed

lemma unmap_list_correct:
  assumes "wf_entries es" and "addr < endp"
  shows "wf_entries (unmap_list addr endp es)"
    and "space (unmap_list addr endp es) x = (if addr \<le> x \<and> x < endp then None else space es x)"
proof -
  show "wf_entries (unmap_list addr endp es)"
    using assms(1)
  proof (induction es)
    case (Cons e es)
    have e: "ve_start e < ve_end e" "ve_obj e \<noteq> NULL" using Cons.prems by (auto simp: wf_entries_Cons)
    have "ve_end f \<le> ve_start g" if "f \<in> set (cut_entry addr endp e)" "g \<in> set (unmap_list addr endp es)" for f g
    proof -
      note fg = that
      obtain h where "h \<in> set es" "ve_start h \<le> ve_start g"
        using unmap_list_member [OF fg(2) _ assms(2)] Cons.prems by (auto simp: wf_entries_Cons)
      then show ?thesis
        using cut_member(2) [OF fg(1) e(1) assms(2)] Cons.prems by (force simp: wf_entries_Cons)
    qed
    then show ?case
      using Cons wf_cut [OF e(1) assms(2) e(2)] by (auto simp: wf_entries_Cons wf_entries_append)
  qed simp
  show "space (unmap_list addr endp es) x = (if addr \<le> x \<and> x < endp then None else space es x)"
    using assms(1)
    by (induction es) (auto simp: wf_entries_Cons space_append cut_space assms(2) space_Cons split: if_splits option.splits)
qed

section \<open>References held by the entries\<close>

definition obj_refs :: "vm_entry list \<Rightarrow> u64 \<Rightarrow> nat" where
  "obj_refs es a = count_list (map ve_obj es) a"

lemma obj_refs_simps [simp]:
  "obj_refs [] a = 0" "obj_refs (e # es) a = (if ve_obj e = a then 1 else 0) + obj_refs es a"
  "obj_refs (es @ fs) a = obj_refs es a + obj_refs fs a"
  by (simp_all add: obj_refs_def)

definition map_refs :: "(u64 \<Rightarrow> nat) \<Rightarrow> vm_entry list \<Rightarrow> vmstate \<Rightarrow> bool" where
  "map_refs oth es st \<longleftrightarrow> vmo_inv (\<lambda>a. oth a + obj_refs es a) st"

lemma map_refs_cong: "(\<And>a. obj_refs es a = obj_refs fs a) \<Longrightarrow> map_refs oth es st = map_refs oth fs st"
  by (simp add: map_refs_def)

lemma map_refs_live:
  assumes "map_refs oth es st" and "e \<in> set es"
  shows "objs st (ve_obj e) \<noteq> None"
proof -
  have "0 < obj_refs es (ve_obj e)" using assms(2) by (auto simp: obj_refs_def count_list_0_iff zero_less_iff_neq_zero)
  then show ?thesis
    using refs_inv_live [of "\<lambda>a. oth a + obj_refs es a" st "ve_obj e"] assms(1) by (auto simp: map_refs_def vmo_inv_def)
qed

lemma map_refs_release:
  assumes "map_refs oth (xs @ e # ys) st"
  shows "\<exists>st'. vm_object_release (ve_obj e) st = Some st' \<and> map_refs oth (xs @ ys) st'"
proof -
  let ?f = "\<lambda>a. oth a + obj_refs (xs @ e # ys) a"
  have "?f(ve_obj e := ?f (ve_obj e) - 1) = (\<lambda>a. oth a + obj_refs (xs @ ys) a)" by (auto simp: fun_eq_iff)
  then show ?thesis
    using release_correct [of ?f st "ve_obj e"] assms by (auto simp: map_refs_def released_def)
qed

lemma map_refs_retain:
  assumes "map_refs oth es st" and "objs st (ve_obj e) = Some ob"
  shows "\<exists>st'. vm_object_retain (ve_obj e) st = Some st' \<and> map_refs oth (e # es) st'"
proof -
  let ?f = "\<lambda>a. oth a + obj_refs es a"
  have "?f(ve_obj e := ?f (ve_obj e) + 1) = (\<lambda>a. oth a + obj_refs (e # es) a)" by (auto simp: fun_eq_iff)
  then show ?thesis
    using retain_correct [OF _ assms(2), of ?f] assms(1) by (auto simp: map_refs_def)
qed

section \<open>Unmapping refines cutting the list\<close>

lemma live_split:
  assumes "arr_ok m" and "live m = xs @ e # ys"
  shows "length xs < entry_count m" and "nth_opt (entries m) (length xs) = Some e" and "entry_count m = length xs + 1 + length ys"
proof -
  have "length (live m) = entry_count m" using length_live [OF assms(1)] .
  then show *: "length xs < entry_count m" and "entry_count m = length xs + 1 + length ys" using assms(2) by auto
  show "nth_opt (entries m) (length xs) = Some e" using nth_live [OF assms(1) *] assms(2) by simp
qed

lemma split_entry_live:
  assumes ok: "arr_ok m" and l: "live m = xs @ e # ys" and c: "entry_count m < max_entries m"
  shows "\<exists>m'. do { m \<leftarrow> set_entry (length xs) f m; insert_entry (length xs + 1) g m } = Some m' \<and> arr_ok m' \<and>
    live m' = xs @ [f, g] @ ys \<and> max_entries m' = max_entries m \<and> map_pml4 m' = map_pml4 m"
proof -
  note sp = live_split [OF ok l]
  obtain m1 where m1: "set_entry (length xs) f m = Some m1" "arr_ok m1" "live m1 = xs @ f # ys"
    "entry_count m1 = entry_count m" "max_entries m1 = max_entries m" "map_pml4 m1 = map_pml4 m"
    using set_entry_live [OF ok sp(1), of f] l by auto
  obtain m2 where "insert_entry (length xs + 1) g m1 = Some m2" "arr_ok m2"
    "live m2 = take (length xs + 1) (live m1) @ g # drop (length xs + 1) (live m1)"
    "max_entries m2 = max_entries m1" "map_pml4 m2 = map_pml4 m1"
    using insert_entry_live [OF m1(2), of "length xs + 1" g] sp(1) c m1(4,5) by auto
  then show ?thesis using m1 by simp
qed

definition step_ok :: "(u64 \<Rightarrow> nat) \<Rightarrow> vm_entry list \<Rightarrow> vm_map \<Rightarrow> vm_map \<Rightarrow> vmstate \<Rightarrow> bool" where
  "step_ok oth es m m' st' \<longleftrightarrow> arr_ok m' \<and> live m' = es \<and> max_entries m' = max_entries m \<and> map_pml4 m' = map_pml4 m \<and>
     map_refs oth es st'"

lemma map_refs_retain_member:
  assumes "map_refs oth es st" and "e \<in> set es" and "ve_obj f = ve_obj e"
  shows "\<exists>st'. vm_object_retain (ve_obj e) st = Some st' \<and> map_refs oth (f # es) st'"
  using map_refs_live [OF assms(1,2)] map_refs_retain [OF assms(1), of f] assms(3) by auto

lemma unmap_step_live:
  assumes ok: "arr_ok m" and l: "live m = xs @ e # ys" and e: "ve_start e < ve_end e" "ve_obj e \<noteq> NULL"
    and rng: "addr < endp" and c: "ve_start e < addr \<and> endp < ve_end e \<longrightarrow> entry_count m < max_entries m"
    and refs: "map_refs oth (live m) st"
  shows "\<exists>m' st'. unmap_step mem addr endp (length xs) m st = Some (m', st', Some (length xs + length (cut_entry addr endp e))) \<and>
    step_ok oth (xs @ cut_entry addr endp e @ ys) m m' st'"
proof -
  note sp = live_split [OF ok l]
  consider (out) "\<not> entry_overlaps e addr endp"
    | (all) "entry_overlaps e addr endp" "addr \<le> ve_start e" "ve_end e \<le> endp"
    | (left) "entry_overlaps e addr endp" "addr \<le> ve_start e" "endp < ve_end e"
    | (right) "entry_overlaps e addr endp" "ve_start e < addr" "ve_end e \<le> endp"
    | (inner) "entry_overlaps e addr endp" "ve_start e < addr" "endp < ve_end e"
    by fastforce
  then show ?thesis
  proof cases
    case out
    then show ?thesis using sp ok l refs by (simp add: unmap_step_def cut_entry_def step_ok_def)
  next
    case all
    obtain st' where "vm_object_release (ve_obj e) st = Some st'" "map_refs oth (xs @ ys) st'"
      using map_refs_release refs l by metis
    then show ?thesis
      using all sp shift_left_live [OF ok sp(1)] e(2) l by (auto simp: unmap_step_def cut_entry_def step_ok_def)
  next
    case left
    let ?f = "e\<lparr>ve_start := endp, ve_offset := ve_offset e + (endp - ve_start e)\<rparr>"
    have "map_refs oth (xs @ ?f # ys) st" using refs l map_refs_cong [of "xs @ ?f # ys" "live m"] by simp
    then show ?thesis
      using left sp set_entry_live [OF ok sp(1), of ?f] l by (auto simp: unmap_step_def cut_entry_def step_ok_def)
  next
    case right
    let ?f = "e\<lparr>ve_end := addr\<rparr>"
    have "map_refs oth (xs @ ?f # ys) st" using refs l map_refs_cong [of "xs @ ?f # ys" "live m"] by simp
    then show ?thesis
      using right sp set_entry_live [OF ok sp(1), of ?f] l by (auto simp: unmap_step_def cut_entry_def step_ok_def)
  next
    case inner
    let ?f = "e\<lparr>ve_end := addr\<rparr>" and ?g = "e\<lparr>ve_start := endp, ve_offset := ve_offset e + (endp - ve_start e)\<rparr>"
    have cap: "entry_count m < max_entries m" using c inner by simp
    obtain m' where m': "do { m \<leftarrow> set_entry (length xs) ?f m; insert_entry (length xs + 1) ?g m } = Some m'"
      "arr_ok m'" "live m' = xs @ [?f, ?g] @ ys" "max_entries m' = max_entries m" "map_pml4 m' = map_pml4 m"
      using split_entry_live [OF ok l cap, of ?f ?g] by blast
    obtain st' where st': "vm_object_retain (ve_obj e) st = Some st'" "map_refs oth (?g # live m) st'"
      using map_refs_retain_member [OF refs, of e ?g] l by auto
    have "map_refs oth (live m') st'" using st'(2) m'(3) l map_refs_cong [of "?g # live m" "live m'"] by simp
    then show ?thesis
      using inner sp ensure_capacity_fits [of m 1 mem] cap m' st'(1)
      by (auto simp: unmap_step_def cut_entry_def step_ok_def elim!: bind_SomeE)
  qed
qed

lemma unmap_loop_live:
  assumes "arr_ok m" and "live m = xs @ ys" and "wf_entries ys" and rng: "addr < endp"
    and "(\<exists>e\<in>set ys. ve_start e < addr \<and> endp < ve_end e) \<longrightarrow> entry_count m < max_entries m"
    and "map_refs oth (live m) st"
  shows "\<exists>m' st'. unmap_loop mem addr endp (length xs) m st = Some (m', st', 0) \<and>
    step_ok oth (xs @ unmap_list addr endp ys) m m' st'"
  using assms(1,2,3,5,6)
proof (induction ys arbitrary: xs m st)
  case Nil
  then have "entry_count m = length xs" using length_live [of m] by simp
  then show ?case using Nil by (subst unmap_loop.simps) (simp add: step_ok_def)
next
  case (Cons e ys)
  have e: "ve_start e < ve_end e" "ve_obj e \<noteq> NULL" and wf: "wf_entries ys"
    and after: "\<forall>f\<in>set ys. ve_end e \<le> ve_start f"
    using Cons.prems(3) by (auto simp: wf_entries_Cons)
  obtain m1 st1 where s1: "unmap_step mem addr endp (length xs) m st = Some (m1, st1, Some (length xs + length (cut_entry addr endp e)))"
    and ok1: "step_ok oth (xs @ cut_entry addr endp e @ ys) m m1 st1"
    using unmap_step_live [OF Cons.prems(1,2) e rng _ Cons.prems(5), of mem] Cons.prems(4) by (meson list.set_intros(1))
  let ?xs = "xs @ cut_entry addr endp e"
  have m1: "arr_ok m1" "live m1 = ?xs @ ys" "map_refs oth (live m1) st1" "max_entries m1 = max_entries m"
    using ok1 by (auto simp: step_ok_def)
  have cap: "(\<exists>f\<in>set ys. ve_start f < addr \<and> endp < ve_end f) \<longrightarrow> entry_count m1 < max_entries m1"
  proof
    assume ex: "\<exists>f\<in>set ys. ve_start f < addr \<and> endp < ve_end f"
    then have "entry_count m < max_entries m" using Cons.prems(4) by auto
    moreover from ex have "\<not> entry_overlaps e addr endp" using after by (force simp: entry_overlaps_def)
    then have "live m1 = live m" using m1(2) Cons.prems(2) by (simp add: cut_entry_def)
    ultimately show "entry_count m1 < max_entries m1"
      using length_live [OF m1(1)] length_live [OF Cons.prems(1)] m1(4) by simp
  qed
  from Cons.IH [OF m1(1,2) wf cap m1(3)] obtain m' st' where
    "unmap_loop mem addr endp (length ?xs) m1 st1 = Some (m', st', 0)"
    "step_ok oth (?xs @ unmap_list addr endp ys) m1 m' st'"
    by blast
  then show ?case
    using s1 ok1 live_split(1) [OF Cons.prems(1,2)] by (subst unmap_loop.simps) (auto simp: step_ok_def)
qed

section \<open>Destruction\<close>

lemma release_all:
  assumes "map_refs oth es st" and "\<forall>e\<in>set es. ve_obj e \<noteq> NULL"
  shows "\<exists>st'. foldM (\<lambda>e st. if ve_obj e \<noteq> NULL then vm_object_release (ve_obj e) st else Some st) es st = Some st' \<and>
    map_refs oth [] st'"
  using assms
proof (induction es arbitrary: st)
  case (Cons e es)
  then obtain st1 where "vm_object_release (ve_obj e) st = Some st1" "map_refs oth es st1"
    using map_refs_release [of oth "[]" e es st] by auto
  then show ?case using Cons by auto
qed simp

lemma vm_map_destroy_live:
  assumes "arr_ok m" and "wf_entries (live m)" and "map_refs oth (live m) st"
  shows "\<exists>st'. vm_map_destroy m st = Some (m\<lparr>entries := [], entry_count := 0, max_entries := 0\<rparr>, st') \<and> vmo_inv oth st'"
proof -
  let ?f = "\<lambda>e st. if ve_obj e \<noteq> NULL then vm_object_release (ve_obj e) st else Some st"
  have "foldM (\<lambda>i st. do { e \<leftarrow> nth_opt (entries m) i; ?f e st }) [0..<entry_count m] st =
      foldM (\<lambda>i st. do { e \<leftarrow> nth_opt (live m) i; ?f e st }) [0..<length (live m)] st"
    using nth_live [OF assms(1)] length_live [OF assms(1)] by (auto intro!: foldM_cong)
  also have "\<dots> = foldM ?f (live m) st" by (rule foldM_nth_opt)
  finally show ?thesis
    using release_all [OF assms(3)] assms(2) by (auto simp: vm_map_destroy_def wf_entries_def map_refs_def)
qed

section \<open>Mapping inserts an entry\<close>

lemma any_overlap_eq:
  "i + n \<le> length es \<Longrightarrow>
    any_overlap es addr endp i n = Some (\<exists>e\<in>set (take n (drop i es)). entry_overlaps e addr endp)"
proof (induction n arbitrary: i)
  case (Suc n)
  then have "drop i es = es ! i # drop (Suc i) es" by (simp add: Cons_nth_drop_Suc)
  then show ?case using Suc by simp
qed simp

lemma insert_index_eq:
  "i + n \<le> length es \<Longrightarrow>
    insert_index es addr i n = Some (i + length (takeWhile (\<lambda>e. \<not> ve_start e > addr) (take n (drop i es))))"
proof (induction n arbitrary: i)
  case (Suc n)
  then have "drop i es = es ! i # drop (Suc i) es" by (simp add: Cons_nth_drop_Suc)
  then show ?case using Suc by simp
qed simp

lemma overlap_iff:
  assumes "ve_start e < ve_end e" and "addr < endp"
  shows "entry_overlaps e addr endp \<longleftrightarrow> (\<exists>x. addr \<le> x \<and> x < endp \<and> covers e x)"
proof
  assume "entry_overlaps e addr endp"
  then have "addr \<le> max (ve_start e) addr \<and> max (ve_start e) addr < endp \<and> covers e (max (ve_start e) addr)"
    using assms by (auto simp: entry_overlaps_def covers_def max_def)
  then show "\<exists>x. addr \<le> x \<and> x < endp \<and> covers e x" by blast
qed (auto simp: entry_overlaps_def covers_def)

lemma overlap_space_iff:
  assumes "wf_entries es" and "addr < endp"
  shows "(\<exists>e\<in>set es. entry_overlaps e addr endp) \<longleftrightarrow> (\<exists>x. addr \<le> x \<and> x < endp \<and> space es x \<noteq> None)"
proof -
  have "entry_overlaps e addr endp \<longleftrightarrow> (\<exists>x. addr \<le> x \<and> x < endp \<and> covers e x)" if "e \<in> set es" for e
    using overlap_iff assms that by (simp add: wf_entries_def)
  then show ?thesis by (auto simp: space_None_iff)
qed

definition insert_list :: "vm_entry \<Rightarrow> vm_entry list \<Rightarrow> vm_entry list" where
  "insert_list e es = takeWhile (\<lambda>f. \<not> ve_start f > ve_start e) es @ e # dropWhile (\<lambda>f. \<not> ve_start f > ve_start e) es"

lemma dropWhile_starts:
  assumes "wf_entries es" and "f \<in> set (dropWhile (\<lambda>f. \<not> ve_start f > a) es)"
  shows "ve_start f > a"
  using assms
proof (induction es)
  case (Cons g es)
  show ?case
  proof (cases "ve_start g > a")
    case True
    moreover have "f = g \<or> ve_end g \<le> ve_start f" "ve_start g < ve_end g"
      using Cons.prems True by (auto simp: wf_entries_Cons)
    ultimately show ?thesis by auto
  qed (use Cons in \<open>auto simp: wf_entries_Cons\<close>)
qed simp

lemma insert_list_correct:
  assumes wf: "wf_entries es" and e: "ve_start e < ve_end e" "ve_obj e \<noteq> NULL"
    and free: "\<forall>f\<in>set es. \<not> entry_overlaps f (ve_start e) (ve_end e)"
  shows "wf_entries (insert_list e es)"
    and "space (insert_list e es) x = (if covers e x then Some (entry_view e x) else space es x)"
proof -
  let ?P = "\<lambda>f. \<not> ve_start f > ve_start e"
  have l: "ve_end f \<le> ve_start e" if "f \<in> set (takeWhile ?P es)" for f
  proof -
    note f = set_takeWhileD [OF that]
    have "\<not> entry_overlaps f (ve_start e) (ve_end e)" using free f by blast
    moreover have "ve_start f < ve_end e" using f e(1) by (auto intro: le_less_trans)
    ultimately show ?thesis by (auto simp: entry_overlaps_def not_less)
  qed
  have r: "ve_end e \<le> ve_start f" if "f \<in> set (dropWhile ?P es)" for f
  proof -
    have f: "f \<in> set es" using set_dropWhileD [OF that] .
    then have "\<not> entry_overlaps f (ve_start e) (ve_end e)" "ve_start f < ve_end f" using free wf by (auto simp: wf_entries_def)
    then show ?thesis using dropWhile_starts [OF wf that] by (auto simp: entry_overlaps_def not_less)
  qed
  have "wf_entries (takeWhile ?P es @ dropWhile ?P es)" using wf by simp
  then show wf': "wf_entries (insert_list e es)"
    using l r e unfolding insert_list_def wf_entries_append wf_entries_Cons by auto
  show "space (insert_list e es) x = (if covers e x then Some (entry_view e x) else space es x)"
  proof (cases "covers e x")
    case True
    then show ?thesis using space_member [OF wf', of e x] by (simp add: insert_list_def)
  next
    case False
    have "space es x = space (takeWhile ?P es @ dropWhile ?P es) x" by simp
    then show ?thesis using False unfolding insert_list_def space_append space_Cons by simp
  qed
qed

definition map_inv :: "(u64 \<Rightarrow> nat) \<Rightarrow> vm_map \<Rightarrow> vmstate \<Rightarrow> bool" where
  "map_inv oth m st \<longleftrightarrow> arr_ok m \<and> wf_entries (live m) \<and> map_refs oth (live m) st"

lemma map_args_range: "map_args_ok addr obj off sz \<Longrightarrow> addr < addr + sz \<and> obj \<noteq> NULL"
  by (auto simp: map_args_ok_def order_less_le)

lemma vm_map_map_live:
  assumes inv: "map_inv oth m st" and mem: "map_mem_ok mem" and ob: "objs st obj = Some ob"
    and args: "map_args_ok addr obj off sz" and free: "\<forall>f\<in>set (live m). \<not> entry_overlaps f addr (addr + sz)"
  shows "\<exists>m' st' r. vm_map_map mem addr obj off sz prot inh m st = Some (m', st', r) \<and> map_pml4 m' = map_pml4 m \<and>
    (r = - 1 \<and> st' = st \<and> arr_ok m' \<and> live m' = live m \<and> entry_count m = max_entries m \<or>
     r = 0 \<and> arr_ok m' \<and> map_refs oth (live m') st' \<and>
       live m' = insert_list \<lparr>ve_start = addr, ve_end = addr + sz, ve_obj = obj, ve_offset = off, ve_prot = prot, ve_inherit = inh\<rparr> (live m))"
proof -
  let ?e = "\<lparr>ve_start = addr, ve_end = addr + sz, ve_obj = obj, ve_offset = off, ve_prot = prot, ve_inherit = inh\<rparr>"
  have ok: "arr_ok m" "wf_entries (live m)" "map_refs oth (live m) st" using inv by (auto simp: map_inv_def)
  have ov: "any_overlap (entries m) addr (addr + sz) 0 (entry_count m) = Some False"
    using any_overlap_eq [of 0 "entry_count m" "entries m"] ok(1) free by (auto simp: arr_ok_def live_def)
  obtain m1 r where m1: "vm_map_ensure_capacity mem 1 m = Some (m1, r)" "arr_ok m1" "live m1 = live m"
    "entry_count m1 = entry_count m" "map_pml4 m1 = map_pml4 m" "r = - 1 \<or> r = 0 \<and> entry_count m1 + 1 \<le> max_entries m1"
    using ensure_capacity_live [OF ok(1) mem, of 1] by blast
  show ?thesis
  proof (cases "r = 0")
    case False
    moreover have "entry_count m = max_entries m"
      using False m1(1) ensure_capacity_fits [of m 1 mem] ok(1) by (cases "entry_count m = max_entries m") (auto simp: arr_ok_def)
    ultimately show ?thesis using args ov m1 by (auto simp: vm_map_map_def Let_def)
  next
    case True
    let ?k = "length (takeWhile (\<lambda>f. \<not> ve_start f > addr) (live m))"
    have idx: "insert_index (entries m1) addr 0 (entry_count m1) = Some ?k"
      using insert_index_eq [of 0 "entry_count m1" "entries m1"] m1(2,3) by (auto simp: arr_ok_def live_def)
    have k: "?k \<le> entry_count m1" using length_takeWhile_le [of _ "live m"] length_live [OF ok(1)] m1(4) by metis
    obtain m2 where m2: "insert_entry ?k ?e m1 = Some m2" "arr_ok m2" "live m2 = take ?k (live m1) @ ?e # drop ?k (live m1)"
      "map_pml4 m2 = map_pml4 m1"
      using insert_entry_live [OF m1(2) k, of ?e] True m1(6) by auto
    have l2: "live m2 = insert_list ?e (live m)"
      using m2(3) by (simp add: m1(3) insert_list_def takeWhile_eq_take [symmetric] dropWhile_eq_drop [symmetric])
    obtain st' where st': "vm_object_retain obj st = Some st'" "map_refs oth (?e # live m) st'"
      using map_refs_retain [OF ok(3), of ?e ob] ob by auto
    have "obj_refs (live m2) a = obj_refs (?e # live m) a" for a
      unfolding m2(3) m1(3) using obj_refs_simps(3) [of "take ?k (live m)" "drop ?k (live m)" a] by simp
    then have "map_refs oth (live m2) st'" using st'(2) map_refs_cong by blast
    then show ?thesis
      using args ov m1 idx m2 l2 st' True by (auto simp: vm_map_map_def Let_def)
  qed
qed

section \<open>The binary search\<close>

definition starts_sorted :: "vm_entry list \<Rightarrow> nat \<Rightarrow> bool" where
  "starts_sorted es n \<longleftrightarrow> (\<forall>i j. i < j \<and> j < n \<longrightarrow> ve_start (es ! i) < ve_start (es ! j))"

lemma bsearch_correct:
  assumes "starts_sorted es n" and "n \<le> length es" and "0 \<le> lo" and "hi < int n" and "lo \<le> hi + 1" and "best = lo - 1"
    and "\<forall>j. int j < lo \<longrightarrow> ve_start (es ! j) \<le> addr"
    and "\<forall>j. hi < int j \<and> j < n \<longrightarrow> addr < ve_start (es ! j)"
  shows "\<exists>b. bsearch es addr lo hi best = Some b \<and> - 1 \<le> b \<and> b < int n \<and>
    (\<forall>j. int j \<le> b \<longrightarrow> ve_start (es ! j) \<le> addr) \<and> (\<forall>j. b < int j \<and> j < n \<longrightarrow> addr < ve_start (es ! j))"
  using assms
proof (induction es addr lo hi best rule: bsearch.induct)
  case (1 es addr lo hi best)
  show ?case
  proof (cases "lo \<le> hi")
    case False
    then have "hi = lo - 1" using "1.prems"(5) by simp
    moreover have "bsearch es addr lo hi best = Some best" using False by (subst bsearch.simps) simp
    ultimately show ?thesis using "1.prems"(3,4,6,7,8) by (intro exI [of _ best]) auto
  next
    case True
    define mid where "mid = lo + (hi - lo) div 2"
    have mid: "lo \<le> mid" "mid \<le> hi" "0 \<le> mid" using True "1.prems"(3) by (auto simp: mid_def)
    then have nm: "nat mid < n" "nat mid < length es" using "1.prems"(2,4) by linarith+
    note sorted = "1.prems"(1) [unfolded starts_sorted_def, rule_format]
    show ?thesis
    proof (cases "ve_start (es ! nat mid) \<le> addr")
      case le: True
      have "bsearch es addr lo hi best = bsearch es addr (mid + 1) hi mid"
        using True le mid nm by (subst bsearch.simps) (simp add: mid_def [symmetric] Let_def)
      moreover have "ve_start (es ! j) \<le> addr" if "int j < mid + 1" for j
      proof -
        have "j = nat mid \<or> j < nat mid" using that mid by linarith
        then show ?thesis using le sorted [of j "nat mid"] nm(1) by (elim disjE) simp_all
      qed
      ultimately show ?thesis
        using "1.IH"(1) [OF True mid_def] mid nm le "1.prems" by auto
    next
      case gt: False
      have "bsearch es addr lo hi best = bsearch es addr lo (mid - 1) best"
        using True gt mid nm by (subst bsearch.simps) (simp add: mid_def [symmetric] Let_def)
      moreover have "addr < ve_start (es ! j)" if "mid - 1 < int j" "j < n" for j
      proof -
        have "j = nat mid \<or> nat mid < j" using that(1) mid by linarith
        then show ?thesis using gt sorted [of "nat mid" j] that(2) by (elim disjE) simp_all
      qed
      ultimately show ?thesis
        using "1.IH"(2) [OF True mid_def] mid nm gt "1.prems" by auto
    qed
  qed
qed

lemma starts_sorted_live:
  assumes "arr_ok m" and "wf_entries (live m)"
  shows "starts_sorted (entries m) (entry_count m)"
  unfolding starts_sorted_def
proof (intro allI impI)
  fix i j assume ij: "i < j \<and> j < entry_count m"
  then have l: "i < length (live m)" "j < length (live m)" using length_live [OF assms(1)] by auto
  have "ve_end (live m ! i) \<le> ve_start (live m ! j)"
    using assms(2) ij l by (auto simp: wf_entries_def sorted_wrt_iff_nth_less)
  moreover have "ve_start (live m ! i) < ve_end (live m ! i)"
    using assms(2) l(1) by (auto simp: wf_entries_def)
  ultimately show "ve_start (entries m ! i) < ve_start (entries m ! j)"
    using ij by (simp add: live_def)
qed

lemma find_entry_correct:
  assumes ok: "arr_ok m" and wf: "wf_entries (live m)"
  shows "\<exists>r. vm_map_find_entry addr m = Some r \<and>
    (case r of
       None \<Rightarrow> space (live m) addr = None
     | Some i \<Rightarrow> i < entry_count m \<and> covers (live m ! i) addr)"
proof (cases "entry_count m = 0")
  case True
  then show ?thesis by (simp add: vm_map_find_entry_def live_def)
next
  case False
  let ?n = "entry_count m"
  have len: "?n \<le> length (entries m)" "length (live m) = ?n" using ok length_live [OF ok] by (auto simp: arr_ok_def)
  have vac: "\<forall>j. int ?n - 1 < int j \<and> j < ?n \<longrightarrow> addr < ve_start (entries m ! j)" by linarith
  have "\<exists>b. bsearch (entries m) addr 0 (int ?n - 1) (- 1) = Some b \<and> - 1 \<le> b \<and> b < int ?n \<and>
      (\<forall>j. int j \<le> b \<longrightarrow> ve_start (entries m ! j) \<le> addr) \<and> (\<forall>j. b < int j \<and> j < ?n \<longrightarrow> addr < ve_start (entries m ! j))"
    by (rule bsearch_correct [OF starts_sorted_live [OF ok wf] len(1) _ _ _ _ _ vac]) (use False in simp_all)
  then obtain b where b: "bsearch (entries m) addr 0 (int ?n - 1) (- 1) = Some b" "- 1 \<le> b" "b < int ?n"
    "\<forall>j. int j \<le> b \<longrightarrow> ve_start (entries m ! j) \<le> addr" "\<forall>j. b < int j \<and> j < ?n \<longrightarrow> addr < ve_start (entries m ! j)"
    by blast
  have nth: "live m ! j = entries m ! j" if "j < ?n" for j using that by (simp add: live_def)
  have none: "\<not> covers (live m ! j) addr" if "j < ?n" "b < int j" for j
    using that b(5) nth by (auto simp: covers_def)
  show ?thesis
  proof (cases "b \<ge> 0 \<and> addr < ve_end (entries m ! nat b)")
    case True
    then have "covers (live m ! nat b) addr" "nat b < ?n" using b(3,4) nth [of "nat b"] by (auto simp: covers_def)
    then show ?thesis using True False b(1) len(1) by (simp add: vm_map_find_entry_def)
  next
    case miss: False
    have "\<not> covers (live m ! j) addr" if j: "j < ?n" for j
    proof (cases "b < int j")
      case False
      then have bj: "j \<le> nat b" "nat b < ?n" "0 \<le> b" using b(3) by linarith+
      then have "ve_end (live m ! j) \<le> addr"
      proof (cases "j = nat b")
        case True
        then show ?thesis using miss bj nth [of "nat b"] by auto
      next
        case False
        then have "ve_end (live m ! j) \<le> ve_start (live m ! nat b)"
          using wf bj len(2) by (auto simp: wf_entries_def sorted_wrt_iff_nth_less)
        then show ?thesis using b(4) bj nth [of "nat b"] by (auto intro: order_trans)
      qed
      then show ?thesis by (auto simp: covers_def)
    qed (use none j in blast)
    then have "space (live m) addr = None" using len(2) by (auto simp: space_None_iff in_set_conv_nth)
    then show ?thesis using miss False b len(1) by (auto simp: vm_map_find_entry_def nth_opt_def)
  qed
qed

text \<open>Resolving a fault is a lookup in the address space followed by the object's handler.\<close>

lemma resolve_fault_eq:
  assumes ok: "arr_ok m" and wf: "wf_entries (live m)"
  shows "vm_map_resolve_fault env addr w m st = (case space (live m) addr of
      None \<Rightarrow> Some (st, Inl (- 1))
    | Some (obj, offset, prot, inherit) \<Rightarrow>
        if prot AND (if w then VM_PROT_WRITE else VM_PROT_READ) = 0 then Some (st, Inl (- 1))
        else map_option (\<lambda>(st, r). (st, case r of Inr phys \<Rightarrow> Inr phys | Inl e \<Rightarrow> if e = - 11 then Inl (- 11) else Inl (- 1)))
          (vm_object_fault env obj (offset AND NOT 4095) w st))"
proof -
  obtain r where r: "vm_map_find_entry addr m = Some r"
    "case r of None \<Rightarrow> space (live m) addr = None | Some i \<Rightarrow> i < entry_count m \<and> covers (live m ! i) addr"
    using find_entry_correct [OF ok wf, of addr] by blast
  show ?thesis
  proof (cases r)
    case (Some i)
    then have i: "i < entry_count m" "covers (live m ! i) addr" "nth_opt (entries m) i = Some (live m ! i)"
      using r(2) nth_live [OF ok] by auto
    have "space (live m) addr = Some (entry_view (live m ! i) addr)"
      using space_member [OF wf _ i(2)] i(1) length_live [OF ok] by simp
    then show ?thesis
      using r(1) Some i(3)
      by (cases "vm_object_fault env (ve_obj (live m ! i)) ((addr - ve_start (live m ! i)) + ve_offset (live m ! i) AND NOT 4095) w st")
        (auto simp: vm_map_resolve_fault_def entry_view_def)
  qed (use r in \<open>simp add: vm_map_resolve_fault_def\<close>)
qed

section \<open>Changing protection at an entry boundary\<close>

text \<open>
  When the range does not start strictly inside an entry, changing the protection replaces each
  entry by these.
\<close>

definition reprotect :: "u32 \<Rightarrow> u64 \<Rightarrow> u64 \<Rightarrow> vm_entry \<Rightarrow> vm_entry list" where
  "reprotect prot addr endp e =
     (if \<not> entry_overlaps e addr endp then [e]
      else if endp \<ge> ve_end e then [e\<lparr>ve_prot := prot\<rparr>]
      else [e\<lparr>ve_end := endp, ve_prot := prot\<rparr>, e\<lparr>ve_start := endp, ve_offset := ve_offset e + (endp - ve_start e)\<rparr>])"

definition protect_list :: "u32 \<Rightarrow> u64 \<Rightarrow> u64 \<Rightarrow> vm_entry list \<Rightarrow> vm_entry list" where
  "protect_list prot addr endp es = concat (map (reprotect prot addr endp) es)"

lemma protect_list_simps [simp]:
  "protect_list prot addr endp [] = []"
  "protect_list prot addr endp (e # es) = reprotect prot addr endp e @ protect_list prot addr endp es"
  by (simp_all add: protect_list_def)

definition starts_inside :: "u64 \<Rightarrow> vm_entry \<Rightarrow> bool" where
  "starts_inside addr e \<longleftrightarrow> ve_start e < addr \<and> addr < ve_end e"

definition set_prot :: "u32 \<Rightarrow> u64 \<times> u64 \<times> u32 \<times> u32 \<Rightarrow> u64 \<times> u64 \<times> u32 \<times> u32" where
  "set_prot prot = (\<lambda>(obj, offset, _, inherit). (obj, offset, prot, inherit))"

lemma reprotect_member:
  assumes "f \<in> set (reprotect prot addr endp e)" and "ve_start e < ve_end e" and "addr < endp"
  shows "ve_start e \<le> ve_start f" and "ve_end f \<le> ve_end e"
  using assms by (auto simp: reprotect_def entry_overlaps_def split: if_splits)

lemma reprotect_space:
  assumes "ve_start e < ve_end e" and "addr < endp" and "\<not> starts_inside addr e"
  shows "space (reprotect prot addr endp e) x =
    (if addr \<le> x \<and> x < endp then map_option (set_prot prot) (space [e] x) else space [e] x)"
  using assms
  by (auto simp: reprotect_def starts_inside_def set_prot_def space_Cons covers_def entry_overlaps_def entry_view_def algebra_simps)

lemma wf_reprotect:
  assumes "ve_start e < ve_end e" and "addr < endp" and "ve_obj e \<noteq> NULL"
  shows "wf_entries (reprotect prot addr endp e)"
  using assms by (auto simp: reprotect_def wf_entries_Cons entry_overlaps_def)

lemma protect_list_member:
  assumes "f \<in> set (protect_list prot addr endp es)" and "wf_entries es" and "addr < endp"
  shows "\<exists>e\<in>set es. ve_start e \<le> ve_start f \<and> ve_end f \<le> ve_end e"
proof -
  obtain e where "e \<in> set es" "f \<in> set (reprotect prot addr endp e)" using assms(1) by (auto simp: protect_list_def)
  moreover from this have "ve_start e < ve_end e" using assms(2) by (simp add: wf_entries_def)
  ultimately show ?thesis using reprotect_member [of f prot addr endp e] assms(3) by blast
qed

lemma wf_protect_list:
  assumes "wf_entries es" and "addr < endp"
  shows "wf_entries (protect_list prot addr endp es)"
  using assms(1)
proof (induction es)
  case (Cons e es)
  have e: "ve_start e < ve_end e" "ve_obj e \<noteq> NULL" using Cons.prems by (auto simp: wf_entries_Cons)
  have "ve_end f \<le> ve_start g" if fg: "f \<in> set (reprotect prot addr endp e)" "g \<in> set (protect_list prot addr endp es)" for f g
  proof -
    obtain h where "h \<in> set es" "ve_start h \<le> ve_start g"
      using protect_list_member [OF fg(2) _ assms(2)] Cons.prems by (auto simp: wf_entries_Cons)
    then show ?thesis
      using reprotect_member(2) [OF fg(1) e(1) assms(2)] Cons.prems by (force simp: wf_entries_Cons)
  qed
  then show ?case
    using Cons wf_reprotect [OF e(1) assms(2) e(2)] by (auto simp: wf_entries_Cons wf_entries_append)
qed simp

lemma protect_list_space:
  assumes "wf_entries es" and "addr < endp" and "\<forall>e\<in>set es. \<not> starts_inside addr e"
  shows "space (protect_list prot addr endp es) x =
    (if addr \<le> x \<and> x < endp then map_option (set_prot prot) (space es x) else space es x)"
  using assms(1,3)
  by (induction es)
    (auto simp: wf_entries_Cons space_append reprotect_space assms(2) space_Cons split: if_splits option.splits)

lemma protect_step_live:
  assumes ok: "arr_ok m" and l: "live m = xs @ e # ys" and e: "ve_start e < ve_end e" "\<not> starts_inside addr e"
    and rng: "addr < endp" and c: "entry_overlaps e addr endp \<and> endp < ve_end e \<longrightarrow> entry_count m < max_entries m"
    and refs: "map_refs oth (live m) st"
  shows "\<exists>m' st'. protect_step mem prot addr endp (length xs) m st =
      Some (m', st', Some (length xs + length (reprotect prot addr endp e))) \<and>
    step_ok oth (xs @ reprotect prot addr endp e @ ys) m m' st'"
proof -
  note sp = live_split [OF ok l]
  consider (out) "\<not> entry_overlaps e addr endp"
    | (all) "entry_overlaps e addr endp" "addr \<le> ve_start e" "ve_end e \<le> endp"
    | (left) "entry_overlaps e addr endp" "addr \<le> ve_start e" "endp < ve_end e"
    using e(2) by (fastforce simp: starts_inside_def entry_overlaps_def)
  then show ?thesis
  proof cases
    case out
    then show ?thesis using sp ok l refs by (simp add: protect_step_def reprotect_def step_ok_def)
  next
    case all
    let ?f = "e\<lparr>ve_prot := prot\<rparr>"
    have "map_refs oth (xs @ ?f # ys) st" using refs l map_refs_cong [of "xs @ ?f # ys" "live m"] by simp
    then show ?thesis
      using all sp set_entry_live [OF ok sp(1), of ?f] l by (auto simp: protect_step_def reprotect_def step_ok_def)
  next
    case left
    let ?f = "e\<lparr>ve_end := endp, ve_prot := prot\<rparr>" and ?g = "e\<lparr>ve_start := endp, ve_offset := ve_offset e + (endp - ve_start e)\<rparr>"
    have cap: "entry_count m < max_entries m" using c left by simp
    obtain m' where m': "do { m \<leftarrow> set_entry (length xs) ?f m; insert_entry (length xs + 1) ?g m } = Some m'"
      "arr_ok m'" "live m' = xs @ [?f, ?g] @ ys" "max_entries m' = max_entries m" "map_pml4 m' = map_pml4 m"
      using split_entry_live [OF ok l cap, of ?f ?g] by blast
    obtain st' where st': "vm_object_retain (ve_obj e) st = Some st'" "map_refs oth (?g # live m) st'"
      using map_refs_retain_member [OF refs, of e ?g] l by auto
    have "map_refs oth (live m') st'" using st'(2) m'(3) l map_refs_cong [of "?g # live m" "live m'"] by simp
    then show ?thesis
      using left sp ensure_capacity_fits [of m 1 mem] cap m' st'(1)
      by (auto simp: protect_step_def reprotect_def step_ok_def elim!: bind_SomeE)
  qed
qed

lemma protect_loop_live:
  assumes "arr_ok m" and "live m = xs @ ys" and "wf_entries ys" and rng: "addr < endp"
    and "\<forall>e\<in>set ys. \<not> starts_inside addr e"
    and "(\<exists>e\<in>set ys. entry_overlaps e addr endp \<and> endp < ve_end e) \<longrightarrow> entry_count m < max_entries m"
    and "map_refs oth (live m) st"
  shows "\<exists>m' st'. protect_loop mem prot addr endp (length xs) m st = Some (m', st', 0) \<and>
    step_ok oth (xs @ protect_list prot addr endp ys) m m' st'"
  using assms(1,2,3,5,6,7)
proof (induction ys arbitrary: xs m st)
  case Nil
  then have "entry_count m = length xs" using length_live [of m] by simp
  then show ?case using Nil by (subst protect_loop.simps) (simp add: step_ok_def)
next
  case (Cons e ys)
  have e: "ve_start e < ve_end e" "\<not> starts_inside addr e" and wf: "wf_entries ys"
    and after: "\<forall>f\<in>set ys. ve_end e \<le> ve_start f" and ins: "\<forall>f\<in>set ys. \<not> starts_inside addr f"
    using Cons.prems(3,4) by (auto simp: wf_entries_Cons)
  obtain m1 st1 where s1: "protect_step mem prot addr endp (length xs) m st =
      Some (m1, st1, Some (length xs + length (reprotect prot addr endp e)))"
    and ok1: "step_ok oth (xs @ reprotect prot addr endp e @ ys) m m1 st1"
    using protect_step_live [OF Cons.prems(1,2) e rng _ Cons.prems(6), of mem] Cons.prems(5) by (meson list.set_intros(1))
  let ?xs = "xs @ reprotect prot addr endp e"
  have m1: "arr_ok m1" "live m1 = ?xs @ ys" "map_refs oth (live m1) st1" "max_entries m1 = max_entries m"
    using ok1 by (auto simp: step_ok_def)
  have cap: "(\<exists>f\<in>set ys. entry_overlaps f addr endp \<and> endp < ve_end f) \<longrightarrow> entry_count m1 < max_entries m1"
  proof
    assume ex: "\<exists>f\<in>set ys. entry_overlaps f addr endp \<and> endp < ve_end f"
    then have "entry_count m < max_entries m" using Cons.prems(5) by auto
    moreover from ex have "ve_end e \<le> endp" using after by (force simp: entry_overlaps_def)
    then have "length (live m1) = length (live m)" using m1(2) Cons.prems(2) by (simp add: reprotect_def)
    ultimately show "entry_count m1 < max_entries m1"
      using length_live [OF m1(1)] length_live [OF Cons.prems(1)] m1(4) by simp
  qed
  from Cons.IH [OF m1(1,2) wf ins cap m1(3)] obtain m' st' where
    "protect_loop mem prot addr endp (length ?xs) m1 st1 = Some (m', st', 0)"
    "step_ok oth (?xs @ protect_list prot addr endp ys) m1 m' st'"
    by blast
  then show ?case
    using s1 ok1 live_split(1) [OF Cons.prems(1,2)] by (subst protect_loop.simps) (auto simp: step_ok_def)
qed

section \<open>Changing protection from the inside of the last entry\<close>

lemma protect_loop_skip:
  assumes "arr_ok m" and "live m = xs @ zs @ ys" and "\<forall>e\<in>set zs. \<not> entry_overlaps e addr endp"
  shows "protect_loop mem prot addr endp (length xs) m st = protect_loop mem prot addr endp (length xs + length zs) m st"
  using assms(2,3)
proof (induction zs arbitrary: xs)
  case (Cons e zs)
  then have l: "live m = xs @ e # zs @ ys" by simp
  note sp = live_split [OF assms(1) l]
  have "protect_step mem prot addr endp (length xs) m st = Some (m, st, Some (length xs + 1))"
    using sp(2) Cons.prems(2) by (simp add: protect_step_def)
  then have "protect_loop mem prot addr endp (length xs) m st = protect_loop mem prot addr endp (length xs + 1) m st"
    using sp(1) by (subst protect_loop.simps) simp
  then show ?case using Cons.IH [of "xs @ [e]"] Cons.prems l by simp
qed simp

text \<open>The two fragments, in the order the code stores them.\<close>

definition right_part :: "u32 \<Rightarrow> u64 \<Rightarrow> vm_entry \<Rightarrow> vm_entry" where
  "right_part prot addr e = e\<lparr>ve_start := addr, ve_offset := ve_offset e + (addr - ve_start e), ve_prot := prot\<rparr>"

definition left_part :: "u64 \<Rightarrow> vm_entry \<Rightarrow> vm_entry" where
  "left_part addr e = e\<lparr>ve_end := addr\<rparr>"

lemma protect_last_live:
  assumes ok: "arr_ok m" "live m = xs @ [e]" "wf_entries (live m)" "map_refs oth (live m) st"
    and rng: "starts_inside addr e" "ve_end e \<le> endp" and c: "entry_count m < max_entries m"
  shows "\<exists>m' st'. protect_loop mem prot addr endp 0 m st = Some (m', st', 0) \<and>
    step_ok oth (xs @ [right_part prot addr e, left_part addr e]) m m' st'"
proof -
  let ?f = "right_part prot addr e" and ?g = "left_part addr e"
  have in_e: "ve_start e < addr" "addr < ve_end e" using rng(1) by (auto simp: starts_inside_def)
  have "\<not> entry_overlaps x addr endp" if "x \<in> set xs" for x
  proof -
    have "ve_end x \<le> ve_start e" using ok(2,3) that by (auto simp: wf_entries_append)
    then show ?thesis using in_e(1) by (auto simp: entry_overlaps_def)
  qed
  then have skip: "protect_loop mem prot addr endp 0 m st = protect_loop mem prot addr endp (length xs) m st"
    using protect_loop_skip [OF ok(1), of "[]" xs "[e]"] ok(2) by simp
  note sp = live_split [OF ok(1,2)]
  obtain m' where m': "do { m \<leftarrow> set_entry (length xs) ?f m; insert_entry (length xs + 1) ?g m } = Some m'"
    "arr_ok m'" "live m' = xs @ [?f, ?g] @ []" "max_entries m' = max_entries m" "map_pml4 m' = map_pml4 m"
    using split_entry_live [OF ok(1,2) c, of ?f ?g] by blast
  obtain st' where st': "vm_object_retain (ve_obj e) st = Some st'" "map_refs oth (?g # live m) st'"
    using map_refs_retain_member [OF ok(4), of e ?g] ok(2) by (auto simp: left_part_def)
  have refs: "map_refs oth (live m') st'"
    using st'(2) m'(3) ok(2) map_refs_cong [of "?g # live m" "live m'"] by (simp add: left_part_def right_part_def)
  have "entry_overlaps e addr endp" using in_e rng(2) by (auto simp: entry_overlaps_def)
  then have "protect_step mem prot addr endp (length xs) m st = Some (m', st', Some (length xs + 2))"
    using in_e rng(2) sp(2) ensure_capacity_fits [of m 1 mem] c m'(1) st'(1)
    by (auto simp: protect_step_def left_part_def right_part_def elim!: bind_SomeE)
  moreover have "protect_loop mem prot addr endp (length xs + 2) m' st' = Some (m', st', 0)"
    using length_live [OF m'(2)] m'(3) by (subst protect_loop.simps) simp
  ultimately have "protect_loop mem prot addr endp (length xs) m st = Some (m', st', 0)"
    using sp(1) by (subst protect_loop.simps) simp
  then show ?thesis using skip m' refs by (auto simp: step_ok_def)
qed

text \<open>
  The search over an array whose last but one entry starts above the address never looks at the last
  one: it can only reach it by moving right from the entry before.
\<close>

lemma bsearch_misses_last:
  assumes "length es \<ge> n + 2" and "addr < ve_start (es ! n)" and "0 \<le> lo" "lo \<le> int n" "hi \<le> int n + 1" and "- 1 \<le> best" "best < int n"
  shows "\<exists>b. bsearch es addr lo hi best = Some b \<and> - 1 \<le> b \<and> b < int n"
  using assms
proof (induction es addr lo hi best rule: bsearch.induct)
  case (1 es addr lo hi best)
  show ?case
  proof (cases "lo \<le> hi")
    case False
    then show ?thesis using "1.prems" by (subst bsearch.simps) simp
  next
    case True
    define mid where "mid = lo + (hi - lo) div 2"
    have mid: "lo \<le> mid" "mid \<le> int n" using True "1.prems"(4,5) by (auto simp: mid_def)
    then have nm: "0 \<le> mid" "nat mid < length es" using "1.prems"(1,3) by linarith+
    show ?thesis
    proof (cases "ve_start (es ! nat mid) \<le> addr")
      case le: True
      then have "mid \<noteq> int n" using "1.prems"(2) by auto
      moreover have "bsearch es addr lo hi best = bsearch es addr (mid + 1) hi mid"
        using True le mid nm by (subst bsearch.simps) (simp add: mid_def [symmetric] Let_def)
      ultimately show ?thesis using "1.IH"(1) [OF True mid_def] mid nm le "1.prems" by auto
    next
      case gt: False
      have "bsearch es addr lo hi best = bsearch es addr lo (mid - 1) best"
        using True gt mid nm by (subst bsearch.simps) (simp add: mid_def [symmetric] Let_def)
      then show ?thesis using "1.IH"(2) [OF True mid_def] mid nm gt "1.prems" by auto
    qed
  qed
qed

lemma find_entry_misses_last:
  assumes ok: "arr_ok m" "live m = xs @ [f, g]" and x: "addr < ve_start f" "\<forall>e\<in>set xs. ve_end e \<le> addr"
  shows "vm_map_find_entry addr m = Some None"
proof -
  have n: "entry_count m = length xs + 2" "length (entries m) \<ge> length xs + 2"
    using length_live [OF ok(1)] ok by (auto simp: arr_ok_def)
  have nth: "entries m ! i = (xs @ [f, g]) ! i" if "i < length xs + 2" for i
    using that ok(2) n(1) by (metis live_def nth_take)
  obtain b where b: "bsearch (entries m) addr 0 (int (length xs) + 1) (- 1) = Some b" "- 1 \<le> b" "b < int (length xs)"
    using bsearch_misses_last [of "length xs" "entries m" addr 0 "int (length xs) + 1" "- 1"] n(2) nth [of "length xs"] x(1) by auto
  have "ve_end (entries m ! nat b) \<le> addr" if "0 \<le> b"
  proof -
    have "nat b < length xs" using b(3) that by simp
    then show ?thesis using nth [of "nat b"] x(2) by (simp add: nth_append)
  qed
  then show ?thesis using b n by (auto simp: vm_map_find_entry_def nth_opt_def algebra_simps)
qed

section \<open>Example maps\<close>

definition fresh_mem :: map_mem where
  "fresh_mem n = Some (replicate n zero_entry)"

definition empty_map :: vm_map where
  "empty_map = fst (vm_map_init fresh_mem 0x5000 \<lparr>entries = [], entry_count = 0, max_entries = 0, map_pml4 = 0\<rparr>)"

definition entry_at :: "u64 \<Rightarrow> u64 \<Rightarrow> vm_entry" where
  "entry_at a b = \<lparr>ve_start = a, ve_end = b, ve_obj = 0x1000, ve_offset = 0, ve_prot = 3, ve_inherit = 0\<rparr>"

definition map_of_entries :: "vm_entry list \<Rightarrow> vm_map" where
  "map_of_entries es = \<lparr>entries = es @ replicate (64 - length es) zero_entry, entry_count = length es, max_entries = 64, map_pml4 = 0x5000\<rparr>"

lemma fresh_mem_ok: "map_mem_ok fresh_mem"
  by (simp add: map_mem_ok_def fresh_mem_def)

lemma empty_map_inv: "map_inv ((\<lambda>_. 0)(0x1000 := 1)) empty_map example_vm"
  using example_vm_inv
  by (simp add: map_inv_def empty_map_def vm_map_init_def fresh_mem_def arr_ok_def live_def map_refs_def fun_upd_def)

lemma empty_map_live: "live empty_map = []" "entry_count empty_map = 0" "max_entries empty_map = 64"
  by (simp_all add: empty_map_def vm_map_init_def fresh_mem_def live_def)

lemma mapped_example:
  "\<exists>m st. map_inv ((\<lambda>_. 0)(0x1000 := 1)) m st \<and> live m = [entry_at 0x8000000 0x8002000] \<and> max_entries m = 64"
proof -
  let ?e = "entry_at 0x8000000 0x8002000"
  have "map_refs ((\<lambda>_. 0)(0x1000 := 1)) [] example_vm" using example_vm_inv by (simp add: map_refs_def fun_upd_def)
  then obtain st where "map_refs ((\<lambda>_. 0)(0x1000 := 1)) [?e] st"
    using map_refs_retain [of "(\<lambda>_. 0)(0x1000 := 1)" "[]" example_vm ?e] by (fastforce simp: entry_at_def example_vm_objs)
  then have "map_inv ((\<lambda>_. 0)(0x1000 := 1)) (map_of_entries [?e]) st"
    by (simp add: map_inv_def map_of_entries_def arr_ok_def live_def wf_entries_Cons entry_at_def)
  moreover have "live (map_of_entries [?e]) = [?e]" "max_entries (map_of_entries [?e]) = 64"
    by (simp_all add: map_of_entries_def live_def)
  ultimately show ?thesis by blast
qed

lemma vm_map_map_effect:
  assumes inv: "map_inv oth m st" and mem: "map_mem_ok mem" and ob: "objs st obj = Some ob"
  shows "\<exists>m' st' r. vm_map_map mem addr obj off sz prot inh m st = Some (m', st', r) \<and> map_inv oth m' st' \<and>
    (if r = 0 then map_args_ok addr obj off sz \<and>
       space (live m') = (\<lambda>x. if addr \<le> x \<and> x < addr + sz then Some (obj, x - addr + off, prot, inh) else space (live m) x)
     else r = - 1 \<and> live m' = live m \<and>
       (map_args_ok addr obj off sz \<longrightarrow> (\<exists>x. addr \<le> x \<and> x < addr + sz \<and> space (live m) x \<noteq> None) \<or> entry_count m = max_entries m))"
proof (cases "map_args_ok addr obj off sz")
  case False
  then show ?thesis using inv by (simp add: vm_map_map_def)
next
  case args: True
  note rng = map_args_range [OF args]
  have ok: "arr_ok m" "wf_entries (live m)" using inv by (auto simp: map_inv_def)
  note ovs = overlap_space_iff [OF ok(2) conjunct1 [OF rng]]
  show ?thesis
  proof (cases "\<exists>e\<in>set (live m). entry_overlaps e addr (addr + sz)")
    case True
    then have "any_overlap (entries m) addr (addr + sz) 0 (entry_count m) = Some True"
      using any_overlap_eq [of 0 "entry_count m" "entries m"] ok(1) by (auto simp: arr_ok_def live_def)
    then show ?thesis using args inv True ovs by (auto simp: vm_map_map_def Let_def)
  next
    case False
    let ?e = "\<lparr>ve_start = addr, ve_end = addr + sz, ve_obj = obj, ve_offset = off, ve_prot = prot, ve_inherit = inh\<rparr>"
    have free: "\<forall>f\<in>set (live m). \<not> entry_overlaps f addr (addr + sz)" using False by blast
    from vm_map_map_live [OF inv mem ob args free, of prot inh] obtain m' st' r where
      run: "vm_map_map mem addr obj off sz prot inh m st = Some (m', st', r)" "map_pml4 m' = map_pml4 m"
        "r = - 1 \<and> st' = st \<and> arr_ok m' \<and> live m' = live m \<and> entry_count m = max_entries m \<or>
         r = 0 \<and> arr_ok m' \<and> map_refs oth (live m') st' \<and> live m' = insert_list ?e (live m)"
      by blast
    note ins = insert_list_correct [of "live m" ?e]
    have "wf_entries (insert_list ?e (live m))" "\<And>x. space (insert_list ?e (live m)) x =
        (if addr \<le> x \<and> x < addr + sz then Some (obj, x - addr + off, prot, inh) else space (live m) x)"
      using ins ok(2) rng free by (auto simp: covers_def entry_view_def)
    then show ?thesis using run inv args by (auto simp: map_inv_def fun_eq_iff)
  qed
qed

lemma vm_map_unmap_effect:
  assumes inv: "map_inv oth m st" and rng: "addr < addr + sz" and cap: "entry_count m < max_entries m"
  shows "\<exists>m' st'. vm_map_unmap mem addr sz m st = Some (m', st', 0) \<and> map_inv oth m' st' \<and>
    space (live m') = (\<lambda>x. if addr \<le> x \<and> x < addr + sz then None else space (live m) x)"
proof -
  have ok: "arr_ok m" "wf_entries (live m)" "map_refs oth (live m) st" using inv by (auto simp: map_inv_def)
  have "sz \<noteq> 0" "\<not> addr + sz < addr" using rng by auto
  moreover obtain m' st' where "unmap_loop mem addr (addr + sz) 0 m st = Some (m', st', 0)"
    "step_ok oth (unmap_list addr (addr + sz) (live m)) m m' st'"
    using unmap_loop_live [of m "[]" "live m" addr "addr + sz" oth st mem] ok rng cap by auto
  ultimately show ?thesis
    using unmap_list_correct [OF ok(2) rng] by (auto simp: vm_map_unmap_def step_ok_def map_inv_def fun_eq_iff)
qed

section \<open>Properties\<close>

text \<open>
  C11. Mapping an object into a consistent address map either fails, leaving the address space as it
  was, or adds exactly the range: every address of it now leads to the object at the matching
  offset with the given protection, every other address is as before.  It fails only for bad
  arguments, when an address of the range is mapped already, or when the full array cannot grow.
\<close>
theorem vm_map_map_correct:
  assumes inv: "map_inv oth m st" and mem: "map_mem_ok mem" and ob: "objs st obj = Some ob"
  shows "\<exists>m' st' r. vm_map_map mem addr obj off sz prot inh m st = Some (m', st', r) \<and> map_inv oth m' st' \<and>
    (if r = 0 then map_args_ok addr obj off sz \<and>
       space (live m') = (\<lambda>x. if addr \<le> x \<and> x < addr + sz then Some (obj, x - addr + off, prot, inh) else space (live m) x)
     else r = - 1 \<and> live m' = live m \<and>
       (map_args_ok addr obj off sz \<longrightarrow> (\<exists>x. addr \<le> x \<and> x < addr + sz \<and> space (live m) x \<noteq> None) \<or> entry_count m = max_entries m))"
  by (rule vm_map_map_effect [OF assms])

theorem vm_map_map_correct_witness:
  "\<exists>m' st' r. vm_map_map fresh_mem 0x8000000 0x1000 0 0x2000 3 0 empty_map example_vm = Some (m', st', r) \<and> r = 0 \<and>
    space (live m') 0x8001234 = Some (0x1000, 0x1234, 3, 0)"
proof -
  have "map_args_ok 0x8000000 0x1000 0 0x2000" by (simp add: map_args_ok_def)
  then show ?thesis
    using vm_map_map_correct [OF empty_map_inv fresh_mem_ok, of "0x1000" _ "0x8000000" 0 "0x2000" 3 0]
    by (auto simp: example_vm_objs empty_map_live split: if_splits)
qed

text \<open>
  C12. Unmapping a range from a consistent address map with a spare cell removes exactly the range:
  entries are dropped, trimmed or split so that every address outside keeps its object, offset and
  protection, and the objects' reference counts follow the entries.
\<close>
theorem vm_map_unmap_correct:
  assumes inv: "map_inv oth m st" and rng: "addr < addr + sz" and cap: "entry_count m < max_entries m"
  shows "\<exists>m' st'. vm_map_unmap mem addr sz m st = Some (m', st', 0) \<and> map_inv oth m' st' \<and>
    space (live m') = (\<lambda>x. if addr \<le> x \<and> x < addr + sz then None else space (live m) x)"
  by (rule vm_map_unmap_effect [OF assms])

theorem vm_map_unmap_correct_witness:
  "\<exists>m st m' st'. vm_map_unmap fresh_mem 0x8001000 0x1000 m st = Some (m', st', 0) \<and>
    space (live m) 0x8001000 \<noteq> None \<and> space (live m') 0x8001000 = None \<and> space (live m') 0x8000000 = Some (0x1000, 0, 3, 0)"
proof -
  obtain m st where m: "map_inv ((\<lambda>_. 0)(0x1000 := 1)) m st" "live m = [entry_at 0x8000000 0x8002000]" "max_entries m = 64"
    using mapped_example by blast
  then have "entry_count m < max_entries m" using length_live [of m] by (simp add: map_inv_def)
  from vm_map_unmap_correct [OF m(1) _ this, of "0x8001000" "0x1000" fresh_mem] obtain m' st' where
    "vm_map_unmap fresh_mem 0x8001000 0x1000 m st = Some (m', st', 0)"
    "space (live m') = (\<lambda>x. if 0x8001000 \<le> x \<and> x < 0x8002000 then None else space (live m) x)"
    by auto
  then show ?thesis using m(2) by (intro exI) (auto simp: space_Cons entry_at_def covers_def entry_view_def)
qed

text \<open>
  C16. In a consistent map whose array has a spare cell, changing the protection of a range that does not
  start inside an entry changes the protection of exactly the addresses of the range, and nothing else of the
  address space.  (With a full array, splitting the entry at the end of the range would go through the pointer
  into the array that growing has freed.)
\<close>
theorem vm_map_protect_correct:
  assumes inv: "map_inv oth m st" and rng: "addr < addr + sz" and cap: "entry_count m < max_entries m"
    and bnd: "\<forall>e\<in>set (live m). \<not> starts_inside addr e"
  shows "\<exists>m' st'. vm_map_protect mem addr sz prot m st = Some (m', st', 0) \<and> map_inv oth m' st' \<and>
    space (live m') = (\<lambda>x. if addr \<le> x \<and> x < addr + sz then map_option (set_prot prot) (space (live m) x) else space (live m) x)"
proof -
  have ok: "arr_ok m" "wf_entries (live m)" "map_refs oth (live m) st" using inv by (auto simp: map_inv_def)
  have "sz \<noteq> 0" "\<not> addr + sz < addr" using rng by auto
  moreover obtain m' st' where "protect_loop mem prot addr (addr + sz) 0 m st = Some (m', st', 0)"
    "step_ok oth (protect_list prot addr (addr + sz) (live m)) m m' st'"
    using protect_loop_live [of m "[]" "live m" addr "addr + sz" oth st mem prot] ok rng cap bnd by auto
  ultimately show ?thesis
    using wf_protect_list [OF ok(2) rng] protect_list_space [OF ok(2) rng bnd]
    by (auto simp: vm_map_protect_def step_ok_def map_inv_def fun_eq_iff)
qed

theorem vm_map_protect_correct_witness:
  "\<exists>m st m' st'. vm_map_protect fresh_mem 0x8000000 0x1000 1 m st = Some (m', st', 0) \<and>
    space (live m') 0x8000000 = Some (0x1000, 0, 1, 0) \<and> space (live m') 0x8001000 = Some (0x1000, 0x1000, 3, 0)"
proof -
  obtain m st where m: "map_inv ((\<lambda>_. 0)(0x1000 := 1)) m st" "live m = [entry_at 0x8000000 0x8002000]" "max_entries m = 64"
    using mapped_example by blast
  then have "entry_count m < max_entries m" using length_live [of m] by (simp add: map_inv_def)
  from vm_map_protect_correct [OF m(1) _ this, of "0x8000000" "0x1000" fresh_mem 1] obtain m' st' where
    "vm_map_protect fresh_mem 0x8000000 0x1000 1 m st = Some (m', st', 0)"
    "space (live m') = (\<lambda>x. if 0x8000000 \<le> x \<and> x < 0x8001000 then map_option (set_prot 1) (space (live m) x) else space (live m) x)"
    using m(2) by (auto simp: starts_inside_def entry_at_def)
  then show ?thesis using m(2) by (intro exI) (auto simp: space_Cons entry_at_def covers_def entry_view_def set_prot_def)
qed

text \<open>
  C13. A page fault through a consistent map is a lookup in the address space: with no mapping, or a
  protection that does not allow the access, it fails with -1 and changes nothing; otherwise it is the
  fault of the mapped object at the page of the offset, with its error reported as -1 unless it is
  -EAGAIN.  The binary search never misses an entry and never leaves the array.
\<close>
theorem vm_map_resolve_fault_correct:
  assumes "map_inv oth m st"
  shows "vm_map_resolve_fault env addr w m st = (case space (live m) addr of
      None \<Rightarrow> Some (st, Inl (- 1))
    | Some (obj, offset, prot, inherit) \<Rightarrow>
        if prot AND (if w then VM_PROT_WRITE else VM_PROT_READ) = 0 then Some (st, Inl (- 1))
        else map_option (\<lambda>(st, r). (st, case r of Inr phys \<Rightarrow> Inr phys | Inl e \<Rightarrow> if e = - 11 then Inl (- 11) else Inl (- 1)))
          (vm_object_fault env obj (offset AND NOT 4095) w st))"
  using assms resolve_fault_eq by (simp add: map_inv_def)

theorem vm_map_resolve_fault_correct_witness:
  "\<exists>m st. vm_map_resolve_fault good_env 0x9000000 True m st = Some (st, Inl (- 1)) \<and>
    vm_map_resolve_fault good_env 0x8001008 True m st =
      map_option (\<lambda>(st, r). (st, case r of Inr phys \<Rightarrow> Inr phys | Inl e \<Rightarrow> if e = - 11 then Inl (- 11) else Inl (- 1)))
        (vm_object_fault good_env 0x1000 0x1000 True st)"
proof -
  obtain m st where m: "map_inv ((\<lambda>_. 0)(0x1000 := 1)) m st" "live m = [entry_at 0x8000000 0x8002000]"
    using mapped_example by blast
  then show ?thesis
    using vm_map_resolve_fault_correct [OF m(1), of good_env "0x9000000" True] vm_map_resolve_fault_correct [OF m(1), of good_env "0x8001008" True]
    by (intro exI [of _ m] exI [of _ st]) (simp add: space_Cons covers_def entry_at_def entry_view_def)
qed

text \<open>
  C17. Destroying an address map gives back every reference its entries held: what remains of the
  objects' counts is exactly what is held elsewhere.
\<close>
theorem vm_map_destroy_correct:
  assumes "map_inv oth m st"
  shows "\<exists>m' st'. vm_map_destroy m st = Some (m', st') \<and> live m' = [] \<and> vmo_inv oth st'"
  using assms vm_map_destroy_live [of m oth st] by (auto simp: map_inv_def live_def)

theorem vm_map_destroy_correct_witness:
  "\<exists>m st m' st'. live m \<noteq> [] \<and> vm_map_destroy m st = Some (m', st') \<and> live m' = [] \<and> vmo_inv ((\<lambda>_. 0)(0x1000 := 1)) st'"
proof -
  obtain m st where m: "map_inv ((\<lambda>_. 0)(0x1000 := 1)) m st" "live m = [entry_at 0x8000000 0x8002000]"
    using mapped_example by blast
  then show ?thesis using vm_map_destroy_correct [OF m(1)] by (metis list.distinct(1))
qed

text \<open>
  C18. When the range starts inside the last entry of a consistent map and reaches its end, and a spare
  array cell is left, the code stores the left fragment behind the right one.  The array is no longer
  sorted, and the binary search misses the whole left fragment: every address of the entry below the range
  is still recorded in the array with its old object, offset and protection, but the lookup does not find
  it, and every fault there is answered with -1 as if nothing were mapped.
\<close>
theorem vm_map_protect_right_partial_hides_entry:
  assumes inv: "map_inv oth m st" and l: "live m = xs @ [e]" and c: "entry_count m < max_entries m"
    and rng: "ve_start e < addr" "addr < ve_end e" "ve_end e \<le> addr + sz"
  shows "\<exists>m' st'. vm_map_protect mem addr sz prot m st = Some (m', st', 0) \<and>
    map ve_start (live m') = map ve_start xs @ [addr, ve_start e] \<and>
    (\<forall>x. ve_start e \<le> x \<and> x < addr \<longrightarrow> space (live m') x = Some (entry_view e x) \<and> space (live m) x = Some (entry_view e x) \<and>
      vm_map_find_entry x m' = Some None \<and> vm_map_resolve_fault env x w m' st' = Some (st', Inl (- 1)))"
proof -
  have ok: "arr_ok m" "wf_entries (live m)" "map_refs oth (live m) st" using inv by (auto simp: map_inv_def)
  have r: "sz \<noteq> 0" "\<not> addr + sz < addr" using rng by auto
  obtain m' st' where p: "protect_loop mem prot addr (addr + sz) 0 m st = Some (m', st', 0)"
    "step_ok oth (xs @ [right_part prot addr e, left_part addr e]) m m' st'"
    using protect_last_live [OF ok(1) l ok(2,3) _ rng(3) c, where mem = mem and prot = prot] rng(1,2) unfolding starts_inside_def by blast
  have m': "arr_ok m'" "live m' = xs @ [right_part prot addr e, left_part addr e]" using p(2) by (auto simp: step_ok_def)
  have before: "\<forall>f\<in>set xs. ve_end f \<le> ve_start e" using ok(2) l by (auto simp: wf_entries_append)
  have "space (live m') x = Some (entry_view e x) \<and> space (live m) x = Some (entry_view e x) \<and> vm_map_find_entry x m' = Some None"
    if x: "ve_start e \<le> x" "x < addr" for x
  proof -
    have "\<forall>f\<in>set xs. ve_end f \<le> x" using before x(1) by (meson order_trans)
    moreover from this have "space xs x = None" by (auto simp: space_None_iff covers_def)
    ultimately show ?thesis
      using find_entry_misses_last [OF m', of x] m'(2) l x rng(2)
      by (auto simp: space_append space_Cons covers_def entry_view_def left_part_def right_part_def)
  qed
  then show ?thesis
    using p(1) r m'(2) by (auto simp: vm_map_protect_def vm_map_resolve_fault_def left_part_def right_part_def)
qed

theorem vm_map_protect_right_partial_hides_entry_witness:
  "\<exists>m st m' st'. vm_map_protect fresh_mem 0x8001000 0x1000 1 m st = Some (m', st', 0) \<and>
    space (live m') 0x8000000 = Some (0x1000, 0, 3, 0) \<and> vm_map_find_entry 0x8000000 m' = Some None"
proof -
  obtain m st where m: "map_inv ((\<lambda>_. 0)(0x1000 := 1)) m st" "live m = [] @ [entry_at 0x8000000 0x8002000]" "max_entries m = 64"
    using mapped_example by auto
  then have "entry_count m < max_entries m" using length_live [of m] by (simp add: map_inv_def)
  then show ?thesis
    using vm_map_protect_right_partial_hides_entry [OF m(1,2), of "0x8001000" "0x1000" fresh_mem 1 good_env True]
    by (fastforce simp: entry_at_def entry_view_def)
qed

text \<open>
  When the range lies strictly inside an entry, the second shift uses the old entry count, so the
  last entry of the array is overwritten: an unrelated mapping behind the split one disappears.
\<close>
lemma vm_map_protect_split_loses_entry:
  "case vm_map_protect fresh_mem 0x8001000 0x1000 1
      (map_of_entries [entry_at 0x8000000 0x8004000, entry_at 0x9000000 0x9001000]) example_vm of
     None \<Rightarrow> False
   | Some (m', st', r) \<Rightarrow> r = 0 \<and>
       space (live (map_of_entries [entry_at 0x8000000 0x8004000, entry_at 0x9000000 0x9001000])) 0x9000000 \<noteq> None \<and>
       space (live m') 0x9000000 = None"
  by code_simp

end
