(* ===== verification/Tasks.thy ===== *)
theory Tasks
  imports Cspace VmMap
begin

unbundle bit_operations_syntax

text \<open>
  Tasks of \<^verbatim>\<open>mk/vm/task.c\<close>: the task table (a hash table of 256 chains linked through the tasks), creation
  and destruction of tasks, and the task and slot system calls.

  The kernel state \<open>kstate\<close> extends the port state by the live tasks (a partial map from addresses), the
  heads of the hash chains, the next task number, the memory objects, the live address maps, and the
  page directories handed back to \<^verbatim>\<open>vmm_free_directory\<close>.  \<open>thread_current()->task\<close> is the argument \<open>cur\<close>
  (NULL without a thread or without a task).  The results of \<^verbatim>\<open>kmalloc\<close> and of \<^verbatim>\<open>vmm_create_directory\<close> are
  in \<open>task_mem\<close>.  A chain that does not end makes the walk over it undefined (\<open>None\<close>).
\<close>

section \<open>The model\<close>

record task =
  task_id :: u32
  task_name :: string
  task_cspace :: cspace
  task_map :: u64
  main_thread :: u64
  task_next :: u64

record kstate = pstate +
  tasks :: "u64 \<rightharpoonup> task"
  task_hash :: "u64 list"
  next_task_id :: u32
  kvm :: vmstate
  maps :: "u64 \<rightharpoonup> vm_map"
  freed_dirs :: "u64 list"

record task_mem =
  tm_task :: u64
  tm_cspace :: cspace_mem
  tm_map :: u64
  tm_map_content :: vm_map
  tm_pml4 :: u64
  tm_entries :: map_mem

abbreviation TASK_HASH_SIZE :: nat where "TASK_HASH_SIZE \<equiv> 256"
abbreviation TASK_NAME_MAX :: nat where "TASK_NAME_MAX \<equiv> 32"

definition task_hash_id :: "u32 \<Rightarrow> nat" where
  "task_hash_id tid = unat (tid AND 255)"

definition task_init :: "kstate \<Rightarrow> kstate" where
  "task_init st = st\<lparr>task_hash := replicate TASK_HASH_SIZE NULL, next_task_id := 1\<rparr>"

definition null_cspace :: cspace where
  "null_cspace = \<lparr>slots = None, free_bitmap = None, max_slots = 0, bitmap_words = 0\<rparr>"

definition put_task :: "u64 \<Rightarrow> task \<Rightarrow> kstate \<Rightarrow> kstate" where
  "put_task a t st = st\<lparr>tasks := (tasks st)(a \<mapsto> t)\<rparr>"

definition task_create :: "u64 \<Rightarrow> cspace_mem \<Rightarrow> string option \<Rightarrow> kstate \<Rightarrow> (kstate \<times> u64) option" where
  "task_create ptr cmem name st =
     (if ptr = NULL then Some (st, NULL)
      else
        let nm = (case name of None \<Rightarrow> [] | Some s \<Rightarrow> take (TASK_NAME_MAX - 1) s);
            (cs, r) = cspace_init cmem null_cspace
        in if r < 0 then Some (st, NULL)
        else do {
          let tid = next_task_id st;
          let idx = task_hash_id tid;
          head \<leftarrow> nth_opt (task_hash st) idx;
          let t = \<lparr>task_id = tid, task_name = nm, task_cspace = cs, task_map = NULL, main_thread = NULL, task_next = head\<rparr>;
          h \<leftarrow> upd_opt (task_hash st) idx ptr;
          Some (put_task ptr t (st\<lparr>next_task_id := tid + 1, task_hash := h\<rparr>), ptr)
        })"

text \<open>The unlinking loop moves a pointer to a link: the head of a chain, or the link of a task.\<close>

datatype link = HashHead nat | NextOf u64

fun read_link :: "link \<Rightarrow> kstate \<Rightarrow> u64 option" where
  "read_link (HashHead i) st = nth_opt (task_hash st) i"
| "read_link (NextOf p) st = map_option task_next (tasks st p)"

fun write_link :: "link \<Rightarrow> u64 \<Rightarrow> kstate \<Rightarrow> kstate option" where
  "write_link (HashHead i) v st = do { h \<leftarrow> upd_opt (task_hash st) i v; Some (st\<lparr>task_hash := h\<rparr>) }"
| "write_link (NextOf p) v st = do { t \<leftarrow> tasks st p; Some (put_task p (t\<lparr>task_next := v\<rparr>) st) }"

partial_function (option) task_unlink :: "u64 \<Rightarrow> link \<Rightarrow> kstate \<Rightarrow> kstate option" where
  "task_unlink task pp st = do {
     p \<leftarrow> read_link pp st;
     if p = NULL then Some st
     else if p = task then do { t \<leftarrow> tasks st task; write_link pp (task_next t) st }
     else task_unlink task (NextOf p) st
   }"

definition free_task_slot :: "u64 \<Rightarrow> nat \<Rightarrow> kstate \<Rightarrow> kstate option" where
  "free_task_slot task i st = do {
     t \<leftarrow> tasks st task;
     case slots (task_cspace t) of
       None \<Rightarrow> Some st
     | Some sl \<Rightarrow> do {
         c \<leftarrow> nth_opt sl i;
         if in_use c \<noteq> 0 then do {
           (cs, st, _) \<leftarrow> cspace_free_slot (task_cspace t) (int i) st;
           Some (put_task task (t\<lparr>task_cspace := cs\<rparr>) st)
         }
         else Some st
       }
   }"

definition task_free_map :: "u64 \<Rightarrow> kstate \<Rightarrow> kstate option" where
  "task_free_map task st = do {
     t \<leftarrow> tasks st task;
     if task_map t = NULL then Some st
     else do {
       m \<leftarrow> maps st (task_map t);
       (m, vm) \<leftarrow> vm_map_destroy m (kvm st);
       Some (put_task task (t\<lparr>task_map := NULL\<rparr>)
         (st\<lparr>kvm := vm, freed_dirs := map_pml4 m # freed_dirs st, maps := (maps st)(task_map t := None)\<rparr>))
     }
   }"

definition task_destroy :: "u64 \<Rightarrow> kstate \<Rightarrow> kstate option" where
  "task_destroy task st =
     (if task = NULL then Some st
      else do {
        t \<leftarrow> tasks st task;
        st \<leftarrow> task_unlink task (HashHead (task_hash_id (task_id t))) st;
        st \<leftarrow> foldM (free_task_slot task) [0..<nat (max_slots (task_cspace t))] st;
        st \<leftarrow> task_free_map task st;
        Some (st\<lparr>tasks := (tasks st)(task := None)\<rparr>)
      })"

partial_function (option) task_walk :: "u32 \<Rightarrow> u64 \<Rightarrow> kstate \<Rightarrow> u64 option" where
  "task_walk tid p st =
     (if p = NULL then Some NULL
      else do {
        t \<leftarrow> tasks st p;
        if task_id t = tid then Some p else task_walk tid (task_next t) st
      })"

definition task_find :: "u32 \<Rightarrow> kstate \<Rightarrow> u64 option" where
  "task_find tid st =
     (if tid = 0 then Some NULL
      else do { p \<leftarrow> nth_opt (task_hash st) (task_hash_id tid); task_walk tid p st })"

text \<open>\<^verbatim>\<open>task_find_hold\<close> is the same search that keeps the table lock for its caller.\<close>

definition task_find_hold :: "u32 \<Rightarrow> kstate \<Rightarrow> u64 option" where
  "task_find_hold tid st =
     (if tid = 0 then Some NULL
      else do { p \<leftarrow> nth_opt (task_hash st) (task_hash_id tid); task_walk tid p st })"

section \<open>Task and slot system calls\<close>

text \<open>The conversion of a 64-bit handle to the C type \<^verbatim>\<open>int\<close>, and of a system call's result to a register.\<close>

definition handle_to_int :: "u64 \<Rightarrow> int" where
  "handle_to_int h = sint (ucast h :: 32 word)"

definition result_register :: "int \<Rightarrow> u64" where
  "result_register r = word_of_int r"

definition sys_task_create :: "task_mem \<Rightarrow> kstate \<Rightarrow> (kstate \<times> int) option" where
  "sys_task_create mem st = do {
     (st, t) \<leftarrow> task_create (tm_task mem) (tm_cspace mem) (Some ''user_task'') st;
     if t = NULL then Some (st, - 1)
     else if tm_map mem = NULL then do { st \<leftarrow> task_destroy t st; Some (st, - 1) }
     else if tm_pml4 mem = NULL then do { st \<leftarrow> task_destroy t st; Some (st, - 1) }
     else
       let (m, r) = vm_map_init (tm_entries mem) (tm_pml4 mem) (tm_map_content mem)
       in if r < 0 then do {
            st \<leftarrow> task_destroy t (st\<lparr>freed_dirs := tm_pml4 mem # freed_dirs st\<rparr>);
            Some (st, - 1)
          }
          else do {
            tk \<leftarrow> tasks st t;
            Some (put_task t (tk\<lparr>task_map := tm_map mem\<rparr>) (st\<lparr>maps := (maps st)(tm_map mem \<mapsto> m)\<rparr>),
              sint (task_id tk))
          }
   }"

definition sys_task_destroy :: "u64 \<Rightarrow> kstate \<Rightarrow> kstate \<times> int" where
  "sys_task_destroy cur st = (st, - 1)"

definition sys_slot_alloc :: "cspace_mem \<Rightarrow> u64 \<Rightarrow> u32 \<Rightarrow> u32 \<Rightarrow> kstate \<Rightarrow> (kstate \<times> int) option" where
  "sys_slot_alloc mem cur ty rt st =
     (if cur = NULL then Some (st, - 1)
      else do {
        t \<leftarrow> tasks st cur;
        (cs, slot) \<leftarrow> cspace_alloc_slot mem ty rt 0 (task_cspace t);
        let st = put_task cur (t\<lparr>task_cspace := cs\<rparr>) st;
        if slot < 0 then Some (st, - 1)
        else Some (st, handle_to_int (task_make_handle (task_id t) slot))
      })"

definition sys_slot_free :: "u64 \<Rightarrow> u64 \<Rightarrow> kstate \<Rightarrow> (kstate \<times> int) option" where
  "sys_slot_free cur handle st =
     (if cur = NULL then Some (st, - 1)
      else do {
        t \<leftarrow> tasks st cur;
        if handle_task_id handle \<noteq> task_id t then Some (st, - 1)
        else do {
          (cs, st, r) \<leftarrow> cspace_free_slot (task_cspace t) (handle_slot handle) st;
          Some (put_task cur (t\<lparr>task_cspace := cs\<rparr>) st, r)
        }
      })"

section \<open>The task table\<close>

fun chain :: "(u64 \<rightharpoonup> task) \<Rightarrow> u64 \<Rightarrow> u64 list \<Rightarrow> bool" where
  "chain ts p [] \<longleftrightarrow> p = NULL"
| "chain ts p (q # qs) \<longleftrightarrow> p = q \<and> p \<noteq> NULL \<and> (\<exists>t. ts p = Some t \<and> chain ts (task_next t) qs)"

lemma chain_members: "chain ts p ps \<Longrightarrow> q \<in> set ps \<Longrightarrow> q \<noteq> NULL \<and> (\<exists>t. ts q = Some t)"
  by (induction ps arbitrary: p) auto

lemma chain_cong:
  assumes "\<And>q. q \<in> set ps \<Longrightarrow> map_option task_next (ts' q) = map_option task_next (ts q)" and "chain ts p ps"
  shows "chain ts' p ps"
  using assms
proof (induction ps arbitrary: p)
  case (Cons q qs)
  then obtain t where t: "p = q" "p \<noteq> NULL" "ts q = Some t" "chain ts (task_next t) qs" by auto
  then obtain t' where "ts' q = Some t'" "task_next t' = task_next t" using Cons.prems(1) [of q] by auto
  then show ?case using t Cons.IH [of "task_next t"] Cons.prems(1) by auto
qed simp

lemma task_walk_chain:
  "chain (tasks st) p ps \<Longrightarrow> task_walk tid p st =
    Some (case List.find (\<lambda>q. map_option task_id (tasks st q) = Some tid) ps of None \<Rightarrow> NULL | Some q \<Rightarrow> q)"
proof (induction ps arbitrary: p)
  case Nil
  then show ?case by (subst task_walk.simps) simp
next
  case (Cons q qs)
  then show ?case by (subst task_walk.simps) auto
qed

text \<open>What unlinking leaves alone: every field but the links of the chain.\<close>

definition erase_next :: "task \<Rightarrow> task" where
  "erase_next t = t\<lparr>task_next := NULL\<rparr>"

definition relinked :: "link set \<Rightarrow> kstate \<Rightarrow> kstate \<Rightarrow> bool" where
  "relinked ls st st' \<longleftrightarrow> (\<exists>h ts. st' = st\<lparr>task_hash := h, tasks := ts\<rparr> \<and> length h = length (task_hash st) \<and>
     (\<forall>q. map_option erase_next (ts q) = map_option erase_next (tasks st q))) \<and>
     (\<forall>l. l \<notin> ls \<longrightarrow> read_link l st' = read_link l st)"

lemma relinked_mono: "relinked ls st st' \<Longrightarrow> ls \<subseteq> ls' \<Longrightarrow> relinked ls' st st'"
  unfolding relinked_def by blast

lemma write_link_relinked:
  assumes "read_link l st = Some v"
  shows "\<exists>st'. write_link l w st = Some st' \<and> read_link l st' = Some w \<and> relinked {l} st st'"
proof (cases l)
  case (HashHead i)
  then have i: "i < length (task_hash st)" using assms by (simp add: nth_opt_def split: if_splits)
  have "read_link k (st\<lparr>task_hash := (task_hash st)[i := w]\<rparr>) = read_link k st" if "k \<noteq> l" for k
    using that HashHead by (cases k) (auto simp: nth_opt_def)
  moreover have "\<exists>h ts. st\<lparr>task_hash := (task_hash st)[i := w]\<rparr> = st\<lparr>task_hash := h, tasks := ts\<rparr> \<and> length h = length (task_hash st) \<and>
     (\<forall>q. map_option erase_next (ts q) = map_option erase_next (tasks st q))"
    by (rule exI [of _ "(task_hash st)[i := w]"], rule exI [of _ "tasks st"]) simp
  ultimately show ?thesis using HashHead i by (simp add: relinked_def)
next
  case (NextOf p)
  then obtain t where t: "tasks st p = Some t" using assms by auto
  let ?st = "put_task p (t\<lparr>task_next := w\<rparr>) st"
  have "read_link k ?st = read_link k st" if "k \<noteq> l" for k
    using that NextOf by (cases k) (auto simp: put_task_def)
  moreover have "\<exists>h ts. ?st = st\<lparr>task_hash := h, tasks := ts\<rparr> \<and> length h = length (task_hash st) \<and>
     (\<forall>q. map_option erase_next (ts q) = map_option erase_next (tasks st q))"
    by (rule exI [of _ "task_hash st"], rule exI [of _ "(tasks st)(p \<mapsto> t\<lparr>task_next := w\<rparr>)"])
      (simp add: put_task_def erase_next_def t)
  ultimately show ?thesis using NextOf t by (simp add: relinked_def put_task_def)
qed

lemma relinked_task:
  assumes "relinked ls st st'" and "tasks st p = Some t"
  shows "\<exists>t'. tasks st' p = Some t' \<and> erase_next t' = erase_next t"
proof -
  have "map_option erase_next (tasks st' p) = map_option erase_next (tasks st p)"
    using assms(1) by (auto simp: relinked_def)
  then show ?thesis using assms(2) by auto
qed

lemma relinked_chain:
  assumes "relinked ls st st'" and "\<And>q. q \<in> set ps \<Longrightarrow> NextOf q \<notin> ls" and "chain (tasks st) p ps"
  shows "chain (tasks st') p ps"
proof (rule chain_cong [OF _ assms(3)])
  fix q
  assume "q \<in> set ps"
  then have "read_link (NextOf q) st' = read_link (NextOf q) st"
    using assms(1,2) unfolding relinked_def by blast
  then show "map_option task_next (tasks st' q) = map_option task_next (tasks st q)" by simp
qed

lemma task_unlink_chain:
  assumes "read_link pp st = Some p" and "chain (tasks st) p ps" and "distinct ps" and "pp \<notin> NextOf ` set ps"
  shows "\<exists>st' p'. task_unlink a pp st = Some st' \<and> read_link pp st' = Some p' \<and> chain (tasks st') p' (remove1 a ps) \<and>
    relinked (insert pp (NextOf ` set ps)) st st'"
  using assms
proof (induction ps arbitrary: pp p)
  case Nil
  then have "task_unlink a pp st = Some st" by (subst task_unlink.simps) simp
  moreover have "relinked (insert pp (NextOf ` set [])) st st" unfolding relinked_def
    by (intro conjI exI [of _ "task_hash st"] exI [of _ "tasks st"]) simp_all
  ultimately show ?case using Nil by simp
next
  case (Cons q qs)
  then obtain t where t: "p = q" "q \<noteq> NULL" "tasks st q = Some t" "chain (tasks st) (task_next t) qs" by auto
  show ?case
  proof (cases "q = a")
    case True
    obtain st' where st': "write_link pp (task_next t) st = Some st'" "read_link pp st' = Some (task_next t)" "relinked {pp} st st'"
      using write_link_relinked [OF Cons.prems(1)] by blast
    have "task_unlink a pp st = Some st'"
      using st'(1) True t Cons.prems(1) by (subst task_unlink.simps) simp
    moreover have "chain (tasks st') (task_next t) qs"
      using relinked_chain [OF st'(3) _ t(4)] Cons.prems(4) by auto
    moreover have "relinked (insert pp (NextOf ` set (q # qs))) st st'"
      using relinked_mono [OF st'(3)] by blast
    ultimately show ?thesis using st'(2) True by simp
  next
    case False
    have "read_link (NextOf q) st = Some (task_next t)" using t(3) by simp
    then obtain st' p' where IH: "task_unlink a (NextOf q) st = Some st'" "read_link (NextOf q) st' = Some p'"
      "chain (tasks st') p' (remove1 a qs)" "relinked (insert (NextOf q) (NextOf ` set qs)) st st'"
      using Cons.IH [of "NextOf q" "task_next t"] t(4) Cons.prems(3) by auto
    have "task_unlink a pp st = Some st'"
      using IH(1) False t Cons.prems(1) by (subst task_unlink.simps) simp
    moreover have "read_link pp st' = Some q"
      using IH(4) Cons.prems(1,4) t(1) by (simp add: relinked_def)
    moreover have "chain (tasks st') q (remove1 a (q # qs))" using False IH(2,3) t(2) by auto
    moreover have "relinked (insert pp (NextOf ` set (q # qs))) st st'"
      by (rule relinked_mono [OF IH(4)]) auto
    ultimately show ?thesis by blast
  qed
qed

text \<open>
  The table invariant: every chain ends, has no repetition and holds exactly the live tasks that hash to
  it; task numbers are positive, unique and below the next number.
\<close>

definition bucket :: "(u64 \<rightharpoonup> task) \<Rightarrow> nat \<Rightarrow> u64 set" where
  "bucket ts i = {p. \<exists>t. ts p = Some t \<and> task_hash_id (task_id t) = i}"

definition tasks_inv :: "kstate \<Rightarrow> bool" where
  "tasks_inv st \<longleftrightarrow> length (task_hash st) = TASK_HASH_SIZE \<and>
     (\<forall>i < TASK_HASH_SIZE. \<exists>ps. chain (tasks st) (task_hash st ! i) ps \<and> distinct ps \<and> set ps = bucket (tasks st) i) \<and>
     (\<forall>p q t u. tasks st p = Some t \<longrightarrow> tasks st q = Some u \<longrightarrow> task_id t = task_id u \<longrightarrow> p = q) \<and>
     (\<forall>p t. tasks st p = Some t \<longrightarrow> 0 < task_id t \<and> task_id t < next_task_id st)"

lemma tasks_invD:
  assumes "tasks_inv st"
  shows "length (task_hash st) = TASK_HASH_SIZE"
    and "i < TASK_HASH_SIZE \<Longrightarrow> \<exists>ps. chain (tasks st) (task_hash st ! i) ps \<and> distinct ps \<and> set ps = bucket (tasks st) i"
    and "\<lbrakk>tasks st p = Some t; tasks st q = Some u; task_id t = task_id u\<rbrakk> \<Longrightarrow> p = q"
    and "tasks st p = Some t \<Longrightarrow> 0 < task_id t \<and> task_id t < next_task_id st"
  using assms unfolding tasks_inv_def by blast+

lemma task_hash_id_less: "task_hash_id tid < TASK_HASH_SIZE"
proof -
  have "tid AND 255 \<le> 255" by (rule word_and_le1)
  then show ?thesis by (simp add: task_hash_id_def word_le_nat_alt)
qed

lemma tasks_not_null:
  assumes "tasks_inv st" and "tasks st p = Some t"
  shows "p \<noteq> NULL"
proof -
  obtain ps where "chain (tasks st) (task_hash st ! task_hash_id (task_id t)) ps" "set ps = bucket (tasks st) (task_hash_id (task_id t))"
    using tasks_invD(2) [OF assms(1) task_hash_id_less] by blast
  then show ?thesis using chain_members assms(2) by (auto simp: bucket_def)
qed

lemma task_find_lookup:
  assumes "tasks_inv st"
  shows "\<exists>r. task_find tid st = Some r \<and>
    (r = NULL \<and> (\<forall>p t. tasks st p = Some t \<longrightarrow> task_id t \<noteq> tid) \<or>
     r \<noteq> NULL \<and> (\<exists>t. tasks st r = Some t \<and> task_id t = tid))"
proof (cases "tid = 0")
  case True
  then show ?thesis using tasks_invD(4) [OF assms] by (fastforce simp: task_find_def)
next
  case False
  let ?i = "task_hash_id tid" and ?P = "\<lambda>q. map_option task_id (tasks st q) = Some tid"
  have i: "?i < TASK_HASH_SIZE" by (rule task_hash_id_less)
  obtain ps where ps: "chain (tasks st) (task_hash st ! ?i) ps" "set ps = bucket (tasks st) ?i"
    using tasks_invD(2) [OF assms i] by blast
  have r: "task_find tid st = Some (case List.find ?P ps of None \<Rightarrow> NULL | Some q \<Rightarrow> q)"
    using False i task_walk_chain [OF ps(1)] tasks_invD(1) [OF assms] by (simp add: task_find_def)
  show ?thesis
  proof (cases "List.find ?P ps")
    case None
    then have "tasks st p = Some t \<Longrightarrow> task_id t \<noteq> tid" for p t
      using ps(2) by (auto simp: find_None_iff bucket_def)
    then show ?thesis using r None by auto
  next
    case (Some q)
    then have "q \<in> set ps" "?P q" by (auto simp: find_Some_iff)
    then show ?thesis using r Some chain_members [OF ps(1), of q] by auto
  qed
qed

lemma task_find_hold_eq: "task_find_hold = task_find"
  by (simp add: fun_eq_iff task_find_hold_def task_find_def)

section \<open>Creating and destroying tasks\<close>

lemma chain_put_fresh: "ts a = None \<Longrightarrow> chain ts p ps \<Longrightarrow> chain (ts(a \<mapsto> t)) p ps"
  by (rule chain_cong [where ts = ts]) (auto dest!: chain_members)

lemma bucket_put: "ts a = None \<Longrightarrow> bucket (ts(a \<mapsto> t)) i = (if i = task_hash_id (task_id t) then insert a (bucket ts i) else bucket ts i)"
  by (auto simp: bucket_def)

lemma tasks_inv_create:
  assumes inv: "tasks_inv st" and a: "a \<noteq> NULL" "tasks st a = None" and no_wrap: "next_task_id st \<noteq> - 1"
    and first: "1 \<le> next_task_id st"
    and t: "task_id t = next_task_id st" "task_next t = task_hash st ! task_hash_id (next_task_id st)"
  shows "tasks_inv (put_task a t (st\<lparr>next_task_id := next_task_id st + 1,
    task_hash := (task_hash st)[task_hash_id (next_task_id st) := a]\<rparr>))" (is "tasks_inv ?st")
proof -
  let ?i = "task_hash_id (next_task_id st)"
  have less: "next_task_id st < next_task_id st + 1"
    using no_wrap unatSuc [of "next_task_id st"] by (simp add: word_less_nat_alt add.commute eq_neg_iff_add_eq_0)
  note d = tasks_invD [OF inv]
  have ts: "tasks ?st = (tasks st)(a \<mapsto> t)" by (simp add: put_task_def)
  have hd: "task_hash ?st = (task_hash st)[?i := a]" by (simp add: put_task_def)
  have "\<exists>ps. chain (tasks ?st) (task_hash ?st ! i) ps \<and> distinct ps \<and> set ps = bucket (tasks ?st) i" if i: "i < TASK_HASH_SIZE" for i
  proof -
    obtain ps where ps: "chain (tasks st) (task_hash st ! i) ps" "distinct ps" "set ps = bucket (tasks st) i"
      using d(2) [OF i] by blast
    have an: "a \<notin> set ps" using ps(3) a(2) by (auto simp: bucket_def)
    have c: "chain (tasks ?st) (task_hash st ! i) ps" unfolding ts by (rule chain_put_fresh [of "tasks st"]) (fact a(2) ps(1))+
    show ?thesis
    proof (cases "i = ?i")
      case True
      then have "chain (tasks ?st) (task_hash ?st ! i) (a # ps)"
        using c a(1) t(2) i d(1) hd ts by simp
      moreover have "set (a # ps) = bucket (tasks ?st) i" using ps(3) True bucket_put [of "tasks st" a t i] a(2) t(1) ts by simp
      moreover have "distinct (a # ps)" using an ps(2) by simp
      ultimately show ?thesis by blast
    next
      case False
      then show ?thesis using c ps(2,3) bucket_put [of "tasks st" a t i] a(2) t(1) ts hd by (intro exI [of _ ps]) simp
    qed
  qed
  moreover have "p = q" if "tasks ?st p = Some u" "tasks ?st q = Some v" "task_id u = task_id v" for p q u v
  proof (cases "p = a"; cases "q = a")
    assume "p = a" "q \<noteq> a"
    then show ?thesis using that d(4) [of q v] t(1) ts by auto
  next
    assume "p \<noteq> a" "q = a"
    then show ?thesis using that d(4) [of p u] t(1) ts by auto
  next
    assume "p \<noteq> a" "q \<noteq> a"
    then show ?thesis using that d(3) [of p u q v] ts by auto
  qed simp
  moreover have "0 < task_id u \<and> task_id u < next_task_id ?st" if "tasks ?st p = Some u" for p u
    using that d(4) [of p u] t(1) first less unfolding ts
    by (auto simp: put_task_def word_gt_0 split: if_splits)
  ultimately show ?thesis
    unfolding tasks_inv_def using d(1) hd by (metis length_list_update)
qed

lemma cspace_init_wf:
  assumes "cspace_init mem cs = (cs', r)" and "\<not> r < 0"
  shows "cspace_wf cs' \<and> cspace_clean cs' \<and> caps cs' = Map.empty"
proof -
  have cs': "slots cs' = Some (replicate 256 zero_slot)" "free_bitmap cs' = Some ((replicate 8 0)[0 := 1])" "max_slots cs' = 256" "bitmap_words cs' = 8"
    using assms by (auto simp: cspace_init_def Let_def split: option.splits)
  have bit: "bit_at ((replicate 8 0)[0 := 1] :: u32 list) i \<longleftrightarrow> i = 0" if "i < 256" for i
  proof (cases "i div 32 = 0")
    case True
    then show ?thesis by (simp add: bit_at_def bit_1_iff)
  next
    case False
    then show ?thesis using that by (auto simp: bit_at_def nth_list_update less_mult_imp_div_less)
  qed
  have "cspace_wf cs'"
    unfolding cspace_wf_def using cs' bit by (auto simp: zero_slot_def)
  moreover have "cspace_clean cs'" using cs' by (simp add: cspace_clean_def zero_slot_def)
  moreover have "caps cs' = Map.empty" using cs' bit by (auto simp: caps_def fun_eq_iff)
  ultimately show ?thesis by blast
qed

text \<open>Everything the kernel keeps consistent about tasks, their capability spaces and the ports.\<close>

definition kinv :: "kstate \<Rightarrow> bool" where
  "kinv st \<longleftrightarrow> tasks_inv st \<and> ports_inv st \<and>
     (\<forall>p t. tasks st p = Some t \<longrightarrow> cspace_wf (task_cspace t) \<and> cspace_clean (task_cspace t))"

lemma kinvD:
  assumes "kinv st"
  shows "tasks_inv st" and "ports_inv st"
    and "tasks st p = Some t \<Longrightarrow> cspace_wf (task_cspace t)" and "tasks st p = Some t \<Longrightarrow> cspace_clean (task_cspace t)"
  using assms unfolding kinv_def by blast+

lemma task_create_cases:
  assumes inv: "kinv st" and a: "tasks st a = None" and first: "1 \<le> next_task_id st" and no_wrap: "next_task_id st \<noteq> - 1"
  shows "task_create a cmem nm st = Some (st, NULL) \<or>
    (\<exists>st' t. task_create a cmem nm st = Some (st', a) \<and> a \<noteq> NULL \<and> kinv st' \<and> tasks st' = (tasks st)(a \<mapsto> t) \<and>
      task_id t = next_task_id st \<and> next_task_id st' = next_task_id st + 1 \<and> caps (task_cspace t) = Map.empty \<and> task_map t = NULL \<and>
      ports st' = ports st)"
proof -
  obtain cs r where cs: "cspace_init cmem null_cspace = (cs, r)" by force
  show ?thesis
  proof (cases "a = NULL \<or> r < 0")
    case True
    then show ?thesis using cs by (auto simp: task_create_def)
  next
    case False
    let ?i = "task_hash_id (next_task_id st)"
    let ?t = "\<lparr>task_id = next_task_id st, task_name = (case nm of None \<Rightarrow> [] | Some s \<Rightarrow> take (TASK_NAME_MAX - 1) s),
      task_cspace = cs, task_map = NULL, main_thread = NULL, task_next = task_hash st ! ?i\<rparr>"
    let ?st = "put_task a ?t (st\<lparr>next_task_id := next_task_id st + 1, task_hash := (task_hash st)[?i := a]\<rparr>)"
    note c = cspace_init_wf [OF cs] and len = tasks_invD(1) [OF kinvD(1) [OF inv]]
    have "task_create a cmem nm st = Some (?st, a)"
      using False cs task_hash_id_less [of "next_task_id st"] len by (simp add: task_create_def Let_def)
    moreover have "tasks_inv ?st"
      using tasks_inv_create [OF kinvD(1) [OF inv] _ a no_wrap first, of ?t] False by simp
    moreover have "ports_inv ?st" using kinvD(2) [OF inv] by (simp add: put_task_def ports_inv_def)
    ultimately show ?thesis
      using False c kinvD(3,4) [OF inv] by (auto simp: kinv_def put_task_def)
  qed
qed

text \<open>Dropping a number of references of a port at once.\<close>

definition drop_refs :: "nat \<Rightarrow> ipc_port option \<Rightarrow> ipc_port option" where
  "drop_refs n po = (case po of None \<Rightarrow> None
     | Some p \<Rightarrow> if ref_count p \<le> int n \<and> n \<noteq> 0 then None else Some (p\<lparr>ref_count := ref_count p - int n\<rparr>))"

definition names_port :: "cspace \<Rightarrow> u64 \<Rightarrow> nat \<Rightarrow> bool" where
  "names_port cs a i \<longleftrightarrow> (\<exists>c. caps cs i = Some c \<and> cap_type c = CAP_PORT \<and> object_id c = a)"

lemma drop_refs_Suc: "drop_refs (Suc n) po = drop_refs 1 (drop_refs n po)"
  by (auto simp: drop_refs_def split: option.splits)

lemma drop_refs_0 [simp]: "drop_refs 0 po = po"
  by (simp add: drop_refs_def split: option.splits)

lemma port_release_drop:
  assumes "ports_inv st" and "port_release a st = Some st'"
  shows "ports_inv st'" and "st' = st\<lparr>port_table := port_table st', ports := ports st'\<rparr>"
    and "ports st' b = drop_refs (if b = a then 1 else 0) (ports st b)"
proof -
  obtain st1 where st1: "port_release a st = Some st1" "ports_inv st1"
    "ports st1 = (ports st)(a := (case ports st a of None \<Rightarrow> None
      | Some p \<Rightarrow> if ref_count p = 1 then None else Some (p\<lparr>ref_count := ref_count p - 1\<rparr>)))"
    using port_release_correct [OF assms(1)] by blast
  have pos: "ports st a = Some p \<Longrightarrow> 1 \<le> ref_count p" for p using ports_invD(4) [OF assms(1)] by blast
  show "ports_inv st'" using st1 assms(2) by simp
  show "ports st' b = drop_refs (if b = a then 1 else 0) (ports st b)"
    using st1 assms(2) pos by (auto simp: drop_refs_def split: option.splits)
  show "st' = st\<lparr>port_table := port_table st', ports := ports st'\<rparr>"
    using assms(2) unfolding port_release_def port_drop_ref_def
    by (auto simp: Option.bind_eq_Some_conv split: if_splits option.splits)
qed

lemma in_use_caps:
  assumes "cspace_wf cs" and "cspace_clean cs" and "int i < max_slots cs"
  shows "\<exists>c. nth_opt (array_of (slots cs)) i = Some c \<and> slots cs \<noteq> None \<and> (in_use c \<noteq> 0 \<longleftrightarrow> caps cs i \<noteq> None)"
proof -
  obtain sl bm where sl: "slots cs = Some sl" and n: "int (length sl) = max_slots cs"
    by (rule cspace_wfE [OF assms(1)])
  then have i: "i < length sl" using assms(3) by linarith
  have "cspace_lookup_snapshot cs (int i) = Some (caps cs i)"
    using lookup_snapshot_clean [OF assms(1,2), of "int i"] by simp
  then show ?thesis
    using i sl n assms(3) by (cases "caps cs i") (auto simp: cspace_lookup_snapshot_def slot_in_range_def split: if_splits)
qed

definition freed_upto :: "u64 \<Rightarrow> task \<Rightarrow> kstate \<Rightarrow> nat \<Rightarrow> kstate \<Rightarrow> bool" where
  "freed_upto a t st k st' \<longleftrightarrow> (\<exists>cs tb ps. st' = put_task a (t\<lparr>task_cspace := cs\<rparr>) (st\<lparr>port_table := tb, ports := ps\<rparr>) \<and>
     ports_inv st' \<and> cspace_wf cs \<and> cspace_clean cs \<and> max_slots cs = max_slots (task_cspace t) \<and>
     (\<forall>i. caps cs i = (if i < k then None else caps (task_cspace t) i)) \<and>
     (\<forall>b. ps b = drop_refs (length (filter (names_port (task_cspace t) b) [0..<k])) (ports st b)))"

lemma ports_inv_cong: "port_table st = port_table st' \<Longrightarrow> ports st = ports st' \<Longrightarrow> ports_inv st = ports_inv st'"
  for st :: "'a pstate_scheme" and st' :: "'b pstate_scheme"
  by (simp add: ports_inv_def)

lemma free_slot_max:
  assumes "cspace_free_slot cs s st = Some (cs', st', r)"
  shows "max_slots cs' = max_slots cs"
  using assms by (auto simp: cspace_free_slot_def clear_slot_def write_slot_def Option.bind_eq_Some_conv split: if_splits)

lemma free_task_slot_step:
  assumes "freed_upto a t st k st1" and k: "int k < max_slots (task_cspace t)"
  shows "\<exists>st2. free_task_slot a k st1 = Some st2 \<and> freed_upto a t st (Suc k) st2"
proof -
  from assms(1) obtain cs tb ps where st1: "st1 = put_task a (t\<lparr>task_cspace := cs\<rparr>) (st\<lparr>port_table := tb, ports := ps\<rparr>)"
    and inv: "ports_inv st1" and cs: "cspace_wf cs" "cspace_clean cs" "max_slots cs = max_slots (task_cspace t)"
    and caps: "\<And>i. caps cs i = (if i < k then None else caps (task_cspace t) i)"
    and ps: "\<And>b. ps b = drop_refs (length (filter (names_port (task_cspace t) b) [0..<k])) (ports st b)"
    unfolding freed_upto_def by blast
  have t1: "tasks st1 a = Some (t\<lparr>task_cspace := cs\<rparr>)" and p1: "ports st1 = ps" using st1 by (simp_all add: put_task_def)
  obtain c where c: "nth_opt (array_of (slots cs)) k = Some c" "slots cs \<noteq> None" "in_use c \<noteq> 0 \<longleftrightarrow> caps cs k \<noteq> None"
    using in_use_caps [OF cs(1,2), of k] k cs(3) by auto
  then obtain sl where sl: "slots cs = Some sl" "nth_opt sl k = Some c" by auto
  have filt: "length (filter P [0..<Suc k]) = length (filter P [0..<k]) + (if P k then 1 else 0)" for P by simp
  show ?thesis
  proof (cases "caps cs k")
    case None
    then have none: "caps (task_cspace t) k = None" using caps [of k] by simp
    then have "\<not> names_port (task_cspace t) b k" for b by (simp add: names_port_def)
    moreover have "caps cs i = (if i < Suc k then None else caps (task_cspace t) i)" for i
      using caps [of i] none by (cases "i = k") auto
    ultimately have "freed_upto a t st (Suc k) st1"
      unfolding freed_upto_def using st1 inv cs ps filt by (intro exI [of _ cs] exI [of _ tb] exI [of _ ps]) simp
    then show ?thesis using t1 sl c(3) None by (simp add: free_task_slot_def)
  next
    case (Some d)
    obtain cs' st' where f: "cspace_free_slot cs (int k) st1 = Some (cs', st', 0)" "cspace_wf cs'" "caps cs' = (caps cs)(k := None)"
      "cspace_clean cs'" "ports_inv st'" "if cap_type d = CAP_PORT then port_release (object_id d) st1 = Some st' else st' = st1"
      using free_slot_held [OF cs(1) Some inv] cs(2) by blast
    have d: "caps (task_cspace t) k = Some d" using Some caps [of k] by (auto split: if_splits)
    have sh: "st' = st1\<lparr>port_table := port_table st', ports := ports st'\<rparr>"
    proof (cases "cap_type d = CAP_PORT")
      case True
      then show ?thesis using f(6) port_release_drop(2) [OF inv] by metis
    qed (use f(6) in simp)
    have sh2: "ports st' b = drop_refs (if names_port (task_cspace t) b k then 1 else 0) (ps b)" for b
    proof (cases "cap_type d = CAP_PORT")
      case True
      then have "port_release (object_id d) st1 = Some st'" using f(6) by simp
      from port_release_drop(3) [OF inv this, of b] show ?thesis using True d p1 by (auto simp: names_port_def)
    qed (use f(6) d p1 in \<open>simp add: names_port_def\<close>)
    have eq: "put_task a (t\<lparr>task_cspace := cs'\<rparr>) st' =
        put_task a (t\<lparr>task_cspace := cs'\<rparr>) (st\<lparr>port_table := port_table st', ports := ports st'\<rparr>)"
      by (subst sh) (simp add: st1 put_task_def)
    have "free_task_slot a k st1 = Some (put_task a (t\<lparr>task_cspace := cs'\<rparr>) st')"
      using t1 sl c(3) Some f(1) by (simp add: free_task_slot_def)
    moreover have "freed_upto a t st (Suc k) (put_task a (t\<lparr>task_cspace := cs'\<rparr>) st')"
      unfolding freed_upto_def
    proof (intro exI conjI allI)
      show "put_task a (t\<lparr>task_cspace := cs'\<rparr>) st' = put_task a (t\<lparr>task_cspace := cs'\<rparr>) (st\<lparr>port_table := port_table st', ports := ports st'\<rparr>)"
        by (fact eq)
      show "ports_inv (put_task a (t\<lparr>task_cspace := cs'\<rparr>) st')" using f(5) by (simp add: ports_inv_def put_task_def)
      show "max_slots cs' = max_slots (task_cspace t)" using free_slot_max [OF f(1)] cs(3) by simp
      show "caps cs' i = (if i < Suc k then None else caps (task_cspace t) i)" for i
        using f(3) caps [of i] by (auto simp: less_Suc_eq)
      show "ports st' b = drop_refs (length (filter (names_port (task_cspace t) b) [0..<Suc k])) (ports st b)" for b
        unfolding filt using sh2 [of b] ps [of b] drop_refs_Suc [of "length (filter (names_port (task_cspace t) b) [0..<k])" "ports st b"]
        by (cases "names_port (task_cspace t) b k") simp_all
    qed (use f in simp_all)
    ultimately show ?thesis by blast
  qed
qed

lemma free_task_slots:
  assumes a: "tasks st a = Some t" and inv: "ports_inv st" and cs: "cspace_wf (task_cspace t)" "cspace_clean (task_cspace t)"
  shows "int k \<le> max_slots (task_cspace t) \<Longrightarrow>
    \<exists>st'. foldM (free_task_slot a) [0..<k] st = Some st' \<and> freed_upto a t st k st'"
proof (induction k)
  case 0
  have "freed_upto a t st 0 st"
    unfolding freed_upto_def using a inv cs
    by (intro exI [of _ "task_cspace t"] exI [of _ "port_table st"] exI [of _ "ports st"])
      (simp add: put_task_def fun_upd_idem)
  then show ?case by simp
next
  case (Suc k)
  then obtain st1 where st1: "foldM (free_task_slot a) [0..<k] st = Some st1" "freed_upto a t st k st1" by auto
  then obtain st2 where "free_task_slot a k st1 = Some st2" "freed_upto a t st (Suc k) st2"
    using free_task_slot_step [OF st1(2)] Suc.prems by auto
  then show ?case using st1(1) by (simp add: foldM_append)
qed

text \<open>The references a task's capabilities hold on a port.\<close>

definition cap_refs :: "cspace \<Rightarrow> u64 \<Rightarrow> nat" where
  "cap_refs cs a = length (filter (names_port cs a) [0..<nat (max_slots cs)])"

text \<open>
  The address map of a task is consistent with the references other holders \<open>oth\<close> have on the memory
  objects.
\<close>

definition task_map_ok :: "(u64 \<Rightarrow> nat) \<Rightarrow> task \<Rightarrow> kstate \<Rightarrow> bool" where
  "task_map_ok oth t st \<longleftrightarrow> (if task_map t = NULL then vmo_inv oth (kvm st)
     else \<exists>m. maps st (task_map t) = Some m \<and> map_inv oth m (kvm st))"

lemma tasks_inv_remove:
  assumes inv: "tasks_inv st" and a: "tasks st a = Some t" and rl: "read_link (HashHead (task_hash_id (task_id t))) st' = Some p'"
    and ch: "chain (tasks st) (task_hash st ! task_hash_id (task_id t)) ps" "distinct ps" "set ps = bucket (tasks st) (task_hash_id (task_id t))"
    and p': "chain (tasks st') p' (remove1 a ps)"
    and rel: "relinked (insert (HashHead (task_hash_id (task_id t))) (NextOf ` set ps)) st st'"
  shows "tasks_inv (st'\<lparr>tasks := (tasks st')(a := None)\<rparr>)" (is "tasks_inv ?st")
proof -
  let ?i = "task_hash_id (task_id t)"
  note d = tasks_invD [OF inv]
  have er: "map_option erase_next (tasks st' q) = map_option erase_next (tasks st q)" for q using rel by (auto simp: relinked_def)
  have id: "map_option task_id (tasks st' q) = map_option task_id (tasks st q)" for q
    using arg_cong [OF er [of q], of "map_option task_id"] by (simp add: option.map_comp comp_def erase_next_def)
  have nid: "next_task_id st' = next_task_id st" and len: "length (task_hash st') = TASK_HASH_SIZE"
    using rel d(1) by (auto simp: relinked_def)
  have bk: "bucket (tasks ?st) i = bucket (tasks st) i - {a}" for i
    using id by (auto simp: bucket_def) (metis map_option_eq_Some option.map_disc_iff option.distinct(1) option.exhaust option.sel)+
  have frame: "chain (tasks ?st) q qs" if "chain (tasks st') q qs" "a \<notin> set qs" for q qs
    using that(2) by (intro chain_cong [OF _ that(1)]) auto
  have "\<exists>qs. chain (tasks ?st) (task_hash ?st ! i) qs \<and> distinct qs \<and> set qs = bucket (tasks ?st) i" if i: "i < TASK_HASH_SIZE" for i
  proof (cases "i = ?i")
    case True
    have "task_hash ?st ! i = p'" using rl True len i by (simp add: nth_opt_def)
    moreover have "chain (tasks ?st) p' (remove1 a ps)" by (rule frame [OF p']) (simp add: ch(2))
    ultimately show ?thesis using True ch(2,3) bk by (intro exI [of _ "remove1 a ps"]) simp
  next
    case False
    obtain qs where qs: "chain (tasks st) (task_hash st ! i) qs" "distinct qs" "set qs = bucket (tasks st) i" using d(2) [OF i] by blast
    have dis: "set qs \<inter> set ps = {}" "a \<notin> set qs" using qs(3) ch(3) False a by (auto simp: bucket_def)
    have "read_link (HashHead i) st' = read_link (HashHead i) st" using rel False by (auto simp: relinked_def)
    then have "task_hash ?st ! i = task_hash st ! i" using len d(1) i by (simp add: nth_opt_def)
    moreover have "chain (tasks ?st) (task_hash st ! i) qs"
      using frame [OF relinked_chain [OF rel _ qs(1)]] dis by auto
    moreover have "set qs = bucket (tasks ?st) i" using qs(3) bk [of i] dis(2) by auto
    ultimately show ?thesis using qs(2) by auto
  qed
  moreover have old: "\<exists>u'. tasks st q = Some u' \<and> task_id u' = task_id u" if "tasks ?st q = Some u" for q u
    using that id [of q] by (cases "q = a") (auto dest: sym)
  have "p = q" if "tasks ?st p = Some u" "tasks ?st q = Some v" "task_id u = task_id v" for p q u v
    using old [OF that(1)] old [OF that(2)] d(3) that(3) by metis
  moreover have "0 < task_id u \<and> task_id u < next_task_id st'" if "tasks ?st p = Some u" for p u
    using old [OF that] d(4) nid by metis
  moreover have "length (task_hash ?st) = TASK_HASH_SIZE" "next_task_id ?st = next_task_id st'" using len by simp_all
  ultimately show ?thesis unfolding tasks_inv_def by metis
qed

lemma tasks_inv_cong:
  "tasks st = tasks st' \<Longrightarrow> task_hash st = task_hash st' \<Longrightarrow> next_task_id st = next_task_id st' \<Longrightarrow> tasks_inv st = tasks_inv st'"
  by (simp add: tasks_inv_def)

lemma task_free_map_effect:
  assumes "tasks st a = Some t" and "task_map_ok oth t st"
  shows "\<exists>st' t'. task_free_map a st = Some st' \<and> vmo_inv oth (kvm st') \<and> tasks st' = (tasks st)(a \<mapsto> t') \<and>
    task_hash st' = task_hash st \<and> next_task_id st' = next_task_id st \<and> ports st' = ports st \<and> port_table st' = port_table st"
proof (cases "task_map t = NULL")
  case True
  moreover have "tasks st = (tasks st)(a \<mapsto> t)" using assms(1) by (simp add: fun_upd_idem)
  ultimately show ?thesis using assms by (auto simp: task_free_map_def task_map_ok_def)
next
  case False
  then obtain m where m: "maps st (task_map t) = Some m" "map_inv oth m (kvm st)" using assms(2) by (auto simp: task_map_ok_def)
  then obtain m' vm where "vm_map_destroy m (kvm st) = Some (m', vm)" "vmo_inv oth vm"
    using vm_map_destroy_live [of m oth "kvm st"] by (auto simp: map_inv_def)
  then show ?thesis using False m(1) assms(1) by (auto simp: task_free_map_def put_task_def)
qed

lemma cspace_max_pos: "cspace_wf cs \<Longrightarrow> 0 < max_slots cs"
  by (erule cspace_wfE) linarith

lemma task_destroy_effect:
  assumes inv: "kinv st" and a: "tasks st a = Some t" and mp: "task_map_ok oth t st"
  shows "\<exists>st'. task_destroy a st = Some st' \<and> kinv st' \<and> tasks st' a = None \<and>
    (\<forall>q. q \<noteq> a \<longrightarrow> map_option erase_next (tasks st' q) = map_option erase_next (tasks st q)) \<and>
    (\<forall>b. ports st' b = drop_refs (cap_refs (task_cspace t) b) (ports st b)) \<and> vmo_inv oth (kvm st')"
proof -
  note k = kinvD [OF inv]
  let ?i = "task_hash_id (task_id t)" and ?n = "nat (max_slots (task_cspace t))"
  obtain ps where ps: "chain (tasks st) (task_hash st ! ?i) ps" "distinct ps" "set ps = bucket (tasks st) ?i"
    using tasks_invD(2) [OF k(1) task_hash_id_less] by blast
  have "read_link (HashHead ?i) st = Some (task_hash st ! ?i)"
    using tasks_invD(1) [OF k(1)] task_hash_id_less by (simp add: nth_opt_def)
  then obtain st1 p' where st1: "task_unlink a (HashHead ?i) st = Some st1" "read_link (HashHead ?i) st1 = Some p'"
    "chain (tasks st1) p' (remove1 a ps)" "relinked (insert (HashHead ?i) (NextOf ` set ps)) st st1"
    using task_unlink_chain [of "HashHead ?i" st _ ps a] ps by blast
  obtain t1 where t1: "tasks st1 a = Some t1" "erase_next t1 = erase_next t" using relinked_task [OF st1(4) a] by blast
  have f1: "task_cspace t1 = task_cspace t" "task_map t1 = task_map t"
    using arg_cong [OF t1(2), of task_cspace] arg_cong [OF t1(2), of task_map] by (simp_all add: erase_next_def)
  have s1: "ports st1 = ports st" "port_table st1 = port_table st" "kvm st1 = kvm st" "maps st1 = maps st"
    and er: "\<And>q. map_option erase_next (tasks st1 q) = map_option erase_next (tasks st q)"
    using st1(4) by (auto simp: relinked_def)
  have inv1: "ports_inv st1" using k(2) s1 ports_inv_cong by metis
  have "int ?n \<le> max_slots (task_cspace t1)" using cspace_max_pos [OF k(3) [OF a]] f1 by simp
  then obtain st2 where st2: "foldM (free_task_slot a) [0..<?n] st1 = Some st2" "freed_upto a t1 st1 ?n st2"
    using free_task_slots [OF t1(1) inv1, of ?n] k(3,4) [OF a] f1(1) by auto
  obtain cs tb qs where e2: "st2 = put_task a (t1\<lparr>task_cspace := cs\<rparr>) (st1\<lparr>port_table := tb, ports := qs\<rparr>)" "ports_inv st2"
    "\<And>b. qs b = drop_refs (length (filter (names_port (task_cspace t1) b) [0..<?n])) (ports st1 b)"
    using st2(2) unfolding freed_upto_def by blast
  have "tasks st2 a = Some (t1\<lparr>task_cspace := cs\<rparr>)" "task_map_ok oth (t1\<lparr>task_cspace := cs\<rparr>) st2"
    using e2(1) mp f1(2) s1 by (simp_all add: put_task_def task_map_ok_def)
  then obtain st3 t3 where st3: "task_free_map a st2 = Some st3" "vmo_inv oth (kvm st3)" "tasks st3 = (tasks st2)(a \<mapsto> t3)"
    "task_hash st3 = task_hash st2" "next_task_id st3 = next_task_id st2" "ports st3 = ports st2" "port_table st3 = port_table st2"
    using task_free_map_effect by blast
  let ?st = "st3\<lparr>tasks := (tasks st3)(a := None)\<rparr>"
  have run: "task_destroy a st = Some ?st"
    using tasks_not_null [OF k(1) a] a st1(1) st2(1) st3(1) by (simp add: task_destroy_def)
  have ts: "tasks ?st = (tasks st1)(a := None)" using st3(3) e2(1) by (simp add: put_task_def)
  have "tasks_inv ?st = tasks_inv (st1\<lparr>tasks := (tasks st1)(a := None)\<rparr>)"
    by (rule tasks_inv_cong) (use ts st3 e2(1) in \<open>simp_all add: put_task_def\<close>)
  then have "tasks_inv ?st" using tasks_inv_remove [OF k(1) a st1(2) ps st1(3,4)] by simp
  moreover have "ports_inv ?st" using e2(2) st3(6,7) by (simp add: ports_inv_def)
  moreover have "cspace_wf (task_cspace u) \<and> cspace_clean (task_cspace u)" if "tasks ?st q = Some u" for q u
  proof -
    have "map_option (task_cspace \<circ> erase_next) (tasks st q) = Some (task_cspace u)"
      using that ts er [of q, symmetric] by (auto simp: erase_next_def option.map_comp [symmetric] split: if_splits)
    then show ?thesis using k(3,4) [of q] by (auto simp: erase_next_def)
  qed
  ultimately have "kinv ?st" by (simp add: kinv_def)
  moreover have "ports ?st b = drop_refs (cap_refs (task_cspace t) b) (ports st b)" for b
    using e2(1,3) st3(6) s1(1) f1(1) by (simp add: put_task_def cap_refs_def)
  ultimately show ?thesis using run ts er st3(2) by auto
qed

lemma task_find_hit:
  assumes "tasks_inv st" and "tasks st p = Some t" and "task_id t = tid"
  shows "task_find tid st = Some p"
proof -
  obtain r where r: "task_find tid st = Some r" "r = NULL \<and> (\<forall>p t. tasks st p = Some t \<longrightarrow> task_id t \<noteq> tid) \<or>
     r \<noteq> NULL \<and> (\<exists>t. tasks st r = Some t \<and> task_id t = tid)"
    using task_find_lookup [OF assms(1)] by blast
  from r(2) have "r = p"
  proof (elim disjE conjE exE)
    assume "\<forall>p t. tasks st p = Some t \<longrightarrow> task_id t \<noteq> tid"
    then show ?thesis using assms(2,3) by simp
  next
    fix u
    assume "tasks st r = Some u" "task_id u = tid"
    then show ?thesis using tasks_invD(3) [OF assms(1) _ assms(2)] assms(3) by simp
  qed
  then show ?thesis using r(1) by simp
qed

lemma task_find_miss:
  assumes "tasks_inv st" and "\<And>p t. tasks st p = Some t \<Longrightarrow> task_id t \<noteq> tid"
  shows "task_find tid st = Some NULL"
  using task_find_lookup [OF assms(1), of tid] assms(2) by blast

lemma task_find_cong:
  assumes inv: "tasks_inv st" "tasks_inv st'"
    and same: "\<And>q. (\<exists>t. tasks st' q = Some t \<and> task_id t = tid) \<longleftrightarrow> (\<exists>t. tasks st q = Some t \<and> task_id t = tid)"
  shows "task_find tid st' = task_find tid st"
proof (cases "\<exists>q t. tasks st q = Some t \<and> task_id t = tid")
  case True
  then obtain q t where q: "tasks st q = Some t" "task_id t = tid" by blast
  then obtain t' where "tasks st' q = Some t'" "task_id t' = tid" using same by blast
  then show ?thesis using q task_find_hit [OF inv(1)] task_find_hit [OF inv(2)] by simp
next
  case False
  then have "tasks st p = Some t \<Longrightarrow> task_id t \<noteq> tid" "tasks st' p = Some t \<Longrightarrow> task_id t \<noteq> tid" for p t
    using same by blast+
  then show ?thesis using task_find_miss [OF inv(1), of tid] task_find_miss [OF inv(2), of tid] by simp
qed

lemma handle_to_int_make:
  assumes "0 \<le> slot" and "slot < 2 ^ 31"
  shows "handle_to_int (task_make_handle t slot) = slot"
proof -
  have "take_bit 31 slot = slot" using assms by (simp add: take_bit_int_eq_self)
  then have high: "\<not> bit slot n" if "31 \<le> n" for n using that bit_take_bit_iff [of 31 slot n] by simp
  have "(ucast (task_make_handle t slot) :: 32 word) = word_of_int slot"
    by (rule bit_word_eqI) (use high in \<open>auto simp: bit_simps handle_bits dest: bit_imp_le_length\<close>)
  then show ?thesis using assms by (simp add: handle_to_int_def sint_word_ariths signed_of_int signed_take_bit_int_eq_self)
qed

section \<open>An example state\<close>

definition empty_kstate :: kstate where
  "empty_kstate = \<lparr>port_table = replicate PORT_TABLE_MAX NULL, ports = Map.empty, sched_events = [], known_threads = (\<lambda>_. True),
     tasks = Map.empty, task_hash = replicate TASK_HASH_SIZE NULL, next_task_id = 1,
     kvm = empty_vm, maps = Map.empty, freed_dirs = []\<rparr>"

definition boot_cmem :: cspace_mem where
  "boot_cmem = \<lparr>cm_slots = Some [], cm_bitmap = Some []\<rparr>"

lemma empty_kstate_inv: "kinv empty_kstate"
proof -
  have "tasks_inv empty_kstate"
    by (auto simp: tasks_inv_def empty_kstate_def bucket_def intro!: exI [of _ "[]"])
  moreover have "ports_inv empty_kstate" by (auto simp: ports_inv_def empty_kstate_def)
  ultimately show ?thesis by (simp add: kinv_def empty_kstate_def)
qed

definition one_task :: kstate where
  "one_task = fst (the (task_create 0x5000 boot_cmem (Some ''init'') empty_kstate))"

lemma one_task_run: "task_create 0x5000 boot_cmem (Some ''init'') empty_kstate = Some (one_task, 0x5000)"
  and one_task_inv: "kinv one_task"
  and one_task_tasks: "\<exists>t. tasks one_task = [0x5000 \<mapsto> t] \<and> task_id t = 1 \<and> caps (task_cspace t) = Map.empty \<and> task_map t = NULL"
  and one_task_next: "next_task_id one_task = 2" and one_task_ports: "ports one_task = Map.empty"
proof -
  let ?r = "task_create 0x5000 boot_cmem (Some ''init'') empty_kstate"
  have "?r \<noteq> Some (empty_kstate, NULL)"
    by (auto simp: task_create_def cspace_init_def boot_cmem_def Let_def Option.bind_eq_Some_conv)
  then obtain st' t where st': "?r = Some (st', 0x5000)" "kinv st'" "tasks st' = (tasks empty_kstate)(0x5000 \<mapsto> t)" "task_id t = next_task_id empty_kstate"
    "next_task_id st' = next_task_id empty_kstate + 1" "caps (task_cspace t) = Map.empty" "task_map t = NULL" "ports st' = ports empty_kstate"
    using task_create_cases [OF empty_kstate_inv, of "0x5000" boot_cmem "Some ''init''"]
    by (auto simp: empty_kstate_def)
  then have "one_task = st'" by (simp add: one_task_def)
  then show "?r = Some (one_task, 0x5000)" "kinv one_task" "next_task_id one_task = 2" "ports one_task = Map.empty"
    "\<exists>t. tasks one_task = [0x5000 \<mapsto> t] \<and> task_id t = 1 \<and> caps (task_cspace t) = Map.empty \<and> task_map t = NULL"
    using st' by (auto simp add: empty_kstate_def)
qed

lemma task_create_kvm: "task_create a cmem nm st = Some (st', r) \<Longrightarrow> kvm st' = kvm st"
  by (auto simp: task_create_def put_task_def Let_def Option.bind_eq_Some_conv split: if_splits prod.splits)

section \<open>Properties\<close>

text \<open>
  C3. Destroying a task from a consistent kernel state always succeeds: the task leaves the table, every
  other task keeps everything but possibly its chain link, every port loses exactly the references the
  task's capabilities held on it (and is freed when they were the last), the references its address map
  held on memory objects are given back, and the state is consistent again.
\<close>
theorem task_destroy_correct:
  assumes "kinv st" and "tasks st a = Some t" and "task_map_ok oth t st"
  shows "\<exists>st'. task_destroy a st = Some st' \<and> kinv st' \<and> tasks st' a = None \<and>
    (\<forall>q. q \<noteq> a \<longrightarrow> map_option erase_next (tasks st' q) = map_option erase_next (tasks st q)) \<and>
    (\<forall>b. ports st' b = drop_refs (cap_refs (task_cspace t) b) (ports st b)) \<and> vmo_inv oth (kvm st')"
  by (rule task_destroy_effect [OF assms])

theorem task_destroy_correct_witness:
  "\<exists>st'. task_destroy 0x5000 one_task = Some st' \<and> kinv st' \<and> tasks st' 0x5000 = None"
proof -
  obtain t where t: "tasks one_task = [0x5000 \<mapsto> t]" "task_map t = NULL" using one_task_tasks by blast
  have "vmo_inv (\<lambda>_. 0) (kvm one_task)"
    using task_create_kvm [OF one_task_run] empty_vm_inv by (simp add: empty_kstate_def)
  then have "task_map_ok (\<lambda>_. 0) t one_task" using t(2) by (simp add: task_map_ok_def)
  then show ?thesis using task_destroy_correct [OF one_task_inv, of "0x5000" t "\<lambda>_. 0"] t(1) by auto
qed

text \<open>
  C4. A created task is found under its number and no other lookup changes; destroying it again makes
  every lookup answer as before, and no port is affected.
\<close>
theorem task_create_find_destroy:
  assumes inv: "kinv st" and a: "tasks st a = None" and n: "1 \<le> next_task_id st" "next_task_id st \<noteq> - 1"
    and run: "task_create a cmem nm st = Some (st1, a)" and nz: "a \<noteq> NULL" and vm: "vmo_inv oth (kvm st)"
  shows "task_find (next_task_id st) st1 = Some a \<and> (\<forall>tid. tid \<noteq> next_task_id st \<longrightarrow> task_find tid st1 = task_find tid st) \<and>
    (\<exists>st2. task_destroy a st1 = Some st2 \<and> (\<forall>tid. task_find tid st2 = task_find tid st) \<and> ports st2 = ports st)"
proof -
  obtain t where st1: "kinv st1" "tasks st1 = (tasks st)(a \<mapsto> t)" "task_id t = next_task_id st" "caps (task_cspace t) = Map.empty"
    "task_map t = NULL" "ports st1 = ports st"
    using task_create_cases [OF inv a n, of cmem nm] run nz by auto
  have "task_map_ok oth t st1" using vm st1(5) task_create_kvm [OF run] by (simp add: task_map_ok_def)
  then obtain st2 where st2: "task_destroy a st1 = Some st2" "kinv st2" "tasks st2 a = None"
    "\<And>q. q \<noteq> a \<Longrightarrow> map_option erase_next (tasks st2 q) = map_option erase_next (tasks st1 q)"
    "\<And>b. ports st2 b = drop_refs (cap_refs (task_cspace t) b) (ports st1 b)"
    using task_destroy_effect [OF st1(1), of a t oth] st1(2) by auto
  note i0 = kinvD(1) [OF inv] and i1 = kinvD(1) [OF st1(1)] and i2 = kinvD(1) [OF st2(2)]
  have "task_find (next_task_id st) st1 = Some a" using task_find_hit [OF i1, of a t] st1(2,3) by simp
  moreover have "task_find tid st1 = task_find tid st" if "tid \<noteq> next_task_id st" for tid
    by (rule task_find_cong [OF i0 i1]) (use that st1(2,3) a in auto)
  moreover have ids: "map_option task_id (tasks st2 q) = map_option task_id (tasks st q)" for q
  proof (cases "q = a")
    case False
    then show ?thesis using arg_cong [OF st2(4), of q "map_option task_id"] st1(2)
      by (simp add: option.map_comp comp_def erase_next_def)
  qed (use a st2(3) in simp)
  have "task_find tid st2 = task_find tid st" for tid
    by (rule task_find_cong [OF i0 i2]) (metis ids map_option_eq_Some)
  moreover have "cap_refs (task_cspace t) b = 0" for b using st1(4) by (simp add: cap_refs_def names_port_def)
  then have "ports st2 = ports st" using st2(5) st1(6) by (simp add: fun_eq_iff)
  ultimately show ?thesis using st2(1) by blast
qed

theorem task_create_find_destroy_witness:
  "task_find 1 one_task = Some 0x5000 \<and> (\<exists>st2. task_destroy 0x5000 one_task = Some st2 \<and> task_find 1 st2 = Some NULL)"
proof -
  have "kvm empty_kstate = empty_vm" "task_find 1 empty_kstate = Some NULL" "tasks empty_kstate 0x5000 = None"
    "1 \<le> next_task_id empty_kstate" "next_task_id empty_kstate \<noteq> - 1" "next_task_id empty_kstate = 1"
    by (simp_all add: empty_kstate_def task_find_def task_walk.simps task_hash_id_less)
  then show ?thesis
    using task_create_find_destroy [OF empty_kstate_inv _ _ _ one_task_run _, of "\<lambda>_. 0"] empty_vm_inv by auto
qed

end
