(* ===== verification/Ipc.thy ===== *)
theory Ipc
  imports Tasks "HOL-Library.Multiset"
begin

unbundle bit_operations_syntax

text \<open>
  Message passing of \<^verbatim>\<open>mk/vm/port.c\<close> over tasks: sending with capability transfer, receiving, and the port
  system calls.

  Arguments for code outside the component: memory for a larger ring (\<open>queue_mem\<close>) or capability space
  (\<open>cmem\<close>, by position of the descriptor and the space that grows), the number of the calling thread
  (\<open>None\<close> without one), the caller's message as \<^verbatim>\<open>copy_from_user\<close> delivers it (\<open>None\<close> on a fault), whether
  \<^verbatim>\<open>copy_to_user\<close> succeeds, the uninitialised message buffer on the kernel stack, and the tick counter.

  \<^verbatim>\<open>cspace_move\<close> is the one operation here that takes two locks of the same kind.  Its locks are modelled: a
  spinlock loops while it is held, and the tasks' spaces enter the call with their locks free, as every
  operation releases what it takes.  The lock of a space is named by the address of its task, in which it is
  embedded at a fixed offset.

  System calls that block are cut at the points where the thread gives up the processor:
  \<open>sys_port_call\<close> into \<open>sys_port_call_start\<close> and the rounds \<open>call_recv\<close>, \<open>call_park\<close> of its wait loop,
  \<open>sys_port_poll\<close> into \<open>sys_port_poll_start\<close> and \<open>sys_port_poll_round\<close>.
\<close>

section \<open>Capability transfer\<close>

fun validate_from :: "task \<Rightarrow> ipc_msg \<Rightarrow> nat \<Rightarrow> nat \<Rightarrow> int option" where
  "validate_from t msg i 0 = Some 0"
| "validate_from t msg i (Suc n) = do {
     d \<leftarrow> nth_opt (dispose msg) i;
     if handle_task_id (d_handle d) \<noteq> task_id t then Some (- 1)
     else do {
       snap \<leftarrow> cspace_lookup_snapshot (task_cspace t) (handle_slot (d_handle d));
       case snap of
         None \<Rightarrow> Some (- 1)
       | Some c \<Rightarrow>
           if in_use c = 0 then Some (- 1)
           else if cap_type c \<noteq> d_type d then Some (- 1)
           else validate_from t msg (Suc i) n
     }
   }"

definition validate_dispose :: "u64 \<Rightarrow> ipc_msg \<Rightarrow> kstate \<Rightarrow> int option" where
  "validate_dispose sender msg st =
     (if ndispose msg = 0 then Some 0
      else if sender = NULL then Some (- 1)
      else if unat (ndispose msg) > IPC_DISPOSE_MAX then Some (- 1)
      else do { t \<leftarrow> tasks st sender; validate_from t msg 0 (unat (ndispose msg)) })"

type_synonym cap_memory = "nat \<Rightarrow> cspace \<Rightarrow> cspace_mem"

text \<open>Taking a lock: the loop is left only when the lock is not held.  A lock held by the caller itself is never released.\<close>

partial_function (option) spin_lock :: "u64 \<Rightarrow> u64 set \<Rightarrow> u64 set option" where
  "spin_lock lock held = (if lock \<in> held then spin_lock lock held else Some (insert lock held))"

definition lock_spaces :: "u64 \<Rightarrow> u64 \<Rightarrow> u64 set \<Rightarrow> u64 set option" where
  "lock_spaces src dst held =
     (if src < dst then do { held \<leftarrow> spin_lock src held; spin_lock dst held }
      else do { held \<leftarrow> spin_lock dst held; spin_lock src held })"

text \<open>The move between the spaces of two tasks given by address, with the locks it takes.\<close>

definition task_cspace_move :: "(cspace \<Rightarrow> cspace_mem) \<Rightarrow> u64 \<Rightarrow> u64 \<Rightarrow> int \<Rightarrow> kstate \<Rightarrow> (kstate \<times> int) option" where
  "task_cspace_move mem src dst slot st = do {
     s \<leftarrow> tasks st src;
     if \<not> slot_in_range (task_cspace s) slot then Some (st, - 1)
     else do {
       _ \<leftarrow> lock_spaces src dst {};
       r \<leftarrow> tasks st dst;
       (from_cs, to_cs, dst_slot) \<leftarrow> cspace_move (mem (task_cspace r)) (task_cspace s) (task_cspace r) slot;
       Some (put_task dst (r\<lparr>task_cspace := to_cs\<rparr>) (put_task src (s\<lparr>task_cspace := from_cs\<rparr>) st), dst_slot)
     }
   }"

definition deliver_one :: "cap_memory \<Rightarrow> u64 \<Rightarrow> u64 \<Rightarrow> u32 \<Rightarrow> ipc_msg \<Rightarrow> nat \<Rightarrow> kstate \<times> nat \<Rightarrow> (kstate \<times> nat) option" where
  "deliver_one cmem receiver sender sender_tid msg i = (\<lambda>(st, moved). do {
     d \<leftarrow> nth_opt (dispose msg) i;
     if handle_task_id (d_handle d) \<noteq> sender_tid then Some (st, moved)
     else do {
       s \<leftarrow> tasks st sender;
       snap \<leftarrow> cspace_lookup_snapshot (task_cspace s) (handle_slot (d_handle d));
       case snap of
         None \<Rightarrow> Some (st, moved)
       | Some c \<Rightarrow>
           if cap_type c \<noteq> d_type d then Some (st, moved)
           else do {
             (st, dst_slot) \<leftarrow> task_cspace_move (cmem i) sender receiver (handle_slot (d_handle d)) st;
             Some (st, if dst_slot \<ge> 0 then moved + 1 else moved)
           }
     }
   })"

definition deliver_dispose :: "cap_memory \<Rightarrow> u64 \<Rightarrow> ipc_msg \<Rightarrow> u32 \<Rightarrow> kstate \<Rightarrow> (kstate \<times> nat) option" where
  "deliver_dispose cmem receiver msg sender_tid st =
     (if sender_tid = 0 then Some (st, 0)
      else do {
        sender \<leftarrow> task_find_hold sender_tid st;
        if sender = NULL then Some (st, 0)
        else foldM (deliver_one cmem receiver sender sender_tid msg) [0..<unat (ndispose msg)] (st, 0)
      })"

section \<open>Sending and receiving\<close>

definition port_send :: "queue_mem \<Rightarrow> u64 \<Rightarrow> ipc_msg \<Rightarrow> u64 \<Rightarrow> kstate \<Rightarrow> (kstate \<times> int) option" where
  "port_send qmem port msg sender st =
     (if port = NULL then Some (st, IPC_ERR_NOSLOT)
      else do {
        p \<leftarrow> ports st port;
        if magic p \<noteq> PORT_MAGIC then Some (st, IPC_ERR_NOSLOT)
        else do {
          v \<leftarrow> validate_dispose sender msg st;
          if v < 0 then Some (st, IPC_ERR_INVAL)
          else do {
            (p, r) \<leftarrow> (if queue_count p \<ge> queue_size p then port_grow_queue qmem p else Some (p, 0));
            if r < 0 then Some (st, IPC_ERR_FULL)
            else do {
              sid \<leftarrow> (if sender = NULL then Some 0 else map_option task_id (tasks st sender));
              p \<leftarrow> port_put msg sid p;
              let (p, evs) = port_wake_all_locked (known_threads st) p;
              Some (emit evs (port_update port p st), IPC_OK)
            }
          }
        }
      })"

definition notify_msg :: "ipc_msg \<Rightarrow> ipc_msg" where
  "notify_msg buf = buf\<lparr>msg_id := 0, data_size := 0, ndispose := 0\<rparr>"

definition port_recv ::
  "cap_memory \<Rightarrow> u32 option \<Rightarrow> u64 \<Rightarrow> u64 \<Rightarrow> ipc_msg \<Rightarrow> kstate \<Rightarrow> (kstate \<times> int \<times> ipc_msg) option" where
  "port_recv cmem thr cur port buf st =
     (if port = NULL then Some (st, IPC_ERR_NOSLOT, buf)
      else do {
        p \<leftarrow> ports st port;
        if magic p \<noteq> PORT_MAGIC then Some (st, IPC_ERR_NOSLOT, buf)
        else if queue_count p = 0 \<and> pending_notify p \<noteq> 0 then
          Some (port_update port (p\<lparr>pending_notify := 0\<rparr>) st, IPC_OK, notify_msg buf)
        else if queue_count p = 0 then
          (case thr of
             None \<Rightarrow> Some (st, IPC_ERR_EMPTY, buf)
           | Some tid \<Rightarrow> do {
               p \<leftarrow> port_wait_register_locked tid p;
               Some (emit [RemoveThread tid, BlockThread tid] (port_update port p st), IPC_ERR_EMPTY, buf)
             })
        else do {
          ((msg, sender_tid), p) \<leftarrow> port_take buf p;
          let st = port_update port p st;
          if cur \<noteq> NULL \<and> ndispose msg > 0
          then do { (st, _) \<leftarrow> deliver_dispose cmem cur msg sender_tid st; Some (st, IPC_OK, msg) }
          else Some (st, IPC_OK, msg)
        }
      })"

section \<open>Port system calls\<close>

definition port_from_cslot :: "cslot \<Rightarrow> u32 \<Rightarrow> kstate \<Rightarrow> (kstate \<times> u64) option" where
  "port_from_cslot cs need_rights st =
     (if cap_type cs \<noteq> CAP_PORT then Some (st, NULL)
      else if rights cs AND need_rights = 0 then Some (st, NULL)
      else port_ref_raw (object_id cs) st)"

text \<open>The common start of the system calls: the caller's slot, if it holds a port capability with the rights.\<close>

definition caller_port :: "u64 \<Rightarrow> u64 \<Rightarrow> u32 \<Rightarrow> kstate \<Rightarrow> (kstate \<times> u64) option" where
  "caller_port cur handle need st =
     (if cur = NULL then Some (st, NULL)
      else do {
        t \<leftarrow> tasks st cur;
        snap \<leftarrow> cspace_lookup_snapshot (task_cspace t) (handle_slot handle);
        case snap of None \<Rightarrow> Some (st, NULL) | Some c \<Rightarrow> port_from_cslot c need st
      })"

definition sys_port_create :: "port_mem \<Rightarrow> cspace_mem \<Rightarrow> u64 \<Rightarrow> kstate \<Rightarrow> (kstate \<times> int) option" where
  "sys_port_create pmem cmem cur st =
     (if cur = NULL then Some (st, IPC_ERR_NOSLOT)
      else
        let (st, port) = port_create pmem st
        in if port = NULL then Some (st, IPC_ERR_NOSLOT)
        else do {
          t \<leftarrow> tasks st cur;
          (cs, slot) \<leftarrow> cspace_alloc_slot cmem CAP_PORT (CAP_SEND OR CAP_RECV OR CAP_REPLY) port (task_cspace t);
          let st = put_task cur (t\<lparr>task_cspace := cs\<rparr>) st;
          if slot < 0 then do { (st, _) \<leftarrow> port_destroy port st; Some (st, IPC_ERR_NOSLOT) }
          else Some (st, handle_to_int (task_make_handle (task_id t) slot))
        })"

definition free_caller_slot :: "u64 \<Rightarrow> int \<Rightarrow> kstate \<Rightarrow> kstate option" where
  "free_caller_slot cur slot st = do {
     t \<leftarrow> tasks st cur;
     (cs, st, _) \<leftarrow> cspace_free_slot (task_cspace t) slot st;
     Some (put_task cur (t\<lparr>task_cspace := cs\<rparr>) st)
   }"

definition sys_port_destroy :: "u64 \<Rightarrow> u64 \<Rightarrow> kstate \<Rightarrow> (kstate \<times> int) option" where
  "sys_port_destroy cur handle st =
     (if cur = NULL then Some (st, IPC_ERR_NOSLOT)
      else do {
        t \<leftarrow> tasks st cur;
        snap \<leftarrow> cspace_lookup_snapshot (task_cspace t) (handle_slot handle);
        case snap of
          None \<Rightarrow> Some (st, IPC_ERR_NOSLOT)
        | Some c \<Rightarrow> do {
            (st, port) \<leftarrow> port_ref_raw (object_id c) st;
            if port = NULL then Some (st, IPC_ERR_NOSLOT)
            else do {
              (st, _) \<leftarrow> port_destroy port st;
              st \<leftarrow> port_release port st;
              st \<leftarrow> free_caller_slot cur (handle_slot handle) st;
              Some (st, IPC_OK)
            }
          }
      })"

definition sys_port_send_handle :: "queue_mem \<Rightarrow> u64 \<Rightarrow> u64 \<Rightarrow> ipc_msg \<Rightarrow> kstate \<Rightarrow> (kstate \<times> int) option" where
  "sys_port_send_handle qmem cur handle kmsg st = do {
     (st, port) \<leftarrow> caller_port cur handle CAP_SEND st;
     if port = NULL then Some (st, IPC_ERR_NOSLOT)
     else do {
       (st, ret) \<leftarrow> port_send qmem port kmsg cur st;
       st \<leftarrow> port_release port st;
       Some (st, ret)
     }
   }"

definition sys_port_send :: "queue_mem \<Rightarrow> u64 \<Rightarrow> u64 \<Rightarrow> ipc_msg option \<Rightarrow> kstate \<Rightarrow> (kstate \<times> int) option" where
  "sys_port_send qmem cur handle user_msg st = do {
     (st, port) \<leftarrow> caller_port cur handle CAP_SEND st;
     if port = NULL then Some (st, IPC_ERR_NOSLOT)
     else do {
       (st, ret) \<leftarrow> (case user_msg of None \<Rightarrow> Some (st, IPC_ERR_FAULT) | Some kmsg \<Rightarrow> port_send qmem port kmsg cur st);
       st \<leftarrow> port_release port st;
       Some (st, ret)
     }
   }"

definition sys_port_recv ::
  "cap_memory \<Rightarrow> u32 option \<Rightarrow> bool \<Rightarrow> u64 \<Rightarrow> u64 \<Rightarrow> ipc_msg \<Rightarrow> kstate \<Rightarrow> (kstate \<times> int \<times> ipc_msg option) option" where
  "sys_port_recv cmem thr copy_ok cur handle buf st = do {
     (st, port) \<leftarrow> caller_port cur handle CAP_RECV st;
     if port = NULL then Some (st, IPC_ERR_NOSLOT, None)
     else do {
       (st, ret, kmsg) \<leftarrow> port_recv cmem thr cur port buf st;
       let (ret, out) = (if ret = IPC_OK then if copy_ok then (ret, Some kmsg) else (IPC_ERR_FAULT, None) else (ret, None));
       st \<leftarrow> port_release port st;
       Some (st, ret, out)
     }
   }"

definition sys_port_reply :: "queue_mem \<Rightarrow> u64 \<Rightarrow> u64 \<Rightarrow> ipc_msg option \<Rightarrow> kstate \<Rightarrow> (kstate \<times> int) option" where
  "sys_port_reply qmem cur reply_handle user_msg st = sys_port_send qmem cur reply_handle user_msg st"

definition sys_port_notify :: "u64 \<Rightarrow> u64 \<Rightarrow> kstate \<Rightarrow> (kstate \<times> int) option" where
  "sys_port_notify cur handle st = do {
     (st, port) \<leftarrow> caller_port cur handle CAP_SEND st;
     if port = NULL then Some (st, IPC_ERR_NOSLOT)
     else do {
       (st, ret) \<leftarrow> port_notify port st;
       st \<leftarrow> port_release port st;
       Some (st, ret)
     }
   }"

section \<open>Calls\<close>

text \<open>A call that has sent its request waits on its reply port, whose capability is in a slot of the caller.\<close>

record pending_call =
  reply_port :: u64
  reply_slot :: int

definition close_reply_port :: "u64 \<Rightarrow> pending_call \<Rightarrow> kstate \<Rightarrow> kstate option" where
  "close_reply_port cur pc st = do {
     (st, _) \<leftarrow> port_destroy (reply_port pc) st;
     free_caller_slot cur (reply_slot pc) st
   }"

definition sys_port_call_start ::
  "port_mem \<Rightarrow> cspace_mem \<Rightarrow> queue_mem \<Rightarrow> u64 \<Rightarrow> u64 \<Rightarrow> ipc_msg option \<Rightarrow> kstate \<Rightarrow> (kstate \<times> (int + pending_call)) option" where
  "sys_port_call_start pmem cmem qmem cur handle user_msg st =
     (if cur = NULL then Some (st, Inl IPC_ERR_NOSLOT)
      else case user_msg of
        None \<Rightarrow> Some (st, Inl IPC_ERR_FAULT)
      | Some kmsg \<Rightarrow>
          let (st, rp) = port_create pmem st
          in if rp = NULL then Some (st, Inl IPC_ERR_NOSLOT)
          else do {
            t \<leftarrow> tasks st cur;
            (cs, slot) \<leftarrow> cspace_alloc_slot cmem CAP_PORT (CAP_RECV OR CAP_REPLY) rp (task_cspace t);
            let st = put_task cur (t\<lparr>task_cspace := cs\<rparr>) st;
            if slot < 0 then do { (st, _) \<leftarrow> port_destroy rp st; Some (st, Inl IPC_ERR_NOSLOT) }
            else do {
              let pc = \<lparr>reply_port = rp, reply_slot = slot\<rparr>;
              (st, ret) \<leftarrow> sys_port_send_handle qmem cur handle kmsg st;
              if ret \<noteq> IPC_OK then do { st \<leftarrow> close_reply_port cur pc st; Some (st, Inl ret) }
              else Some (st, Inr pc)
            }
          })"

datatype call_next = CallRecv | CallPark | CallDone int "ipc_msg option"

definition call_finish :: "bool \<Rightarrow> u64 \<Rightarrow> pending_call \<Rightarrow> int \<Rightarrow> ipc_msg \<Rightarrow> kstate \<Rightarrow> (kstate \<times> call_next) option" where
  "call_finish copy_ok cur pc ret reply st =
     (let (ret, out) = (if ret = IPC_OK then if copy_ok then (ret, Some reply) else (IPC_ERR_FAULT, None) else (ret, None))
      in do { st \<leftarrow> close_reply_port cur pc st; Some (st, CallDone ret out) })"

definition call_recv ::
  "cap_memory \<Rightarrow> u32 option \<Rightarrow> bool \<Rightarrow> u64 \<Rightarrow> pending_call \<Rightarrow> ipc_msg \<Rightarrow> kstate \<Rightarrow> (kstate \<times> call_next) option" where
  "call_recv cmem thr copy_ok cur pc buf st = do {
     (st, ret, reply) \<leftarrow> port_recv cmem thr cur (reply_port pc) buf st;
     if ret \<noteq> IPC_ERR_EMPTY \<or> thr = None then call_finish copy_ok cur pc ret reply st
     else Some (st, CallPark)
   }"

definition call_park :: "u32 \<Rightarrow> bool \<Rightarrow> u64 \<Rightarrow> pending_call \<Rightarrow> ipc_msg \<Rightarrow> kstate \<Rightarrow> (kstate \<times> call_next) option" where
  "call_park tid copy_ok cur pc buf st = do {
     p \<leftarrow> ports st (reply_port pc);
     if magic p \<noteq> PORT_MAGIC then call_finish copy_ok cur pc IPC_ERR_NOSLOT buf st
     else if queue_count p > 0 \<or> pending_notify p \<noteq> 0 then Some (st, CallRecv)
     else do {
       p \<leftarrow> port_wait_register_locked tid p;
       Some (emit [RemoveThread tid, BlockThread tid] (port_update (reply_port pc) p st), CallRecv)
     }
   }"

section \<open>Polling\<close>

fun poll_scan :: "u64 \<Rightarrow> u64 list \<Rightarrow> nat \<Rightarrow> kstate \<Rightarrow> (kstate \<times> nat option) option" where
  "poll_scan cur [] i st = Some (st, None)"
| "poll_scan cur (h # hs) i st = do {
     (st, port) \<leftarrow> caller_port cur h CAP_RECV st;
     if port = NULL then poll_scan cur hs (Suc i) st
     else do {
       p \<leftarrow> ports st port;
       st \<leftarrow> port_release port st;
       if queue_count p > 0 \<or> pending_notify p \<noteq> 0 then Some (st, Some i) else poll_scan cur hs (Suc i) st
     }
   }"

fun poll_register :: "u64 \<Rightarrow> u32 \<Rightarrow> u64 list \<Rightarrow> kstate \<Rightarrow> kstate option" where
  "poll_register cur tid [] st = Some st"
| "poll_register cur tid (h # hs) st = do {
     (st, port) \<leftarrow> caller_port cur h CAP_RECV st;
     if port = NULL then poll_register cur tid hs st
     else do {
       p \<leftarrow> ports st port;
       p \<leftarrow> (if magic p = PORT_MAGIC then port_wait_register_locked tid p else Some p);
       st \<leftarrow> port_release port (port_update port p st);
       poll_register cur tid hs st
     }
   }"

text \<open>The checks before the loop, with the deadline in ticks; the handles are \<open>None\<close> when they cannot be read.\<close>

definition sys_port_poll_start :: "u64 \<Rightarrow> u64 \<Rightarrow> u64 list option \<Rightarrow> int \<Rightarrow> u64 \<Rightarrow> int + (u64 list \<times> u64)" where
  "sys_port_poll_start ticks cur user_handles cnt timeout_us =
     (if cur = NULL then Inl IPC_ERR_NOSLOT
      else if cnt \<le> 0 \<or> cnt > 64 then Inl IPC_ERR_INVAL
      else case user_handles of
        None \<Rightarrow> Inl IPC_ERR_FAULT
      | Some handles \<Rightarrow>
          let ms = (ucast timeout_us :: u32) div 1000
          in Inr (handles, if ms > 0 then ticks + ucast ms else 0))"

definition sys_port_poll_round ::
  "u64 \<Rightarrow> u32 option \<Rightarrow> u64 \<Rightarrow> u64 list \<Rightarrow> u64 \<Rightarrow> u64 \<Rightarrow> kstate \<Rightarrow> (kstate \<times> int option) option" where
  "sys_port_poll_round ticks thr cur handles timeout_us deadline st = do {
     (st, ready) \<leftarrow> poll_scan cur handles 0 st;
     case ready of
       Some i \<Rightarrow> Some (st, Some (int i))
     | None \<Rightarrow>
         if timeout_us > 0 \<and> sint ((ucast ticks :: 32 word) - ucast deadline) \<ge> 0 then Some (st, Some IPC_ERR_TIMEOUT)
         else if timeout_us = 0 then Some (st, Some IPC_ERR_EMPTY)
         else (case thr of
             None \<Rightarrow> Some (st, None)
           | Some tid \<Rightarrow> do {
               st \<leftarrow> poll_register cur tid handles st;
               Some (emit [SleepTicks deadline] st, None)
             })
   }"

section \<open>Capabilities of all tasks\<close>

definition cap_mset :: "cspace \<Rightarrow> cslot multiset" where
  "cap_mset cs = image_mset (the \<circ> caps cs) (mset_set (dom (caps cs)))"

text \<open>Every capability that exists, with its multiplicity.\<close>

definition total_caps :: "kstate \<Rightarrow> cslot multiset" where
  "total_caps st = (\<Sum>p\<in>dom (tasks st). cap_mset (task_cspace (the (tasks st p))))"

lemma finite_caps: "cspace_wf cs \<Longrightarrow> finite (dom (caps cs))"
  by (rule finite_subset [of _ "{..< nat (max_slots cs)}"]) (auto dest: caps_range)

lemma cap_mset_cong:
  assumes "finite A" and "\<And>i. i \<in> A \<Longrightarrow> f i = g i"
  shows "image_mset f (mset_set A) = image_mset g (mset_set A)"
  using assms by (intro image_mset_cong) simp

lemma cap_mset_insert:
  assumes "finite (dom (caps cs))" and "caps cs i = None" and "caps cs' = (caps cs)(i \<mapsto> c)"
  shows "cap_mset cs' = add_mset c (cap_mset cs)"
proof -
  have "dom (caps cs') = insert i (dom (caps cs))" "i \<notin> dom (caps cs)" using assms(2,3) by auto
  moreover have "image_mset (the \<circ> caps cs') (mset_set (dom (caps cs))) = cap_mset cs"
    unfolding cap_mset_def by (rule cap_mset_cong [OF assms(1)]) (use assms(2,3) in auto)
  ultimately show ?thesis using assms(1,3) by (simp add: cap_mset_def)
qed

lemma cap_mset_remove:
  assumes "finite (dom (caps cs))" and "caps cs i = Some c" and "caps cs' = (caps cs)(i := None)"
  shows "cap_mset cs = add_mset c (cap_mset cs')"
  by (rule cap_mset_insert) (use assms in \<open>auto simp: fun_upd_idem\<close>)

lemma finite_tasks:
  assumes "tasks_inv st"
  shows "finite (dom (tasks st))"
proof -
  have "finite (bucket (tasks st) i)" if "i < TASK_HASH_SIZE" for i
    using tasks_invD(2) [OF assms that] by (metis List.finite_set)
  moreover have "dom (tasks st) \<subseteq> (\<Union>i<TASK_HASH_SIZE. bucket (tasks st) i)"
    using task_hash_id_less by (auto simp: bucket_def)
  ultimately show ?thesis by (meson finite_UN finite_lessThan finite_subset lessThan_iff)
qed

text \<open>The task table depends on the numbers and links of the tasks only.\<close>

lemma tasks_inv_same:
  assumes "tasks_inv st" and same: "\<And>q. map_option (\<lambda>t. (task_id t, task_next t)) (tasks st' q) = map_option (\<lambda>t. (task_id t, task_next t)) (tasks st q)"
    and h: "task_hash st' = task_hash st" and n: "next_task_id st' = next_task_id st"
  shows "tasks_inv st'"
proof -
  note d = tasks_invD [OF assms(1)]
  have old: "\<exists>v. tasks st q = Some v \<and> task_id v = task_id u \<and> task_next v = task_next u" if "tasks st' q = Some u" for q u
    using same [of q] that by (cases "tasks st q") auto
  have new: "\<exists>v. tasks st' q = Some v \<and> task_id v = task_id u \<and> task_next v = task_next u" if "tasks st q = Some u" for q u
    using same [of q] that by auto
  have "bucket (tasks st') i = bucket (tasks st) i" for i
  proof (intro set_eqI iffI)
    show "p \<in> bucket (tasks st) i" if p: "p \<in> bucket (tasks st') i" for p
      using p old [of p] unfolding bucket_def by auto
    show "p \<in> bucket (tasks st') i" if p: "p \<in> bucket (tasks st) i" for p
      using p new [of p] unfolding bucket_def by auto
  qed
  moreover have "chain (tasks st') p ps" if "chain (tasks st) p ps" for p ps
  proof (rule chain_cong [OF _ that])
    show "map_option task_next (tasks st' q) = map_option task_next (tasks st q)" for q
      using arg_cong [OF same [of q], of "map_option snd"] by (simp add: option.map_comp comp_def)
  qed
  ultimately have "\<forall>i < TASK_HASH_SIZE. \<exists>ps. chain (tasks st') (task_hash st' ! i) ps \<and> distinct ps \<and> set ps = bucket (tasks st') i"
    using d(2) h by metis
  moreover have "p = q" if "tasks st' p = Some u" "tasks st' q = Some v" "task_id u = task_id v" for p q u v
    using old [OF that(1)] old [OF that(2)] d(3) that(3) by metis
  moreover have "0 < task_id u \<and> task_id u < next_task_id st'" if "tasks st' p = Some u" for p u
    using old [OF that] d(4) n by metis
  ultimately show ?thesis unfolding tasks_inv_def using d(1) h by metis
qed

lemma kinv_same:
  assumes "kinv st" and "ports_inv st'"
    and "\<And>q. map_option (\<lambda>t. (task_id t, task_next t)) (tasks st' q) = map_option (\<lambda>t. (task_id t, task_next t)) (tasks st q)"
    and "task_hash st' = task_hash st" and "next_task_id st' = next_task_id st"
    and "\<And>q t. tasks st' q = Some t \<Longrightarrow> cspace_wf (task_cspace t) \<and> cspace_clean (task_cspace t)"
  shows "kinv st'"
  unfolding kinv_def using tasks_inv_same [OF kinvD(1) [OF assms(1)] assms(3-5)] assms(2,6) by blast

lemma kinv_cspace:
  assumes "kinv st" and "tasks st a = Some t" and "cspace_wf cs" and "cspace_clean cs"
  shows "kinv (put_task a (t\<lparr>task_cspace := cs\<rparr>) st)"
proof (rule kinv_same [OF assms(1)])
  show "ports_inv (put_task a (t\<lparr>task_cspace := cs\<rparr>) st)" using kinvD(2) [OF assms(1)] by (simp add: put_task_def ports_inv_def)
  show "cspace_wf (task_cspace u) \<and> cspace_clean (task_cspace u)" if "tasks (put_task a (t\<lparr>task_cspace := cs\<rparr>) st) q = Some u" for q u
    using that kinvD(3,4) [OF assms(1), of q u] assms(3,4) by (cases "q = a") (auto simp: put_task_def)
qed (use assms(2) in \<open>auto simp: put_task_def\<close>)

lemma total_caps_two:
  assumes "finite (dom (tasks st))" and "tasks st a = Some s" and "tasks st b = Some r" and "a \<noteq> b"
  shows "total_caps st = cap_mset (task_cspace s) + cap_mset (task_cspace r) +
    (\<Sum>p\<in>dom (tasks st) - {a} - {b}. cap_mset (task_cspace (the (tasks st p))))"
proof -
  have "a \<in> dom (tasks st)" "b \<in> dom (tasks st) - {a}" using assms by auto
  then show ?thesis
    unfolding total_caps_def using assms
    by (simp add: sum.remove [of "dom (tasks st)" a] sum.remove [of "dom (tasks st) - {a}" b] add.assoc)
qed

section \<open>Locks\<close>

lemma spin_lock_free: "l \<notin> held \<Longrightarrow> spin_lock l held = Some (insert l held)"
  by (subst spin_lock.simps) simp

lemma spin_lock_returns: "spin_lock l held = Some held' \<Longrightarrow> l \<notin> held"
  by (rule spin_lock.raw_induct [where P = "\<lambda>l held held'. l \<notin> held"]) (auto split: if_splits)

text \<open>A lock that is already held is waited for forever.\<close>

lemma spin_lock_held: "l \<in> held \<Longrightarrow> spin_lock l held = None"
  using spin_lock_returns [of l held] by (cases "spin_lock l held") auto

lemma lock_spaces_apart: "a \<noteq> b \<Longrightarrow> lock_spaces a b {} = Some {a, b}"
  by (auto simp: lock_spaces_def spin_lock_free)

lemma lock_spaces_same: "lock_spaces a a {} = None"
  by (simp add: lock_spaces_def spin_lock_free spin_lock_held)

lemma task_cspace_move_apart:
  assumes "tasks st a = Some s" and "tasks st b = Some r" and "a \<noteq> b" and "slot_in_range (task_cspace s) slot"
    and "cspace_move (mem (task_cspace r)) (task_cspace s) (task_cspace r) slot = Some (src, dst, k)"
  shows "task_cspace_move mem a b slot st =
    Some (put_task b (r\<lparr>task_cspace := dst\<rparr>) (put_task a (s\<lparr>task_cspace := src\<rparr>) st), k)"
  using assms by (simp add: task_cspace_move_def lock_spaces_apart)

lemma task_cspace_move_same:
  "tasks st a = Some s \<Longrightarrow> slot_in_range (task_cspace s) slot \<Longrightarrow> task_cspace_move mem a a slot st = None"
  by (simp add: task_cspace_move_def lock_spaces_same)

lemma lookup_in_range: "cspace_lookup_snapshot cs slot = Some (Some c) \<Longrightarrow> slot_in_range cs slot"
  by (auto simp: cspace_lookup_snapshot_def split: if_splits)

section \<open>Delivering capabilities\<close>

definition cap_memory_ok :: "cap_memory \<Rightarrow> bool" where
  "cap_memory_ok cmem \<longleftrightarrow> (\<forall>i cs. cspace_mem_ok (cmem i cs) cs \<and> cspace_mem_unused (cmem i cs))"

text \<open>
  A transfer of capabilities from one task to another: nothing else changes, no capability is made or
  lost, and the giving side only gives.
\<close>

definition transfer :: "u64 \<Rightarrow> u64 \<Rightarrow> kstate \<Rightarrow> kstate \<Rightarrow> bool" where
  "transfer sender receiver st st' \<longleftrightarrow> kinv st' \<and> ports st' = ports st \<and> total_caps st' = total_caps st \<and>
     (\<forall>q. q \<noteq> sender \<longrightarrow> q \<noteq> receiver \<longrightarrow> tasks st' q = tasks st q) \<and>
     (\<forall>s. tasks st sender = Some s \<longrightarrow> (\<exists>cs. tasks st' sender = Some (s\<lparr>task_cspace := cs\<rparr>) \<and>
        cap_mset cs \<subseteq># cap_mset (task_cspace s))) \<and>
     (\<forall>r. tasks st receiver = Some r \<longrightarrow> (\<exists>cs. tasks st' receiver = Some (r\<lparr>task_cspace := cs\<rparr>)))"

lemma cspace_same: "\<exists>cs. t = t\<lparr>task_cspace := cs\<rparr> \<and> cap_mset cs \<subseteq># cap_mset (task_cspace t)" "\<exists>cs. t = t\<lparr>task_cspace := cs\<rparr>"
  by (rule exI [of _ "task_cspace t"], simp)+

lemma transfer_refl: "kinv st \<Longrightarrow> transfer a b st st"
  unfolding transfer_def by (auto intro!: cspace_same)

lemma transferD:
  assumes "transfer a b st st'"
  shows "kinv st'" and "ports st' = ports st" and "total_caps st' = total_caps st"
    and "q \<noteq> a \<Longrightarrow> q \<noteq> b \<Longrightarrow> tasks st' q = tasks st q"
    and "tasks st a = Some s \<Longrightarrow> \<exists>cs. tasks st' a = Some (s\<lparr>task_cspace := cs\<rparr>) \<and> cap_mset cs \<subseteq># cap_mset (task_cspace s)"
    and "tasks st b = Some r \<Longrightarrow> \<exists>cs. tasks st' b = Some (r\<lparr>task_cspace := cs\<rparr>)"
  using assms unfolding transfer_def by blast+

lemma transfer_trans:
  assumes 1: "transfer a b st st1" and 2: "transfer a b st1 st2"
  shows "transfer a b st st2"
  unfolding transfer_def
proof (intro conjI allI impI)
  show "kinv st2" by (rule transferD(1) [OF 2])
  show "ports st2 = ports st" using transferD(2) [OF 1] transferD(2) [OF 2] by simp
  show "total_caps st2 = total_caps st" using transferD(3) [OF 1] transferD(3) [OF 2] by simp
  show "tasks st2 q = tasks st q" if "q \<noteq> a" "q \<noteq> b" for q using transferD(4) [OF 1 that] transferD(4) [OF 2 that] by simp
  show "\<exists>cs. tasks st2 a = Some (s\<lparr>task_cspace := cs\<rparr>) \<and> cap_mset cs \<subseteq># cap_mset (task_cspace s)" if s: "tasks st a = Some s" for s
  proof -
    obtain c1 where c1: "tasks st1 a = Some (s\<lparr>task_cspace := c1\<rparr>)" "cap_mset c1 \<subseteq># cap_mset (task_cspace s)"
      using transferD(5) [OF 1 s] by blast
    from transferD(5) [OF 2 this(1)] obtain c2 where "tasks st2 a = Some (s\<lparr>task_cspace := c2\<rparr>)" "cap_mset c2 \<subseteq># cap_mset c1" by auto
    then show ?thesis using subset_mset.order_trans [OF _ c1(2)] by blast
  qed
  show "\<exists>cs. tasks st2 b = Some (r\<lparr>task_cspace := cs\<rparr>)" if r: "tasks st b = Some r" for r
  proof -
    obtain c1 where "tasks st1 b = Some (r\<lparr>task_cspace := c1\<rparr>)" using transferD(6) [OF 1 r] by blast
    from transferD(6) [OF 2 this] show ?thesis by auto
  qed
qed

lemma transfer_move:
  assumes inv: "kinv st" and s: "tasks st a = Some s" and r: "tasks st b = Some r" and ab: "a \<noteq> b"
    and c: "caps (task_cspace s) i = Some c"
    and mem: "cspace_mem_ok mem (task_cspace r)" "cspace_mem_unused mem"
  shows "\<exists>src dst k. cspace_move mem (task_cspace s) (task_cspace r) (int i) = Some (src, dst, k) \<and>
    transfer a b st (put_task b (r\<lparr>task_cspace := dst\<rparr>) (put_task a (s\<lparr>task_cspace := src\<rparr>) st))"
proof -
  note w = kinvD(3,4) [OF inv s] kinvD(3,4) [OF inv r]
  obtain src dst k where mv: "cspace_move mem (task_cspace s) (task_cspace r) (int i) = Some (src, dst, k)"
    "cspace_wf src" "cspace_wf dst" "cspace_clean src" "cspace_clean dst"
    and eff: "k = - 1 \<and> caps src = caps (task_cspace s) \<and> caps dst = caps (task_cspace r) \<or>
     0 < k \<and> caps (task_cspace r) (nat k) = None \<and> caps dst = (caps (task_cspace r))(nat k \<mapsto> c) \<and>
       caps src = (caps (task_cspace s))(i := None)"
    using move_correct [OF w(1,3) mem(1) c] w(2,4) mem(2) by blast
  let ?st1 = "put_task a (s\<lparr>task_cspace := src\<rparr>) st"
  let ?st2 = "put_task b (r\<lparr>task_cspace := dst\<rparr>) ?st1"
  have r1: "tasks ?st1 b = Some r" using r ab by (simp add: put_task_def)
  have inv2: "kinv ?st2" by (intro kinv_cspace [OF kinv_cspace [OF inv s]] mv r1)
  have ms: "cap_mset src + cap_mset dst = cap_mset (task_cspace s) + cap_mset (task_cspace r) \<and> cap_mset src \<subseteq># cap_mset (task_cspace s)"
  proof (rule disjE [OF eff])
    assume "k = - 1 \<and> caps src = caps (task_cspace s) \<and> caps dst = caps (task_cspace r)"
    then show ?thesis by (simp add: cap_mset_def)
  next
    assume *: "0 < k \<and> caps (task_cspace r) (nat k) = None \<and> caps dst = (caps (task_cspace r))(nat k \<mapsto> c) \<and>
       caps src = (caps (task_cspace s))(i := None)"
    then have "cap_mset dst = add_mset c (cap_mset (task_cspace r))" "cap_mset (task_cspace s) = add_mset c (cap_mset src)"
      using cap_mset_insert [OF finite_caps [OF w(3)]] cap_mset_remove [OF finite_caps [OF w(1)] c] by blast+
    then show ?thesis by simp
  qed
  have ts2: "tasks ?st2 = (tasks st)(a \<mapsto> s\<lparr>task_cspace := src\<rparr>, b \<mapsto> r\<lparr>task_cspace := dst\<rparr>)" by (simp add: put_task_def)
  have dom2: "dom (tasks ?st2) = dom (tasks st)" using ts2 s r by auto
  have "total_caps ?st2 = cap_mset src + cap_mset dst + (\<Sum>p\<in>dom (tasks ?st2) - {a} - {b}. cap_mset (task_cspace (the (tasks ?st2 p))))"
    using total_caps_two [OF finite_tasks [OF kinvD(1) [OF inv2]] _ _ ab] ts2 ab by simp
  also have "(\<Sum>p\<in>dom (tasks ?st2) - {a} - {b}. cap_mset (task_cspace (the (tasks ?st2 p)))) =
      (\<Sum>p\<in>dom (tasks st) - {a} - {b}. cap_mset (task_cspace (the (tasks st p))))"
    unfolding dom2 by (rule sum.cong) (simp_all add: ts2)
  finally have "total_caps ?st2 = total_caps st"
    using total_caps_two [OF finite_tasks [OF kinvD(1) [OF inv]] s r ab] ms by simp
  then have "transfer a b st ?st2"
    unfolding transfer_def using inv2 ms ts2 s r ab by (auto simp: put_task_def)
  then show ?thesis using mv(1) by blast
qed

lemma deliver_one_transfer:
  assumes T: "transfer a b st0 st" and s: "tasks st0 a \<noteq> None" and r: "tasks st0 b \<noteq> None" and ab: "a \<noteq> b"
    and i: "i < length (dispose msg)" and mem: "cap_memory_ok cmem"
  shows "\<exists>st' m'. deliver_one cmem b a tid msg i (st, m) = Some (st', m') \<and> transfer a b st0 st'"
proof -
  have inv: "kinv st" using T by (simp add: transfer_def)
  obtain s1 r1 where t1: "tasks st a = Some s1" "tasks st b = Some r1" using T s r unfolding transfer_def by blast
  let ?d = "dispose msg ! i"
  let ?slot = "handle_slot (d_handle ?d)"
  have "0 \<le> ?slot" by (simp add: handle_slot_def)
  have look: "cspace_lookup_snapshot (task_cspace s1) ?slot = Some (caps (task_cspace s1) (nat ?slot))"
    using lookup_snapshot_clean [OF kinvD(3,4) [OF inv t1(1)], of ?slot] \<open>0 \<le> ?slot\<close> by simp
  show ?thesis
  proof (cases "handle_task_id (d_handle ?d) = tid \<and> (\<exists>c. caps (task_cspace s1) (nat ?slot) = Some c \<and> cap_type c = d_type ?d)")
    case False
    then have "deliver_one cmem b a tid msg i (st, m) = Some (st, m)"
      using i t1(1) look by (auto simp: deliver_one_def split: option.splits)
    then show ?thesis using T by blast
  next
    case True
    then obtain c where c: "caps (task_cspace s1) (nat ?slot) = Some c" "cap_type c = d_type ?d" by blast
    obtain src dst k where mv: "cspace_move (cmem i (task_cspace r1)) (task_cspace s1) (task_cspace r1) (int (nat ?slot)) = Some (src, dst, k)"
      "transfer a b st (put_task b (r1\<lparr>task_cspace := dst\<rparr>) (put_task a (s1\<lparr>task_cspace := src\<rparr>) st))"
      using transfer_move [OF inv t1 ab c(1), of "cmem i (task_cspace r1)"] mem by (auto simp: cap_memory_ok_def)
    have "deliver_one cmem b a tid msg i (st, m) =
        Some (put_task b (r1\<lparr>task_cspace := dst\<rparr>) (put_task a (s1\<lparr>task_cspace := src\<rparr>) st), if k \<ge> 0 then m + 1 else m)"
      using task_cspace_move_apart [OF t1 ab, of ?slot "cmem i"] lookup_in_range [of "task_cspace s1" ?slot c]
        i t1 look c True mv(1) \<open>0 \<le> ?slot\<close> by (simp add: deliver_one_def)
    then show ?thesis using transfer_trans [OF T mv(2)] by blast
  qed
qed

text \<open>Whatever the descriptors say, delivery to another task is a transfer from the recorded sender.\<close>

lemma deliver_dispose_transfer:
  assumes inv: "kinv st" and r: "tasks st b = Some r" and tid: "tid \<noteq> task_id r" and msg: "unat (ndispose msg) \<le> length (dispose msg)"
    and mem: "cap_memory_ok cmem"
  shows "\<exists>st' n a. deliver_dispose cmem b msg tid st = Some (st', n) \<and> transfer a b st st' \<and>
    (\<forall>s. tasks st a = Some s \<longrightarrow> task_id s = tid)"
proof (cases "tid = 0")
  case True
  then have "deliver_dispose cmem b msg tid st = Some (st, 0)" by (simp add: deliver_dispose_def)
  moreover have "transfer NULL b st st" by (rule transfer_refl [OF inv])
  moreover have "tasks st NULL = None" using tasks_not_null [OF kinvD(1) [OF inv]] by fastforce
  ultimately show ?thesis by fastforce
next
  case False
  obtain a where a: "task_find tid st = Some a" "a = NULL \<and> (\<forall>p t. tasks st p = Some t \<longrightarrow> task_id t \<noteq> tid) \<or>
      a \<noteq> NULL \<and> (\<exists>t. tasks st a = Some t \<and> task_id t = tid)"
    using task_find_lookup [OF kinvD(1) [OF inv]] by blast
  show ?thesis
  proof (cases "a = NULL")
    case True
    then have "deliver_dispose cmem b msg tid st = Some (st, 0)"
      using a(1) by (simp add: deliver_dispose_def task_find_hold_eq)
    moreover have "tasks st NULL = None" using tasks_not_null [OF kinvD(1) [OF inv]] by fastforce
    ultimately show ?thesis using transfer_refl [OF inv, of NULL b] by fastforce
  next
    case nz: False
    then obtain s where s: "tasks st a = Some s" "task_id s = tid" using a(2) by auto
    then have ab: "a \<noteq> b" using r tid by auto
    have "\<exists>x. foldM (deliver_one cmem b a tid msg) [0..<unat (ndispose msg)] (st, 0) = Some x \<and> transfer a b st (fst x)"
    proof (rule foldM_invariant)
      show "transfer a b st (fst (st, 0))" using transfer_refl [OF inv] by simp
    next
      fix i and x :: "kstate \<times> nat"
      assume "i \<in> set [0..<unat (ndispose msg)]" and T: "transfer a b st (fst x)"
      then have "i < length (dispose msg)" using msg by simp
      from deliver_one_transfer [OF T _ _ ab this mem, of tid "snd x"] s(1) r
      show "\<exists>x'. deliver_one cmem b a tid msg i x = Some x' \<and> transfer a b st (fst x')" by auto
    qed
    then obtain st' n where "foldM (deliver_one cmem b a tid msg) [0..<unat (ndispose msg)] (st, 0) = Some (st', n)" "transfer a b st st'"
      by auto
    moreover from this(1) have "deliver_dispose cmem b msg tid st = Some (st', n)"
      using False nz a(1) by (simp add: deliver_dispose_def task_find_hold_eq)
    ultimately show ?thesis using s by auto
  qed
qed

lemma kinv_ports:
  assumes "kinv st" and "ports_inv (port_update a p st)"
  shows "kinv (port_update a p st)" and "total_caps (port_update a p st) = total_caps st" and "tasks (port_update a p st) = tasks st"
proof -
  show "kinv (port_update a p st)"
    by (rule kinv_same [OF assms(1,2)]) (use kinvD(3,4) [OF assms(1)] in \<open>auto simp: port_update_def\<close>)
qed (simp_all add: total_caps_def port_update_def)

lemma kinv_emit [simp]: "kinv (emit es st) = kinv st" "tasks (emit es st) = tasks st" "sched_events (emit es st) = sched_events st @ es"
  by (simp_all add: kinv_def emit_def ports_inv_def tasks_inv_def)

text \<open>What a receive leaves of a waiting message: its payload is delivered, the rest of the queue stays.\<close>

lemma port_recv_transfer:
  assumes inv: "kinv st" and p: "ports st port = Some p" "magic p = PORT_MAGIC"
    and q: "port_contents p = (pay, tid) # rest" and r: "tasks st cur = Some r" and tid: "tid \<noteq> task_id r"
    and buf: "msg_wf buf" and mem: "cap_memory_ok cmem"
  shows "\<exists>st' msg p'. port_recv cmem thr cur port buf st = Some (st', IPC_OK, msg) \<and> msg_payload msg = pay \<and>
    ports st' = (ports st)(port \<mapsto> p') \<and> port_contents p' = rest \<and> kinv st' \<and> total_caps st' = total_caps st \<and>
    (\<forall>q t. q \<noteq> cur \<longrightarrow> tasks st q = Some t \<longrightarrow> task_id t \<noteq> tid \<longrightarrow> tasks st' q = Some t) \<and>
    (\<forall>q t. q \<noteq> cur \<longrightarrow> tasks st q = Some t \<longrightarrow> (\<exists>cs. tasks st' q = Some (t\<lparr>task_cspace := cs\<rparr>) \<and> cap_mset cs \<subseteq># cap_mset (task_cspace t)))"
proof -
  note pi = ports_invD(4) [OF kinvD(2) [OF inv] p(1)]
  have ne: "queue_count p \<noteq> 0" using q length_port_contents [of p] by auto
  then have cnt: "0 < queue_count p" by (simp add: word_gt_0)
  obtain m t p' where tk: "port_take buf p = Some ((m, t), p')" "port_wf p'" "msg_wf m" "msg_bounded m"
    "port_contents p = (msg_payload m, t) # port_contents p'" "port_rest p' = port_rest p"
    using port_take_correct [OF conjunct1 [OF pi] cnt buf] by blast
  have port: "port \<noteq> NULL" using ports_invD(3) [OF kinvD(2) [OF inv], of port] p(1) by auto
  have cur: "cur \<noteq> NULL" using tasks_not_null [OF kinvD(1) [OF inv] r] .
  let ?st = "port_update port p' st"
  have "ports_inv ?st" using ports_inv_port_update [OF kinvD(2) [OF inv] _ tk(2)] p(1) pi tk(6) by (simp add: port_rest_def)
  note k = kinv_ports [OF inv this]
  have "\<exists>st' a. port_recv cmem thr cur port buf st = Some (st', IPC_OK, m) \<and> transfer a cur ?st st' \<and> (\<forall>s. tasks st a = Some s \<longrightarrow> task_id s = tid)"
  proof (cases "ndispose m = 0")
    case True
    then have "port_recv cmem thr cur port buf st = Some (?st, IPC_OK, m)"
      using port p tk(1) ne by (simp add: port_recv_def Let_def)
    moreover have "tasks st NULL = None" using tasks_not_null [OF kinvD(1) [OF inv]] by fastforce
    ultimately show ?thesis using transfer_refl [OF k(1), of NULL cur] by fastforce
  next
    case False
    have "unat (ndispose m) \<le> length (dispose m)" using tk(3,4) by (simp add: msg_wf_def msg_bounded_def)
    then obtain st' n a where "deliver_dispose cmem cur m t ?st = Some (st', n)" "transfer a cur ?st st'" "\<forall>s. tasks st a = Some s \<longrightarrow> task_id s = t"
      using deliver_dispose_transfer [OF k(1), of cur r t m cmem] r tid mem q tk(5) k(3) by auto
    then show ?thesis
      using False port p tk(1) ne cur q tk(5) by (auto simp: port_recv_def Let_def word_gt_0)
  qed
  then obtain st' a where st': "port_recv cmem thr cur port buf st = Some (st', IPC_OK, m)" "transfer a cur ?st st'"
    "\<And>s. tasks st a = Some s \<Longrightarrow> task_id s = tid" by blast
  have fr: "tasks st' q = Some t" if "q \<noteq> cur" "tasks st q = Some t" "task_id t \<noteq> tid" for q t
    using transferD(4) [OF st'(2), of q] st'(3) [of t] that k(3) by (cases "q = a") auto
  moreover have "\<exists>cs. tasks st' q = Some (t\<lparr>task_cspace := cs\<rparr>) \<and> cap_mset cs \<subseteq># cap_mset (task_cspace t)" if "q \<noteq> cur" "tasks st q = Some t" for q t
    using transferD(4) [OF st'(2), of q] transferD(5) [OF st'(2), of t] that k(3) cspace_same [of t] by (cases "q = a") auto
  ultimately show ?thesis
    using st'(1) transferD(1-3) [OF st'(2)] k(2) q tk(5) by (intro exI [of _ st'] exI [of _ m] exI [of _ p']) auto
qed

section \<open>Sending\<close>

text \<open>The sender holds what descriptor \<open>i\<close> of the message names.\<close>

definition holds_descriptor :: "task \<Rightarrow> ipc_msg \<Rightarrow> nat \<Rightarrow> bool" where
  "holds_descriptor t msg i \<longleftrightarrow> (let d = dispose msg ! i in handle_task_id (d_handle d) = task_id t \<and>
     (\<exists>c. caps (task_cspace t) (nat (handle_slot (d_handle d))) = Some c \<and> cap_type c = d_type d))"

definition may_send :: "task \<Rightarrow> ipc_msg \<Rightarrow> bool" where
  "may_send t msg \<longleftrightarrow> unat (ndispose msg) \<le> IPC_DISPOSE_MAX \<and> (\<forall>i < unat (ndispose msg). holds_descriptor t msg i)"

lemma validate_from_correct:
  assumes "cspace_wf (task_cspace t)" and "cspace_clean (task_cspace t)"
  shows "i + n \<le> length (dispose msg) \<Longrightarrow>
    validate_from t msg i n = Some (if \<forall>j\<in>{i..<i + n}. holds_descriptor t msg j then 0 else - 1)"
proof (induction n arbitrary: i)
  case (Suc n)
  let ?d = "dispose msg ! i"
  have pos: "0 \<le> handle_slot (d_handle ?d)" by (simp add: handle_slot_def)
  have look: "cspace_lookup_snapshot (task_cspace t) (handle_slot (d_handle ?d)) = Some (caps (task_cspace t) (nat (handle_slot (d_handle ?d))))"
    using lookup_snapshot_clean [OF assms, of "handle_slot (d_handle ?d)"] pos by simp
  have nth: "nth_opt (dispose msg) i = Some ?d" using Suc.prems by simp
  have rng: "{i..<i + Suc n} = insert i {Suc i..<Suc i + n}" by auto
  show ?case
  proof (cases "holds_descriptor t msg i")
    case True
    then obtain c where c: "handle_task_id (d_handle ?d) = task_id t" "caps (task_cspace t) (nat (handle_slot (d_handle ?d))) = Some c"
      "cap_type c = d_type ?d" by (auto simp: holds_descriptor_def Let_def)
    have "validate_from t msg i (Suc n) = validate_from t msg (Suc i) n"
      using nth look c caps_Some_in_use [OF assms(1) c(2)] by simp
    then show ?thesis using Suc.IH [of "Suc i"] Suc.prems True unfolding rng by simp
  next
    case False
    then have "validate_from t msg i (Suc n) = Some (- 1)"
      using nth look by (auto simp: holds_descriptor_def Let_def split: option.splits)
    then show ?thesis using False unfolding rng by simp
  qed
qed simp

lemma validate_dispose_correct:
  assumes inv: "kinv st" and t: "tasks st sender = Some t" and msg: "msg_wf msg"
  shows "validate_dispose sender msg st = Some (if may_send t msg then 0 else - 1)"
proof -
  have "sender \<noteq> NULL" by (rule tasks_not_null [OF kinvD(1) [OF inv] t])
  moreover have "validate_from t msg 0 (unat (ndispose msg)) = Some (if \<forall>j\<in>{0..<unat (ndispose msg)}. holds_descriptor t msg j then 0 else - 1)"
    if "unat (ndispose msg) \<le> IPC_DISPOSE_MAX"
    using validate_from_correct [OF kinvD(3,4) [OF inv t], of 0 "unat (ndispose msg)" msg] that msg by (simp add: msg_wf_def)
  ultimately show ?thesis
    using t by (auto simp: validate_dispose_def may_send_def)
qed

lemma port_grow_waiters:
  "port_grow_queue mem p = Some (p', r) \<Longrightarrow> waiters p' = waiters p \<and> waiter_count p' = waiter_count p"
  by (auto simp: port_grow_queue_def Option.bind_eq_Some_conv split: if_splits option.splits)

lemma port_send_effect:
  assumes inv: "kinv st" and p: "ports st port = Some p" "magic p = PORT_MAGIC" and t: "tasks st sender = Some t"
    and msg: "msg_wf msg" and mem: "queue_mem_ok qmem p" and may: "may_send t msg"
  shows "port_send qmem port msg sender st = Some (st, IPC_ERR_FULL) \<and> queue_size p \<le> queue_count p \<or>
    (\<exists>st' p'. port_send qmem port msg sender st = Some (st', IPC_OK) \<and> kinv st' \<and> tasks st' = tasks st \<and>
      ports st' = (ports st)(port \<mapsto> p') \<and> magic p' = PORT_MAGIC \<and> port_contents p' = port_contents p @ [(msg_payload msg, task_id t)] \<and> waiter_count p' = 0 \<and>
      sched_events st' = sched_events st @ map WakeThread (filter (known_threads st) (take (waiter_count p) (waiters p))))"
proof -
  note pi = ports_invD(4) [OF kinvD(2) [OF inv] p(1)]
  have nz: "port \<noteq> NULL" "sender \<noteq> NULL"
    using ports_invD(3) [OF kinvD(2) [OF inv], of port] p(1) tasks_not_null [OF kinvD(1) [OF inv] t] by auto
  have v: "validate_dispose sender msg st = Some 0" using validate_dispose_correct [OF inv t msg] may by simp
  let ?g = "if queue_count p \<ge> queue_size p then port_grow_queue qmem p else Some (p, 0)"
  have "\<exists>p1 r. ?g = Some (p1, r) \<and> port_wf p1 \<and> port_contents p1 = port_contents p \<and> ref_count p1 = ref_count p \<and> magic p1 = magic p \<and>
    waiters p1 = waiters p \<and> waiter_count p1 = waiter_count p \<and> (r < 0 \<and> queue_size p \<le> queue_count p \<or> r = 0 \<and> queue_count p1 < queue_size p1)"
  proof (cases "queue_count p \<ge> queue_size p")
    case True
    obtain p1 r where g: "port_grow_queue qmem p = Some (p1, r)" "port_wf p1" "port_contents p1 = port_contents p"
      "r = - 1 \<and> p1 = p \<or> r = 0 \<and> unat (queue_size p1) = 2 * unat (queue_size p)" "ref_count p1 = ref_count p" "magic p1 = magic p"
      using port_grow_correct [OF conjunct1 [OF pi] mem] by blast
    have "unat (queue_count p1) = unat (queue_count p)" using g(3) length_port_contents by metis
    moreover have "unat (queue_count p) \<le> unat (queue_size p)" "0 < unat (queue_size p)" using port_wfD [OF conjunct1 [OF pi]] by auto
    ultimately have "r = 0 \<longrightarrow> queue_count p1 < queue_size p1" using g(4) by (auto simp: word_less_nat_alt)
    then show ?thesis using True g port_grow_waiters [OF g(1)] by auto
  next
    case False
    then show ?thesis using pi by auto
  qed
  then obtain p1 r where g: "?g = Some (p1, r)" "port_wf p1" "port_contents p1 = port_contents p" "ref_count p1 = ref_count p" "magic p1 = magic p"
    "waiters p1 = waiters p" "waiter_count p1 = waiter_count p" "r < 0 \<and> queue_size p \<le> queue_count p \<or> r = 0 \<and> queue_count p1 < queue_size p1" by blast
  show ?thesis
  proof (cases "r < 0")
    case True
    then show ?thesis using g(1,8) nz p v by (simp add: port_send_def)
  next
    case False
    then obtain p2 where p2: "port_put msg (task_id t) p1 = Some p2" "port_wf p2" "port_contents p2 = port_contents p1 @ [(msg_payload msg, task_id t)]"
      "port_rest p2 = port_rest p1" using port_put_correct [OF g(2) _ msg] g(8) by blast
    let ?p = "fst (port_wake_all_locked (known_threads st) p2)"
    let ?st = "port_update port ?p st"
    have w: "port_wf ?p" "port_contents ?p = port_contents p2" by (rule port_wake_all_wf [OF p2(2)])+
    have f: "waiter_count ?p = 0" "ref_count ?p = ref_count p" "magic ?p = PORT_MAGIC"
      "snd (port_wake_all_locked (known_threads st) p2) = map WakeThread (filter (known_threads st) (take (waiter_count p) (waiters p)))"
      using p2(4) g(4-7) p(2) by (simp_all add: port_wake_all_locked_def port_rest_def)
    have "ports_inv ?st" using ports_inv_port_update [OF kinvD(2) [OF inv] _ w(1)] p(1) f(2) pi by simp
    note k = kinv_ports [OF inv this]
    have "port_send qmem port msg sender st = Some (emit (snd (port_wake_all_locked (known_threads st) p2)) ?st, IPC_OK)"
      using False g(1) nz p t v p2(1) by (simp add: port_send_def case_prod_beta)
    then show ?thesis using k f w p2(3) g(3)
      by (intro disjI2 exI [of _ "emit (snd (port_wake_all_locked (known_threads st) p2)) ?st"] exI [of _ ?p]) simp
  qed
qed

lemma port_send_rejected:
  assumes "kinv st" and "ports st port = Some p" "magic p = PORT_MAGIC" and "tasks st sender = Some t" and "msg_wf msg" and "\<not> may_send t msg"
  shows "port_send qmem port msg sender st = Some (st, IPC_ERR_INVAL)"
  using assms validate_dispose_correct [OF assms(1,4,5)] ports_invD(3) [OF kinvD(2) [OF assms(1)], of port]
  by (auto simp: port_send_def)

section \<open>An example state\<close>

text \<open>
  Task 1 holds a memory capability in slot 1, task 2 holds nothing; the port at 0x1000 is empty.  The
  message gives the capability away.
\<close>

definition boot_cspace :: cspace where
  "boot_cspace = fst (cspace_init boot_cmem null_cspace)"

definition holder_cspace :: cspace where
  "holder_cspace = fst (the (cspace_alloc_slot no_mem CAP_MEMORY CAP_READ 0x9000 boot_cspace))"

definition plain_task :: "u32 \<Rightarrow> cspace \<Rightarrow> task" where
  "plain_task tid cs = \<lparr>task_id = tid, task_name = ''t'', task_cspace = cs, task_map = NULL, main_thread = NULL, task_next = NULL\<rparr>"

definition ipc_example :: kstate where
  "ipc_example = empty_kstate\<lparr>port_table := 0x1000 # replicate 511 NULL, ports := [0x1000 \<mapsto> example_port],
     tasks := [0x5000 \<mapsto> plain_task 1 holder_cspace, 0x6000 \<mapsto> plain_task 2 boot_cspace],
     task_hash := (replicate TASK_HASH_SIZE NULL)[1 := 0x5000, 2 := 0x6000], next_task_id := 3\<rparr>"

definition gift :: ipc_msg where
  "gift = \<lparr>msg_id = 7, data_size = 2, data = [1, 2] @ replicate 62 0, ndispose = 1,
     dispose = \<lparr>d_type = CAP_MEMORY, d_rights = 0, d_handle = task_make_handle 1 1\<rparr> # replicate 3 \<lparr>d_type = 0, d_rights = 0, d_handle = 0\<rparr>\<rparr>"

lemma gift_wf: "msg_wf gift"
  by (simp add: gift_def msg_wf_def)

lemma boot_cspace_ok: "cspace_wf boot_cspace \<and> cspace_clean boot_cspace \<and> caps boot_cspace = Map.empty"
  by (rule cspace_init_wf [of boot_cmem null_cspace _ 0]) (simp_all add: boot_cspace_def cspace_init_def boot_cmem_def Let_def)

lemma holder_cspace_ok:
  "cspace_wf holder_cspace" "cspace_clean holder_cspace"
  "caps holder_cspace = [1 \<mapsto> \<lparr>object_id = 0x9000, cap_type = CAP_MEMORY, rights = CAP_READ, in_use = 1\<rparr>]"
proof -
  obtain cs' r where r: "cspace_alloc_slot no_mem CAP_MEMORY CAP_READ 0x9000 boot_cspace = Some (cs', r)" "cspace_wf cs'"
    "cspace_clean boot_cspace \<and> cspace_mem_unused no_mem \<longrightarrow> cspace_clean cs'"
    "r = - 1 \<and> caps cs' = caps boot_cspace \<or>
     0 < r \<and> caps boot_cspace (nat r) = None \<and>
       caps cs' = (caps boot_cspace)(nat r \<mapsto> \<lparr>object_id = 0x9000, cap_type = CAP_MEMORY, rights = CAP_READ, in_use = 1\<rparr>)"
    using alloc_slot_correct [of boot_cspace no_mem CAP_MEMORY CAP_READ "0x9000"] boot_cspace_ok by auto
  moreover have "map_option snd (cspace_alloc_slot no_mem CAP_MEMORY CAP_READ 0x9000 boot_cspace) = Some 1" by code_simp
  ultimately have "r = 1" by simp
  then show "cspace_wf holder_cspace" "cspace_clean holder_cspace"
    "caps holder_cspace = [1 \<mapsto> \<lparr>object_id = 0x9000, cap_type = CAP_MEMORY, rights = CAP_READ, in_use = 1\<rparr>]"
    using r boot_cspace_ok by (auto simp: holder_cspace_def)
qed

lemma ipc_example_inv: "kinv ipc_example"
proof -
  have h: "task_hash_id 1 = 1" "task_hash_id 2 = 2" by (simp_all add: task_hash_id_def)
  have ts: "tasks ipc_example = [0x5000 \<mapsto> plain_task 1 holder_cspace, 0x6000 \<mapsto> plain_task 2 boot_cspace]"
    and hs: "task_hash ipc_example = (replicate TASK_HASH_SIZE NULL)[1 := 0x5000, 2 := 0x6000]"
    by (simp_all add: ipc_example_def)
  have "\<exists>ps. chain (tasks ipc_example) (task_hash ipc_example ! i) ps \<and> distinct ps \<and> set ps = bucket (tasks ipc_example) i"
    if "i < TASK_HASH_SIZE" for i
    by (rule exI [of _ "if i = 1 then [0x5000] else if i = 2 then [0x6000] else []"])
      (use that h in \<open>auto simp: ts hs bucket_def plain_task_def nth_list_update split: if_splits\<close>)
  then have "tasks_inv ipc_example"
    unfolding tasks_inv_def by (auto simp: ts hs plain_task_def ipc_example_def split: if_splits)
  moreover have "ports_inv ipc_example"
    using example_pstate_inv ports_inv_cong [of ipc_example example_pstate] by (simp add: ipc_example_def example_pstate_def)
  ultimately show ?thesis
    using boot_cspace_ok holder_cspace_ok by (auto simp: kinv_def ts plain_task_def split: if_splits)
qed

lemma gift_may_send: "may_send (plain_task 1 holder_cspace) gift"
  using holder_cspace_ok(3) handle_task_id_make [of 1 1] handle_slot_make [of 1 1]
  by (simp add: may_send_def holds_descriptor_def gift_def plain_task_def)

text \<open>The same with a send capability for the port in slot 1 of task 1, and memory for a reply port.\<close>

definition caller_cspace :: cspace where
  "caller_cspace = fst (the (cspace_alloc_slot no_mem CAP_PORT CAP_SEND 0x1000 boot_cspace))"

lemma caller_cspace_caps:
  "caps caller_cspace = [1 \<mapsto> \<lparr>object_id = 0x1000, cap_type = CAP_PORT, rights = CAP_SEND, in_use = 1\<rparr>]"
proof -
  obtain cs' r where r: "cspace_alloc_slot no_mem CAP_PORT CAP_SEND 0x1000 boot_cspace = Some (cs', r)"
    "r = - 1 \<and> caps cs' = caps boot_cspace \<or> 0 < r \<and> caps boot_cspace (nat r) = None \<and>
       caps cs' = (caps boot_cspace)(nat r \<mapsto> \<lparr>object_id = 0x1000, cap_type = CAP_PORT, rights = CAP_SEND, in_use = 1\<rparr>)"
    using alloc_slot_correct [of boot_cspace no_mem CAP_PORT CAP_SEND "0x1000"] boot_cspace_ok by auto
  moreover have "map_option snd (cspace_alloc_slot no_mem CAP_PORT CAP_SEND 0x1000 boot_cspace) = Some 1" by code_simp
  ultimately have "r = 1" by simp
  then show ?thesis using r boot_cspace_ok by (auto simp: caller_cspace_def)
qed

definition caller_example :: kstate where
  "caller_example = ipc_example\<lparr>tasks := [0x5000 \<mapsto> plain_task 1 caller_cspace, 0x6000 \<mapsto> plain_task 2 boot_cspace]\<rparr>"

definition reply_mem :: port_mem where
  "reply_mem = \<lparr>pm_ptr = 0x2000, pm_queue = Some (replicate 16 blank_msg), pm_senders = Some (replicate 16 0), pm_waiters = replicate 8 0\<rparr>"

lemma caller_example_inv: "kinv caller_example"
proof (rule kinv_same [OF ipc_example_inv])
  obtain cs' r where "cspace_alloc_slot no_mem CAP_PORT CAP_SEND 0x1000 boot_cspace = Some (cs', r)" "cspace_wf cs'"
    "cspace_clean boot_cspace \<and> cspace_mem_unused no_mem \<longrightarrow> cspace_clean cs'"
    using alloc_slot_correct [of boot_cspace no_mem CAP_PORT CAP_SEND "0x1000"] boot_cspace_ok by auto
  then have "cspace_wf caller_cspace" "cspace_clean caller_cspace" using boot_cspace_ok by (simp_all add: caller_cspace_def)
  then show "cspace_wf (task_cspace t) \<and> cspace_clean (task_cspace t)" if "tasks caller_example q = Some t" for q t
    using that boot_cspace_ok by (auto simp: caller_example_def plain_task_def split: if_splits)
  show "ports_inv caller_example" using kinvD(2) [OF ipc_example_inv] ports_inv_cong [of caller_example ipc_example] by (simp add: caller_example_def)
qed (simp_all add: caller_example_def ipc_example_def plain_task_def)

definition no_queue_mem :: queue_mem where
  "no_queue_mem = \<lparr>qm_queue = None, qm_senders = None\<rparr>"

definition gift_sent :: kstate where
  "gift_sent = fst (the (port_send no_queue_mem 0x1000 gift 0x5000 ipc_example))"

lemma gift_sent_facts:
  "\<exists>p. kinv gift_sent \<and> tasks gift_sent = tasks ipc_example \<and> ports gift_sent = [0x1000 \<mapsto> p] \<and> magic p = PORT_MAGIC \<and>
    port_contents p = [(msg_payload gift, 1)]"
proof -
  have e: "ports ipc_example = [0x1000 \<mapsto> example_port]" "magic example_port = PORT_MAGIC"
    "tasks ipc_example 0x5000 = Some (plain_task 1 holder_cspace)" "port_contents example_port = []"
    "\<not> queue_size example_port \<le> queue_count example_port" "task_id (plain_task 1 holder_cspace) = 1"
    by (simp_all add: ipc_example_def example_port_def port_contents_def port_ring_def plain_task_def)
  have "queue_mem_ok no_queue_mem example_port" by (simp add: queue_mem_ok_def no_queue_mem_def)
  then show ?thesis
    using port_send_effect [OF ipc_example_inv, of "0x1000" example_port "0x5000" _ gift no_queue_mem] e gift_wf gift_may_send
    by (auto simp: gift_sent_def)
qed

lemma no_cap_memory: "cap_memory_ok (\<lambda>_ _. no_mem)"
  by (simp add: cap_memory_ok_def)

section \<open>Operations that touch ports only\<close>

lemma cspace_max_small: "cspace_wf cs \<Longrightarrow> max_slots cs \<le> 65536"
  by (erule cspace_wfE) linarith

lemma tasks_port_release: "port_release a st = Some st' \<Longrightarrow> tasks st' = tasks st"
  by (auto simp: port_release_def port_drop_ref_def Option.bind_eq_Some_conv split: if_splits option.splits)

lemma tasks_port_ref_raw: "port_ref_raw a st = Some (st', r) \<Longrightarrow> tasks st' = tasks st"
  by (auto simp: port_ref_raw_def Option.bind_eq_Some_conv split: if_splits option.splits)

lemma tasks_caller_port: "caller_port cur h need st = Some (st', port) \<Longrightarrow> tasks st' = tasks st"
  by (auto simp: caller_port_def port_from_cslot_def Option.bind_eq_Some_conv split: if_splits option.splits
      dest!: tasks_port_ref_raw)

lemma tasks_port_send: "port_send qmem port msg sender st = Some (st', r) \<Longrightarrow> tasks st' = tasks st"
  by (auto simp: port_send_def port_update_def case_prod_beta Option.bind_eq_Some_conv split: if_splits)

lemma tasks_send_handle: "sys_port_send_handle qmem cur handle msg st = Some (st', r) \<Longrightarrow> tasks st' = tasks st"
  by (auto simp: sys_port_send_handle_def Option.bind_eq_Some_conv case_prod_beta split: if_splits
      dest!: tasks_port_send tasks_port_release tasks_caller_port)

lemma tasks_port_create: "port_create pmem st = (st', r) \<Longrightarrow> tasks st' = tasks st"
  by (auto simp: port_create_def split: if_splits option.splits)

section \<open>Properties\<close>

text \<open>
  C1. Receiving a message from another task conserves capabilities: the receiver gets the payload of the
  oldest message, the other messages stay queued, and whatever the descriptors of the message say, the
  capabilities of all tasks together are the same as before; only the task recorded as the sender can lose
  any, and every task other than these two is untouched.  Two conditions are needed: the recorded sender is not the
  receiver (a message to oneself can hang the receive), and memory for a
  space that grows comes with unused slots, because the code leaves the new slots as the allocator hands
  them out (see \<open>cspace_grow_exposes_stale_slots\<close>).
\<close>
theorem port_recv_conserves_caps:
  assumes "kinv st" and "ports st port = Some p" "magic p = PORT_MAGIC"
    and "port_contents p = (pay, tid) # rest" and "tasks st cur = Some r" and "tid \<noteq> task_id r"
    and "msg_wf buf" and "cap_memory_ok cmem"
  shows "\<exists>st' msg p'. port_recv cmem thr cur port buf st = Some (st', IPC_OK, msg) \<and> msg_payload msg = pay \<and>
    ports st' = (ports st)(port \<mapsto> p') \<and> port_contents p' = rest \<and> kinv st' \<and> total_caps st' = total_caps st \<and>
    (\<forall>q t. q \<noteq> cur \<longrightarrow> tasks st q = Some t \<longrightarrow> task_id t \<noteq> tid \<longrightarrow> tasks st' q = Some t) \<and>
    (\<forall>q t. q \<noteq> cur \<longrightarrow> tasks st q = Some t \<longrightarrow> (\<exists>cs. tasks st' q = Some (t\<lparr>task_cspace := cs\<rparr>) \<and> cap_mset cs \<subseteq># cap_mset (task_cspace t)))"
  by (rule port_recv_transfer [OF assms])

theorem port_recv_conserves_caps_witness:
  "\<exists>st' msg. port_recv (\<lambda>_ _. no_mem) (Some 4) 0x6000 0x1000 blank_msg gift_sent = Some (st', IPC_OK, msg) \<and>
    msg_payload msg = msg_payload gift \<and> total_caps st' = total_caps gift_sent"
proof -
  obtain p where p: "kinv gift_sent" "tasks gift_sent = tasks ipc_example" "ports gift_sent = [0x1000 \<mapsto> p]" "magic p = PORT_MAGIC"
    "port_contents p = [(msg_payload gift, 1)]" using gift_sent_facts by blast
  have "tasks gift_sent 0x6000 = Some (plain_task 2 boot_cspace)" "(1 :: u32) \<noteq> task_id (plain_task 2 boot_cspace)"
    using p(2) by (simp_all add: ipc_example_def plain_task_def)
  from port_recv_conserves_caps [OF p(1) _ p(4) p(5) this blank_msg_wf no_cap_memory, of "0x1000" "Some 4"] p(3)
  show ?thesis by auto
qed

text \<open>
  C2. Sending: a message is accepted only if every capability descriptor names a capability the sending
  task itself holds with the stated type (at most four of them); otherwise the call reports an invalid
  argument and changes nothing.  An accepted message is appended to the port's queue with the true
  sender, every waiting receiver leaves the waiter list and is woken if its thread still exists, and no task
  changes; the only other outcome is a full queue, with nothing changed.
\<close>
theorem port_send_correct:
  assumes "kinv st" and "ports st port = Some p" "magic p = PORT_MAGIC" and "tasks st sender = Some t"
    and "msg_wf msg" and "queue_mem_ok qmem p"
  shows "if may_send t msg
    then port_send qmem port msg sender st = Some (st, IPC_ERR_FULL) \<and> queue_size p \<le> queue_count p \<or>
      (\<exists>st' p'. port_send qmem port msg sender st = Some (st', IPC_OK) \<and> kinv st' \<and> tasks st' = tasks st \<and>
        ports st' = (ports st)(port \<mapsto> p') \<and> port_contents p' = port_contents p @ [(msg_payload msg, task_id t)] \<and> waiter_count p' = 0 \<and>
        sched_events st' = sched_events st @ map WakeThread (filter (known_threads st) (take (waiter_count p) (waiters p))))
    else port_send qmem port msg sender st = Some (st, IPC_ERR_INVAL)"
proof (cases "may_send t msg")
  case True
  from port_send_effect [OF assms True] show ?thesis using True by auto
next
  case False
  then show ?thesis using port_send_rejected [OF assms(1-5)] by simp
qed

theorem port_send_correct_witness:
  "port_send no_queue_mem 0x1000 gift 0x6000 ipc_example = Some (ipc_example, IPC_ERR_INVAL)"
proof -
  have e: "ports ipc_example 0x1000 = Some example_port" "magic example_port = PORT_MAGIC"
    "tasks ipc_example 0x6000 = Some (plain_task 2 boot_cspace)" "queue_mem_ok no_queue_mem example_port"
    by (simp_all add: ipc_example_def example_port_def queue_mem_ok_def no_queue_mem_def)
  have "\<not> may_send (plain_task 2 boot_cspace) gift"
    using boot_cspace_ok by (simp add: may_send_def holds_descriptor_def gift_def Let_def plain_task_def)
  then show ?thesis using port_send_correct [OF ipc_example_inv e(1-3) gift_wf e(4)] by simp
qed

text \<open>
  C9. A task that receives a message it sent to itself never returns from the receive when the first
  descriptor names a capability it still holds: moving the capability takes the lock of the task's
  capability space twice, and the second attempt spins on the lock the call itself holds.
\<close>
theorem port_recv_own_capability_hangs:
  assumes inv: "kinv st" and p: "ports st port = Some p" "magic p = PORT_MAGIC"
    and q: "port_contents p = ((mid, dat, d # ds), tid) # rest" and r: "tasks st cur = Some r" and tid: "tid = task_id r"
    and d: "handle_task_id (d_handle d) = tid" "caps (task_cspace r) (nat (handle_slot (d_handle d))) = Some c" "cap_type c = d_type d"
    and buf: "msg_wf buf"
  shows "port_recv cmem thr cur port buf st = None"
proof -
  note pi = ports_invD(4) [OF kinvD(2) [OF inv] p(1)]
  have ne: "queue_count p \<noteq> 0" using q length_port_contents [of p] by auto
  then obtain m t p' where tk: "port_take buf p = Some ((m, t), p')" "msg_wf m" "msg_bounded m"
    "port_contents p = (msg_payload m, t) # port_contents p'" "port_wf p'" "port_rest p' = port_rest p"
    using port_take_correct [OF conjunct1 [OF pi] _ buf] by (auto simp: word_gt_0)
  have port: "port \<noteq> NULL" using ports_invD(3) [OF kinvD(2) [OF inv], of port] p(1) by auto
  have cur: "cur \<noteq> NULL" using tasks_not_null [OF kinvD(1) [OF inv] r] .
  have m: "take (unat (ndispose m)) (dispose m) = d # ds" "t = tid" using q tk(4) by (auto simp: msg_payload_def)
  then have nd: "0 < unat (ndispose m)" and d0: "nth_opt (dispose m) 0 = Some d"
    by (cases "dispose m"; cases "unat (ndispose m)"; simp)+
  have tz: "tid \<noteq> 0" using tasks_invD(4) [OF kinvD(1) [OF inv] r] tid by auto
  let ?st = "port_update port p' st"
  have "ports_inv ?st" using ports_inv_port_update [OF kinvD(2) [OF inv] _ tk(5)] p(1) pi tk(6) by (simp add: port_rest_def)
  note k = kinv_ports [OF inv this]
  have f: "task_find_hold tid ?st = Some cur"
    using task_find_hit [OF kinvD(1) [OF k(1)], of cur r tid] k(3) r tid by (simp add: task_find_hold_eq)
  have c: "cspace_lookup_snapshot (task_cspace r) (handle_slot (d_handle d)) = Some (Some c)"
    using lookup_snapshot_clean [OF kinvD(3,4) [OF inv r], of "handle_slot (d_handle d)"] d(2) by (simp add: handle_slot_def)
  then have "task_cspace_move (cmem 0) cur cur (handle_slot (d_handle d)) ?st = None"
    using task_cspace_move_same [of ?st cur r] lookup_in_range [OF c] r by (simp add: port_update_def)
  then have "deliver_one cmem cur cur tid m 0 (?st, 0) = None"
    using c d0 d(1,3) r by (simp add: deliver_one_def port_update_def)
  moreover have "[0..<unat (ndispose m)] = 0 # [1..<unat (ndispose m)]" using nd by (simp add: upt_rec)
  ultimately have "deliver_dispose cmem cur m tid ?st = None"
    using tz f cur by (simp add: deliver_dispose_def)
  moreover have "ndispose m \<noteq> 0" using nd by auto
  ultimately show ?thesis
    using port p ne tk(1) cur m(2) by (simp add: port_recv_def Let_def word_gt_0)
qed

theorem port_recv_own_capability_hangs_witness:
  "port_recv (\<lambda>_ _. no_mem) (Some 4) 0x5000 0x1000 blank_msg gift_sent = None"
proof -
  obtain p where p: "kinv gift_sent" "tasks gift_sent = tasks ipc_example" "ports gift_sent = [0x1000 \<mapsto> p]" "magic p = PORT_MAGIC"
    "port_contents p = [(msg_payload gift, 1)]" using gift_sent_facts by blast
  let ?d = "\<lparr>d_type = CAP_MEMORY, d_rights = 0, d_handle = task_make_handle 1 1\<rparr>"
  have "msg_payload gift = (7, [1, 2], [?d])" by (simp add: msg_payload_def gift_def)
  then have c: "port_contents p = [((7, [1, 2], [?d]), 1)]" using p(5) by simp
  have t: "tasks gift_sent 0x5000 = Some (plain_task 1 holder_cspace)" using p(2) by (simp add: ipc_example_def)
  show ?thesis
    by (rule port_recv_own_capability_hangs [OF p(1) _ p(4) c t,
        where c = "\<lparr>object_id = 0x9000, cap_type = CAP_MEMORY, rights = CAP_READ, in_use = 1\<rparr>"])
      (use p(3) holder_cspace_ok(3) handle_task_id_make [of 1 1] handle_slot_make [of 1 1] in \<open>simp_all add: plain_task_def\<close>)
qed

text \<open>
  C10. A call cannot be answered through the caller's handle: the capability of the reply port that
  \<^verbatim>\<open>sys_port_call\<close> stores in the caller's space lacks the send right, so a reply made by the calling task
  through its handle is refused and changes nothing.
\<close>
theorem sys_port_call_reply_refused:
  assumes inv: "kinv st" and t: "tasks st cur = Some t" and mem: "cspace_mem_ok cmem (task_cspace t)" "cspace_mem_unused cmem"
    and run: "sys_port_call_start pmem cmem qmem cur handle user_msg st = Some (st', Inr pc)"
  shows "sys_port_reply qmem' cur (task_make_handle (task_id t) (reply_slot pc)) reply st' = Some (st', IPC_ERR_NOSLOT)"
proof -
  note w = kinvD(3,4) [OF inv t]
  have cur: "cur \<noteq> NULL" using tasks_not_null [OF kinvD(1) [OF inv] t] .
  obtain kmsg where um: "user_msg = Some kmsg" using run cur by (auto simp: sys_port_call_start_def split: option.splits)
  obtain st1 rp where pc1: "port_create pmem st = (st1, rp)" by force
  have t1: "tasks st1 cur = Some t" using tasks_port_create [OF pc1] t by simp
  obtain cs slot where al: "cspace_alloc_slot cmem CAP_PORT (CAP_RECV OR CAP_REPLY) rp (task_cspace t) = Some (cs, slot)" "cspace_wf cs" "cspace_clean cs"
    and eff: "slot = - 1 \<and> caps cs = caps (task_cspace t) \<or> 0 < slot \<and> caps (task_cspace t) (nat slot) = None \<and>
       caps cs = (caps (task_cspace t))(nat slot \<mapsto> \<lparr>object_id = rp, cap_type = CAP_PORT, rights = CAP_RECV OR CAP_REPLY, in_use = 1\<rparr>)"
    using alloc_slot_correct [OF w(1) mem(1)] w(2) mem(2) by blast
  let ?st2 = "put_task cur (t\<lparr>task_cspace := cs\<rparr>) st1"
  obtain st3 ret where sd: "sys_port_send_handle qmem cur handle kmsg ?st2 = Some (st3, ret)" "\<not> slot < 0" "st' = st3" "reply_slot pc = slot"
    using run cur um pc1 t1 al(1)
    by (auto simp: sys_port_call_start_def Let_def Option.bind_eq_Some_conv split: if_splits)
  let ?c = "\<lparr>object_id = rp, cap_type = CAP_PORT, rights = CAP_RECV OR CAP_REPLY, in_use = 1\<rparr>"
  have c: "caps cs (nat slot) = Some ?c" "0 < slot" using eff sd(2) by auto
  have "slot < 2 ^ 31" using caps_range [OF al(2) c(1)] cspace_max_small [OF al(2)] c(2) by simp
  then have hs: "handle_slot (task_make_handle (task_id t) slot) = slot" using c(2) by (intro handle_slot_make) simp_all
  have t3: "tasks st' cur = Some (t\<lparr>task_cspace := cs\<rparr>)" using tasks_send_handle [OF sd(1)] sd(3) by (simp add: put_task_def)
  have "cspace_lookup_snapshot cs slot = Some (Some ?c)" using lookup_snapshot_clean [OF al(2,3), of slot] c by simp
  moreover have "(CAP_RECV OR CAP_REPLY) AND CAP_SEND = (0 :: u32)" by simp
  ultimately have "caller_port cur (task_make_handle (task_id t) slot) CAP_SEND st' = Some (st', NULL)"
    using cur t3 hs by (simp add: caller_port_def port_from_cslot_def)
  then show ?thesis using sd(4) by (simp add: sys_port_reply_def sys_port_send_def)
qed

theorem sys_port_call_reply_refused_witness:
  "\<exists>st' pc. sys_port_call_start reply_mem no_mem no_queue_mem 0x5000 (task_make_handle 1 1) (Some blank_msg) caller_example = Some (st', Inr pc) \<and>
    sys_port_reply no_queue_mem 0x5000 (task_make_handle 1 (reply_slot pc)) (Some blank_msg) st' = Some (st', IPC_ERR_NOSLOT)"
proof -
  let ?r = "sys_port_call_start reply_mem no_mem no_queue_mem 0x5000 (task_make_handle 1 1) (Some blank_msg) caller_example"
  have "(case ?r of Some (_, Inr _) \<Rightarrow> True | _ \<Rightarrow> False)" by code_simp
  then obtain st' b where b: "?r = Some (st', b)" "case b of Inl _ \<Rightarrow> False | Inr _ \<Rightarrow> True" by (auto split: option.splits)
  then obtain pc where run: "?r = Some (st', Inr pc)" by (cases b) auto
  have "tasks caller_example 0x5000 = Some (plain_task 1 caller_cspace)" by (simp add: caller_example_def)
  from sys_port_call_reply_refused [OF caller_example_inv this _ _ run] run show ?thesis by (auto simp: plain_task_def)
qed

end
