(* ===== verification/VmSyscall.thy ===== *)
theory VmSyscall
  imports Ipc
begin

unbundle bit_operations_syntax

text \<open>
  The memory system calls of \<^verbatim>\<open>mk/vm/vm_syscall.c\<close>: creating memory objects behind capabilities of the
  calling task, and mapping, unmapping and protecting ranges of its address space.

  Arguments: the address \<^verbatim>\<open>kmalloc\<close> returns for a new object, memory for a larger capability space or
  entry array, and the calling task \<open>cur\<close>.
\<close>

section \<open>The model\<close>

abbreviation VM_PROT_ALL :: u32 where "VM_PROT_ALL \<equiv> 7"
abbreviation VM_INHERIT_SHARE :: u32 where "VM_INHERIT_SHARE \<equiv> 0"

text \<open>Rounding a size up to whole pages; \<open>None\<close> where the calls refuse it.\<close>

definition page_round :: "u64 \<Rightarrow> u64 option" where
  "page_round sz =
     (if sz = 0 then None
      else if sz > NOT 0 - 4095 then None
      else let sz = (sz + 4095) AND NOT 4095 in if sz = 0 then None else Some sz)"

text \<open>The end of both creating calls: a capability for the new object, or the object is given up.\<close>

definition grant_object :: "cspace_mem \<Rightarrow> u64 \<Rightarrow> u64 \<Rightarrow> kstate \<Rightarrow> (kstate \<times> int) option" where
  "grant_object cmem cur obj st = do {
     t \<leftarrow> tasks st cur;
     (cs, slot) \<leftarrow> cspace_alloc_slot cmem CAP_MEMORY (CAP_READ OR CAP_WRITE) obj (task_cspace t);
     let st = put_task cur (t\<lparr>task_cspace := cs\<rparr>) st;
     if slot < 0 then do { vm \<leftarrow> vm_object_release obj (kvm st); Some (st\<lparr>kvm := vm\<rparr>, - 1) }
     else Some (st, handle_to_int (task_make_handle (task_id t) slot))
   }"

definition sys_vm_create_shared :: "u64 \<Rightarrow> cspace_mem \<Rightarrow> u64 \<Rightarrow> u64 \<Rightarrow> kstate \<Rightarrow> (kstate \<times> int) option" where
  "sys_vm_create_shared ptr cmem cur sz st =
     (if cur = NULL then Some (st, - 1)
      else case page_round sz of
        None \<Rightarrow> Some (st, - 1)
      | Some sz \<Rightarrow>
          let (vm, obj) = vm_object_create_shared ptr sz (kvm st)
          in if obj = NULL then Some (st\<lparr>kvm := vm\<rparr>, - 1) else grant_object cmem cur obj (st\<lparr>kvm := vm\<rparr>))"

definition sys_vm_create_phys :: "u64 \<Rightarrow> cspace_mem \<Rightarrow> u64 \<Rightarrow> u64 \<Rightarrow> u64 \<Rightarrow> kstate \<Rightarrow> (kstate \<times> int) option" where
  "sys_vm_create_phys ptr cmem cur phys_base sz st =
     (if cur = NULL then Some (st, - 1)
      else do {
        t \<leftarrow> tasks st cur;
        if task_id t \<noteq> 1 then Some (st, - 1)
        else case page_round sz of
          None \<Rightarrow> Some (st, - 1)
        | Some sz \<Rightarrow>
            let (vm, obj) = vm_object_create_phys ptr phys_base sz (kvm st)
            in if obj = NULL then Some (st\<lparr>kvm := vm\<rparr>, - 1) else grant_object cmem cur obj (st\<lparr>kvm := vm\<rparr>)
      })"

definition handle_to_vm_object :: "u64 \<Rightarrow> u64 \<Rightarrow> kstate \<Rightarrow> u64 option" where
  "handle_to_vm_object cur handle st =
     (if cur = NULL then Some NULL
      else do {
        t \<leftarrow> tasks st cur;
        if handle_task_id handle \<noteq> task_id t then Some NULL
        else do {
          found \<leftarrow> cspace_lookup (task_cspace t) (handle_slot handle);
          case found of
            None \<Rightarrow> Some NULL
          | Some i \<Rightarrow> do {
              c \<leftarrow> nth_opt (array_of (slots (task_cspace t))) i;
              Some (if cap_type c \<noteq> CAP_MEMORY then NULL else object_id c)
            }
        }
      })"

definition sys_vm_map :: "map_mem \<Rightarrow> u64 \<Rightarrow> u64 \<Rightarrow> u64 \<Rightarrow> u32 \<Rightarrow> kstate \<Rightarrow> (kstate \<times> int) option" where
  "sys_vm_map mem cur handle addr prot st =
     (if cur = NULL then Some (st, - 1)
      else do {
        t \<leftarrow> tasks st cur;
        if task_map t = NULL then Some (st, - 1)
        else if addr AND 4095 \<noteq> 0 then Some (st, - 1)
        else do {
          obj \<leftarrow> handle_to_vm_object cur handle st;
          if obj = NULL then Some (st, - 1)
          else do {
            ob \<leftarrow> objs (kvm st) obj;
            if vo_size ob = 0 then Some (st, - 1)
            else if addr < USER_BASE then Some (st, - 1)
            else if vo_size ob > USER_STACK_TOP - addr then Some (st, - 1)
            else do {
              m \<leftarrow> maps st (task_map t);
              (m, vm, r) \<leftarrow> vm_map_map mem addr obj 0 (vo_size ob) (prot AND VM_PROT_ALL) VM_INHERIT_SHARE m (kvm st);
              Some (st\<lparr>kvm := vm, maps := (maps st)(task_map t \<mapsto> m)\<rparr>, if r < 0 then - 1 else 0)
            }
          }
        }
      })"

text \<open>The checks the two range calls share; the page-rounded size if they pass.\<close>

definition user_range :: "u64 \<Rightarrow> u64 \<Rightarrow> u64 option" where
  "user_range addr sz =
     (if addr AND 4095 \<noteq> 0 then None
      else case page_round sz of
        None \<Rightarrow> None
      | Some sz \<Rightarrow> if addr < USER_BASE \<or> sz > USER_STACK_TOP - addr then None else Some sz)"

definition sys_vm_unmap :: "map_mem \<Rightarrow> u64 \<Rightarrow> u64 \<Rightarrow> u64 \<Rightarrow> kstate \<Rightarrow> (kstate \<times> int) option" where
  "sys_vm_unmap mem cur addr sz st =
     (if cur = NULL then Some (st, - 1)
      else do {
        t \<leftarrow> tasks st cur;
        if task_map t = NULL then Some (st, - 1)
        else case user_range addr sz of
          None \<Rightarrow> Some (st, - 1)
        | Some sz \<Rightarrow> do {
            m \<leftarrow> maps st (task_map t);
            (m, vm, r) \<leftarrow> vm_map_unmap mem addr sz m (kvm st);
            Some (st\<lparr>kvm := vm, maps := (maps st)(task_map t \<mapsto> m)\<rparr>, r)
          }
      })"

definition sys_vm_protect :: "map_mem \<Rightarrow> u64 \<Rightarrow> u64 \<Rightarrow> u64 \<Rightarrow> u32 \<Rightarrow> kstate \<Rightarrow> (kstate \<times> int) option" where
  "sys_vm_protect mem cur addr sz prot st =
     (if cur = NULL then Some (st, - 1)
      else do {
        t \<leftarrow> tasks st cur;
        if task_map t = NULL then Some (st, - 1)
        else case user_range addr sz of
          None \<Rightarrow> Some (st, - 1)
        | Some sz \<Rightarrow> do {
            m \<leftarrow> maps st (task_map t);
            (m, vm, r) \<leftarrow> vm_map_protect mem addr sz (prot AND VM_PROT_ALL) m (kvm st);
            Some (st\<lparr>kvm := vm, maps := (maps st)(task_map t \<mapsto> m)\<rparr>, r)
          }
      })"

section \<open>Resolving handles\<close>

lemma lookup_of_snapshot:
  "cspace_lookup_snapshot cs slot = Some None \<Longrightarrow> cspace_lookup cs slot = Some None"
  "cspace_lookup_snapshot cs slot = Some (Some c) \<Longrightarrow>
    cspace_lookup cs slot = Some (Some (nat slot)) \<and> nth_opt (array_of (slots cs)) (nat slot) = Some c"
  by (auto simp: cspace_lookup_def cspace_lookup_snapshot_def Option.bind_eq_Some_conv split: if_splits)

lemma handle_to_vm_object_eq:
  assumes inv: "kinv st" and t: "tasks st cur = Some t"
  shows "handle_to_vm_object cur handle st = Some
    (if handle_task_id handle \<noteq> task_id t then NULL
     else case caps (task_cspace t) (nat (handle_slot handle)) of None \<Rightarrow> NULL
       | Some c \<Rightarrow> if cap_type c = CAP_MEMORY then object_id c else NULL)"
proof -
  have pos: "0 \<le> handle_slot handle" by (simp add: handle_slot_def)
  have "cspace_lookup_snapshot (task_cspace t) (handle_slot handle) = Some (caps (task_cspace t) (nat (handle_slot handle)))"
    using lookup_snapshot_clean [OF kinvD(3,4) [OF inv t], of "handle_slot handle"] pos by simp
  then show ?thesis
    using t tasks_not_null [OF kinvD(1) [OF inv] t]
      lookup_of_snapshot [of "task_cspace t" "handle_slot handle"]
    by (cases "caps (task_cspace t) (nat (handle_slot handle))") (auto simp: handle_to_vm_object_def)
qed

text \<open>The register value a non-negative \<^verbatim>\<open>int\<close> result becomes has no task number.\<close>

lemma result_register_task:
  assumes "0 \<le> r" and "r < 2 ^ 31"
  shows "handle_task_id (result_register r) = 0"
proof -
  have "drop_bit 32 (result_register r) = 0"
  proof (rule bit_word_eqI)
    fix n :: nat
    have "take_bit 31 r = r" using assms by (simp add: take_bit_int_eq_self)
    then have "\<not> bit r (32 + n)" using bit_take_bit_iff [of 31 r "32 + n"] by simp
    then show "bit (drop_bit 32 (result_register r)) n \<longleftrightarrow> bit (0 :: u64) n"
      by (simp add: result_register_def bit_simps)
  qed
  then show ?thesis by (simp add: handle_task_id_def)
qed

section \<open>An example state\<close>

text \<open>Task 1 has an empty address map and, in slot 1, a capability for a shared object of two pages.\<close>

definition shared_vm :: vmstate where
  "shared_vm = fst (vm_object_create_shared 0x9000 0x2000 empty_vm)"

definition vm_example :: kstate where
  "vm_example = ipc_example\<lparr>kvm := shared_vm, maps := [0x7000 \<mapsto> empty_map],
     tasks := [0x5000 \<mapsto> (plain_task 1 holder_cspace)\<lparr>task_map := 0x7000\<rparr>, 0x6000 \<mapsto> plain_task 2 boot_cspace]\<rparr>"

lemma shared_vm_inv: "vmo_inv ((\<lambda>_. 0)(0x9000 := 1)) shared_vm"
  and shared_vm_objs: "objs shared_vm = [0x9000 \<mapsto> \<lparr>vo_ref = 1, vo_kind = ObjShared None 0, vo_size = 0x2000, vo_port = 0\<rparr>]"
  using vm_object_alloc_correct [OF empty_vm_inv, of "0x9000" "0x2000" "ObjShared None 0" 0]
  by (auto simp: shared_vm_def vm_object_create_shared_def empty_vm_def)

lemma vm_example_inv: "kinv vm_example"
proof (rule kinv_same [OF ipc_example_inv])
  show "cspace_wf (task_cspace t) \<and> cspace_clean (task_cspace t)" if "tasks vm_example q = Some t" for q t
    using that boot_cspace_ok holder_cspace_ok by (auto simp: vm_example_def plain_task_def split: if_splits)
  show "ports_inv vm_example" using kinvD(2) [OF ipc_example_inv] ports_inv_cong [of vm_example ipc_example] by (simp add: vm_example_def)
qed (simp_all add: vm_example_def ipc_example_def plain_task_def)

lemma vm_example_map: "map_inv ((\<lambda>_. 0)(0x9000 := 1)) empty_map shared_vm"
  using empty_map_inv shared_vm_inv by (simp add: map_inv_def map_refs_def empty_map_live fun_upd_def)

section \<open>Properties\<close>

text \<open>
  C5. Mapping stays within the caller's authority and within user space: the call always returns 0 or -1
  with the address map consistent; it succeeds only for a handle of the caller's own capability space
  that names a memory capability, and then maps exactly that object with no more than read, write and
  execute protection; every address whose mapping changes lies in the user range.
\<close>
theorem sys_vm_map_contained:
  assumes inv: "kinv st" and t: "tasks st cur = Some t" "task_map t \<noteq> NULL" and m: "maps st (task_map t) = Some m" "map_inv oth m (kvm st)"
    and mem: "map_mem_ok mem"
    and live: "\<And>i c. caps (task_cspace t) i = Some c \<Longrightarrow> cap_type c = CAP_MEMORY \<Longrightarrow> object_id c = NULL \<or> objs (kvm st) (object_id c) \<noteq> None"
  shows "\<exists>st' r m'. sys_vm_map mem cur handle addr prot st = Some (st', r) \<and> (r = 0 \<or> r = - 1) \<and>
    maps st' (task_map t) = Some m' \<and> map_inv oth m' (kvm st') \<and>
    (\<forall>x. space (live m') x \<noteq> space (live m) x \<longrightarrow> USER_BASE \<le> x \<and> x < USER_STACK_TOP \<and>
      (\<exists>c off. handle_task_id handle = task_id t \<and> caps (task_cspace t) (nat (handle_slot handle)) = Some c \<and> cap_type c = CAP_MEMORY \<and>
        space (live m') x = Some (object_id c, off, prot AND VM_PROT_ALL, VM_INHERIT_SHARE))) \<and>
    (r = - 1 \<longrightarrow> space (live m') = space (live m))"
proof -
  have cur: "cur \<noteq> NULL" using tasks_not_null [OF kinvD(1) [OF inv] t(1)] .
  let ?run = "sys_vm_map mem cur handle addr prot st"
  let ?good = "\<lambda>c ob. addr AND 4095 = 0 \<and> handle_task_id handle = task_id t \<and> caps (task_cspace t) (nat (handle_slot handle)) = Some c \<and>
      cap_type c = CAP_MEMORY \<and> object_id c \<noteq> NULL \<and> objs (kvm st) (object_id c) = Some ob \<and> vo_size ob \<noteq> 0 \<and>
      \<not> addr < USER_BASE \<and> \<not> vo_size ob > USER_STACK_TOP - addr"
  show ?thesis
  proof (cases "\<exists>c ob. ?good c ob")
    case False
    then have "?run = Some (st, - 1)"
      using handle_to_vm_object_eq [OF inv t(1), of handle] live [of "nat (handle_slot handle)"] cur t
      by (cases "caps (task_cspace t) (nat (handle_slot handle))") (auto simp: sys_vm_map_def)
    then show ?thesis using m by auto
  next
    case True
    then obtain c ob where 2: "addr AND 4095 = 0" "handle_task_id handle = task_id t" "caps (task_cspace t) (nat (handle_slot handle)) = Some c"
      "cap_type c = CAP_MEMORY" "object_id c \<noteq> NULL" "objs (kvm st) (object_id c) = Some ob" "vo_size ob \<noteq> 0"
      "\<not> addr < USER_BASE" "\<not> vo_size ob > USER_STACK_TOP - addr" by (elim exE conjE)
    let ?sz = "vo_size ob" and ?p = "prot AND VM_PROT_ALL"
    obtain m' vm r where run: "vm_map_map mem addr (object_id c) 0 ?sz ?p VM_INHERIT_SHARE m (kvm st) = Some (m', vm, r)" "map_inv oth m' vm"
      and eff: "if r = 0 then map_args_ok addr (object_id c) 0 ?sz \<and>
         space (live m') = (\<lambda>x. if addr \<le> x \<and> x < addr + ?sz then Some (object_id c, x - addr + 0, ?p, VM_INHERIT_SHARE) else space (live m) x)
       else r = - 1 \<and> live m' = live m \<and> (map_args_ok addr (object_id c) 0 ?sz \<longrightarrow> (\<exists>x. addr \<le> x \<and> x < addr + ?sz \<and> space (live m) x \<noteq> None) \<or> entry_count m = max_entries m)"
      using vm_map_map_effect [OF m(2) mem 2(6), of addr 0 ?sz ?p VM_INHERIT_SHARE] by blast
    let ?st = "st\<lparr>kvm := vm, maps := (maps st)(task_map t \<mapsto> m')\<rparr>"
    have ret: "?run = Some (?st, if r < 0 then - 1 else 0)"
      using handle_to_vm_object_eq [OF inv t(1), of handle] 2 cur t m(1) run(1) by (simp add: sys_vm_map_def)
    show ?thesis
    proof (cases "r = 0")
      case True
      then have ok: "map_args_ok addr (object_id c) 0 ?sz"
        and sp: "space (live m') = (\<lambda>x. if addr \<le> x \<and> x < addr + ?sz then Some (object_id c, x - addr + 0, ?p, VM_INHERIT_SHARE) else space (live m) x)"
        using eff by auto
      have "USER_BASE \<le> x \<and> x < USER_STACK_TOP \<and> space (live m') x = Some (object_id c, x - addr, ?p, VM_INHERIT_SHARE)"
        if "space (live m') x \<noteq> space (live m) x" for x
      proof -
        have x: "addr \<le> x" "x < addr + ?sz" using that sp by (auto split: if_splits)
        have "USER_BASE \<le> addr" "addr + ?sz \<le> USER_STACK_TOP" using ok unfolding map_args_ok_def not_less by blast+
        then show ?thesis using x sp by auto
      qed
      then show ?thesis using ret True run(2) 2(2-4) by (intro exI [of _ ?st] exI [of _ 0] exI [of _ m']) auto
    next
      case False
      then have "r = - 1" "live m' = live m" using eff by auto
      then show ?thesis using ret run(2) by (intro exI [of _ ?st] exI [of _ "- 1"] exI [of _ m']) auto
    qed
  qed
qed

theorem sys_vm_map_contained_witness:
  "\<exists>st' m'. sys_vm_map fresh_mem 0x5000 (task_make_handle 1 1) 0x8000000 0xFF vm_example = Some (st', 0) \<and>
    maps st' 0x7000 = Some m' \<and> (\<forall>x. space (live m') x \<noteq> None \<longrightarrow> USER_BASE \<le> x \<and> x < USER_STACK_TOP)"
proof -
  let ?t = "(plain_task 1 holder_cspace)\<lparr>task_map := 0x7000\<rparr>"
  have e: "tasks vm_example 0x5000 = Some ?t" "maps vm_example (task_map ?t) = Some empty_map" "task_map ?t \<noteq> NULL" "kvm vm_example = shared_vm"
    by (simp_all add: vm_example_def)
  have l: "object_id c = NULL \<or> objs (kvm vm_example) (object_id c) \<noteq> None" if "caps (task_cspace ?t) i = Some c" for i c
    using that holder_cspace_ok(3) e(4) shared_vm_objs by (auto simp: plain_task_def split: if_splits)
  have m: "map_inv ((\<lambda>_. 0)(0x9000 := 1)) empty_map (kvm vm_example)" using vm_example_map e(4) by simp
  have "map_option snd (sys_vm_map fresh_mem 0x5000 (task_make_handle 1 1) 0x8000000 0xFF vm_example) = Some 0" by code_simp
  then show ?thesis
    using sys_vm_map_contained [OF vm_example_inv e(1,3,2) m fresh_mem_ok l,
        where handle = "task_make_handle 1 1" and addr = "0x8000000" and prot = "0xFF"]
    by (fastforce simp: empty_map_live e(1) plain_task_def)
qed

text \<open>
  C8. The handle of a new shared object is cast to a 32-bit integer on the way to the caller, which drops
  the task number: the value the caller gets is refused by the mapping call for every address, so a
  shared object can never be mapped.
\<close>
theorem vm_shared_handle_refused:
  assumes inv: "kinv st" and t: "tasks st cur = Some t" and mem: "cspace_mem_ok cmem (task_cspace t)"
    and run: "sys_vm_create_shared ptr cmem cur sz st = Some (st', r)" and ok: "0 \<le> r"
  shows "sys_vm_map mmem cur (result_register r) addr prot st' = Some (st', - 1)"
proof -
  note w = kinvD(3) [OF inv t]
  have cur: "cur \<noteq> NULL" using tasks_not_null [OF kinvD(1) [OF inv] t] .
  obtain vm obj sz' where g: "grant_object cmem cur obj (st\<lparr>kvm := vm\<rparr>) = Some (st', r)" "page_round sz = Some sz'"
    using run ok cur by (auto simp: sys_vm_create_shared_def split: option.splits prod.splits if_splits)
  obtain cs slot where al: "cspace_alloc_slot cmem CAP_MEMORY (CAP_READ OR CAP_WRITE) obj (task_cspace t) = Some (cs, slot)" "cspace_wf cs"
    and eff: "slot = - 1 \<and> caps cs = caps (task_cspace t) \<or> 0 < slot \<and> caps (task_cspace t) (nat slot) = None \<and>
       caps cs = (caps (task_cspace t))(nat slot \<mapsto> \<lparr>object_id = obj, cap_type = CAP_MEMORY, rights = CAP_READ OR CAP_WRITE, in_use = 1\<rparr>)"
    using alloc_slot_correct [OF w mem] by blast
  have sl: "0 < slot" "r = handle_to_int (task_make_handle (task_id t) slot)" "tasks st' cur = Some (t\<lparr>task_cspace := cs\<rparr>)"
    using g(1) al(1) t ok eff by (auto simp: grant_object_def Let_def put_task_def Option.bind_eq_Some_conv split: if_splits)
  have "slot < max_slots cs" using caps_range [OF al(2), of "nat slot"] eff sl(1) by auto
  then have small: "slot < 2 ^ 31" using cspace_max_small [OF al(2)] by simp
  then have "r = slot" using sl handle_to_int_make [of slot "task_id t"] by simp
  then have "handle_task_id (result_register r) = 0" using result_register_task small sl(1) by simp
  moreover have "task_id t \<noteq> 0" using tasks_invD(4) [OF kinvD(1) [OF inv] t] by auto
  ultimately have "handle_to_vm_object cur (result_register r) st' = Some NULL"
    using cur sl(3) by (simp add: handle_to_vm_object_def)
  then show ?thesis using cur sl(3) by (simp add: sys_vm_map_def)
qed

theorem vm_shared_handle_refused_witness:
  "\<exists>st' r. sys_vm_create_shared 0xA000 no_mem 0x5000 0x1000 vm_example = Some (st', r) \<and>
    sys_vm_map fresh_mem 0x5000 (result_register r) 0x8000000 3 st' = Some (st', - 1)"
proof -
  have "map_option (\<lambda>x. 0 \<le> snd x) (sys_vm_create_shared 0xA000 no_mem 0x5000 0x1000 vm_example) = Some True" by code_simp
  then obtain st' r where run: "sys_vm_create_shared 0xA000 no_mem 0x5000 0x1000 vm_example = Some (st', r)" "0 \<le> r" by auto
  have "tasks vm_example 0x5000 = Some ((plain_task 1 holder_cspace)\<lparr>task_map := 0x7000\<rparr>)" by (simp add: vm_example_def)
  from vm_shared_handle_refused [OF vm_example_inv this _ run] run(1) show ?thesis by auto
qed

end
