(* ===== verification/VmPager.thy ===== *)
theory VmPager
  imports VmSyscall
begin

unbundle bit_operations_syntax

text \<open>
  The user-level pager protocol of \<^verbatim>\<open>mk/vm/vm_pager.c\<close>: a page fault on a user-paged object is sent as a
  message to the pager's port, the faulting thread blocks, and the pager's reply stores the physical page
  and makes the thread runnable again.

  The state is the kernel state together with the table of pending faults.  \<^verbatim>\<open>vm_pager_send_fault\<close> is cut where
  the thread gives up the processor: \<open>vm_pager_send_fault\<close> runs up to the block, \<open>vm_pager_fault_resume\<close> is
  the rest.  One round of the boot pager's loop is \<open>boot_pager_round\<close>.  Arguments: the memory for the reply
  port, a larger ring or a larger capability space, and the running task and thread; the threads
  \<^verbatim>\<open>thread_find\<close> knows are the \<open>known_threads\<close> of the state.
\<close>

section \<open>The table of pending faults\<close>

record pager_fault =
  blocked_tid :: u32
  reply_phys :: u64
  pf_valid :: bool

abbreviation PAGER_FAULTS_MAX :: nat where "PAGER_FAULTS_MAX \<equiv> 16"
abbreviation EAGAIN :: int where "EAGAIN \<equiv> 11"
abbreviation EINVAL :: int where "EINVAL \<equiv> 22"
abbreviation ENOMEM :: int where "ENOMEM \<equiv> 12"
abbreviation ESRCH :: int where "ESRCH \<equiv> 3"
abbreviation IPC_FAULT_REQ :: u32 where "IPC_FAULT_REQ \<equiv> 0x8001"

type_synonym fault_table = "pager_fault list"

definition pager_fault_alloc_slot :: "fault_table \<Rightarrow> fault_table \<times> nat option" where
  "pager_fault_alloc_slot ft =
     (case List.find (\<lambda>i. \<not> pf_valid (ft ! i)) [0..<PAGER_FAULTS_MAX] of
        None \<Rightarrow> (ft, None)
      | Some i \<Rightarrow> (ft[i := (ft ! i)\<lparr>pf_valid := True\<rparr>], Some i))"

definition pager_fault_find_by_tid :: "u32 \<Rightarrow> fault_table \<Rightarrow> nat option" where
  "pager_fault_find_by_tid tid ft =
     List.find (\<lambda>i. pf_valid (ft ! i) \<and> blocked_tid (ft ! i) = tid) [0..<PAGER_FAULTS_MAX]"

definition invalidate :: "nat \<Rightarrow> fault_table \<Rightarrow> fault_table" where
  "invalidate slot ft = ft[slot := (ft ! slot)\<lparr>pf_valid := False\<rparr>]"

definition pager_resolve_port :: "u64 \<Rightarrow> kstate \<Rightarrow> (kstate \<times> u64) option" where
  "pager_resolve_port handle st =
     (if handle = 0 then Some (st, NULL)
      else do {
        t \<leftarrow> task_find_hold (handle_task_id handle) st;
        if t = NULL then Some (st, NULL)
        else do {
          tk \<leftarrow> tasks st t;
          snap \<leftarrow> cspace_lookup_snapshot (task_cspace tk) (handle_slot handle);
          case snap of None \<Rightarrow> Some (st, NULL) | Some c \<Rightarrow> port_from_cslot c CAP_SEND st
        }
      })"

definition pager_phys_valid :: "u64 \<Rightarrow> kstate \<Rightarrow> bool" where
  "pager_phys_valid phys st \<longleftrightarrow>
     \<not> (phys = 0 \<or> phys AND 4095 \<noteq> 0) \<and> \<not> phys \<ge> ucast (total_pages (vm_pmm (kvm st))) * PAGE_SIZE"

section \<open>The fault message\<close>

definition le_bytes :: "nat \<Rightarrow> 'a::len word \<Rightarrow> u8 list" where
  "le_bytes n w = map (\<lambda>i. ucast (drop_bit (8 * i) w)) [0..<n]"

fun le_word :: "u8 list \<Rightarrow> 'a::len word" where
  "le_word [] = 0"
| "le_word (b # bs) = ucast b OR push_bit 8 (le_word bs)"

text \<open>The packed request structure: object, offset, protection, thread, reply handle.\<close>

definition fault_req_data :: "u64 \<Rightarrow> u64 \<Rightarrow> u32 \<Rightarrow> u32 \<Rightarrow> u64 \<Rightarrow> u8 list" where
  "fault_req_data obj off prot tid reply =
     le_bytes 8 obj @ le_bytes 8 off @ le_bytes 4 prot @ le_bytes 4 tid @ le_bytes 8 reply"

definition req_fault_tid :: "u8 list \<Rightarrow> u32" where
  "req_fault_tid d = le_word (take 4 (drop 20 d))"

definition fault_req_msg :: "u64 \<Rightarrow> u64 \<Rightarrow> u32 \<Rightarrow> u32 \<Rightarrow> u64 \<Rightarrow> ipc_msg" where
  "fault_req_msg obj off prot tid reply =
     \<lparr>msg_id = IPC_FAULT_REQ, data_size = 32, data = fault_req_data obj off prot tid reply @ replicate 32 0,
      ndispose = 0, dispose = replicate IPC_DISPOSE_MAX \<lparr>d_type = 0, d_rights = 0, d_handle = 0\<rparr>\<rparr>"

section \<open>Sending a fault and resuming\<close>

record pending_fault =
  pf_slot :: nat
  pf_reply_slot :: int
  pf_reply_port :: u64

definition drop_reply_port :: "u64 \<Rightarrow> int \<Rightarrow> u64 \<Rightarrow> kstate \<Rightarrow> kstate option" where
  "drop_reply_port cur rslot rport st = do {
     st \<leftarrow> free_caller_slot cur rslot st;
     (st, _) \<leftarrow> port_destroy rport st;
     Some st
   }"

definition vm_pager_send_fault ::
  "port_mem \<Rightarrow> cspace_mem \<Rightarrow> queue_mem \<Rightarrow> u64 \<Rightarrow> u32 option \<Rightarrow> u64 \<Rightarrow> u64 \<Rightarrow> u64 \<Rightarrow> u32 \<Rightarrow>
   kstate \<times> fault_table \<Rightarrow> ((kstate \<times> fault_table) \<times> (int + pending_fault)) option" where
  "vm_pager_send_fault pmem cmem qmem cur thr handle obj off prot = (\<lambda>(st, ft). do {
     (st, pager_port) \<leftarrow> pager_resolve_port handle st;
     if pager_port = NULL then Some ((st, ft), Inl (- EINVAL))
     else
       let (ft, slot) = pager_fault_alloc_slot ft
       in case slot of
         None \<Rightarrow> Some ((st, ft), Inl (- ENOMEM))
       | Some slot \<Rightarrow>
           let (st, rport) = port_create pmem st
           in if rport = NULL then Some ((st, invalidate slot ft), Inl (- ENOMEM))
           else if cur = NULL then do {
             (st, _) \<leftarrow> port_destroy rport st;
             Some ((st, invalidate slot ft), Inl (- EINVAL))
           }
           else do {
             t \<leftarrow> tasks st cur;
             (cs, rslot) \<leftarrow> cspace_alloc_slot cmem CAP_PORT (CAP_RECV OR CAP_REPLY) rport (task_cspace t);
             let st = put_task cur (t\<lparr>task_cspace := cs\<rparr>) st;
             if rslot < 0 then do {
               (st, _) \<leftarrow> port_destroy rport st;
               Some ((st, invalidate slot ft), Inl (- ENOMEM))
             }
             else case thr of
               None \<Rightarrow> do {
                 st \<leftarrow> drop_reply_port cur rslot rport st;
                 Some ((st, invalidate slot ft), Inl (- EINVAL))
               }
             | Some tid \<Rightarrow> do {
                 let msg = fault_req_msg obj off prot tid (task_make_handle (task_id t) rslot);
                 (st, ret) \<leftarrow> port_send qmem pager_port msg cur st;
                 st \<leftarrow> port_release pager_port st;
                 if ret \<noteq> IPC_OK then do {
                   st \<leftarrow> drop_reply_port cur rslot rport st;
                   Some ((st, invalidate slot ft), Inl (if ret = IPC_ERR_FULL then - EAGAIN else - EINVAL))
                 }
                 else Some ((emit [BlockThread tid] st, ft[slot := (ft ! slot)\<lparr>blocked_tid := tid, reply_phys := 0\<rparr>]),
                   Inr \<lparr>pf_slot = slot, pf_reply_slot = rslot, pf_reply_port = rport\<rparr>)
               }
           }
   })"

definition vm_pager_fault_resume ::
  "u64 \<Rightarrow> pending_fault \<Rightarrow> kstate \<times> fault_table \<Rightarrow> ((kstate \<times> fault_table) \<times> (int + u64)) option" where
  "vm_pager_fault_resume cur pf = (\<lambda>(st, ft). do {
     let phys = reply_phys (ft ! pf_slot pf);
     let ft = invalidate (pf_slot pf) ft;
     st \<leftarrow> drop_reply_port cur (pf_reply_slot pf) (pf_reply_port pf) st;
     if \<not> pager_phys_valid phys st then Some ((st, ft), Inl (- EINVAL))
     else Some ((st, ft), Inr phys)
   })"

definition vm_pager_handle_reply ::
  "u64 \<Rightarrow> u64 \<Rightarrow> kstate \<times> fault_table \<Rightarrow> (kstate \<times> fault_table) \<times> int" where
  "vm_pager_handle_reply fault_tid phys_addr = (\<lambda>(st, ft).
     if fault_tid = 0 \<or> \<not> pager_phys_valid phys_addr st then ((st, ft), - EINVAL)
     else case pager_fault_find_by_tid (ucast fault_tid) ft of
       None \<Rightarrow> ((st, ft), - ESRCH)
     | Some slot \<Rightarrow>
         let ft = ft[slot := (ft ! slot)\<lparr>reply_phys := phys_addr\<rparr>]
         in if \<not> known_threads st (ucast fault_tid) then ((st, ft), - ESRCH)
            else ((emit [AddThread (ucast fault_tid)] st, ft), 0))"

section \<open>The boot pager\<close>

definition zero_msg :: ipc_msg where
  "zero_msg = \<lparr>msg_id = 0, data_size = 0, data = replicate IPC_DATA_SIZE 0, ndispose = 0,
     dispose = replicate IPC_DISPOSE_MAX \<lparr>d_type = 0, d_rights = 0, d_handle = 0\<rparr>\<rparr>"

definition boot_pager_round ::
  "cap_memory \<Rightarrow> u32 option \<Rightarrow> u64 \<Rightarrow> u64 \<Rightarrow> kstate \<times> fault_table \<Rightarrow> (kstate \<times> fault_table) option" where
  "boot_pager_round cmem thr cur port = (\<lambda>(st, ft). do {
     (st, ret, msg) \<leftarrow> port_recv cmem thr cur port zero_msg st;
     if ret \<noteq> IPC_OK then Some (st, ft)
     else if msg_id msg \<noteq> IPC_FAULT_REQ then Some (st, ft)
     else do {
       (pm, phys) \<leftarrow> pmm_alloc_page (vm_pmm (kvm st));
       let st = st\<lparr>kvm := (kvm st)\<lparr>vm_pmm := pm\<rparr>\<rparr>;
       if phys = NULL then Some (st, ft)
       else Some (fst (vm_pager_handle_reply (ucast (req_fault_tid (data msg))) phys (st, ft)))
     }
   })"

section \<open>Encoding\<close>

lemma bit_le_word:
  "bit (le_word bs :: 'a::len word) n \<longleftrightarrow> n < LENGTH('a) \<and> n div 8 < length bs \<and> bit (bs ! (n div 8)) (n mod 8)"
proof (induction bs arbitrary: n)
  case (Cons b bs)
  show ?case
  proof (cases "n < 8")
    case True
    then show ?thesis by (auto simp: bit_simps dest: bit_imp_le_length)
  next
    case False
    then have d: "n div 8 = Suc ((n - 8) div 8)" "n mod 8 = (n - 8) mod 8" by (simp_all add: le_div_geq le_mod_geq)
    have "\<not> bit b n" using False by (auto dest: bit_imp_le_length)
    then show ?thesis using False Cons.IH [of "n - 8"] d by (auto simp: bit_simps)
  qed
qed simp

lemma le_word_bytes: "LENGTH('a) = 8 * k \<Longrightarrow> le_word (le_bytes k w) = w" for w :: "'a::len word"
  by (rule bit_word_eqI) (auto simp: bit_le_word le_bytes_def bit_simps less_mult_imp_div_less mult.commute)

lemma length_le_bytes [simp]: "length (le_bytes k w) = k"
  by (simp add: le_bytes_def)

text \<open>The pager reads back the thread the fault was sent for, whatever follows in the buffer.\<close>

lemma req_fault_tid_data:
  assumes "take n d = fault_req_data obj off prot tid reply"
  shows "req_fault_tid d = tid"
proof -
  have "length (take n d) = 32" unfolding assms by (simp add: fault_req_data_def)
  then have "32 \<le> n" by simp
  then have "take 4 (drop 20 d) = take 4 (drop 20 (take n d))" by (simp add: take_drop min_def)
  also have "\<dots> = le_bytes 4 tid" unfolding assms by (simp add: fault_req_data_def)
  finally show ?thesis using le_word_bytes [of 4 tid] by (simp add: req_fault_tid_def)
qed

section \<open>Pages handed to the pager\<close>

lemma alloc_page_phys_valid:
  assumes "pmm_inv (vm_pmm (kvm st))" and "pmm_alloc_page (vm_pmm (kvm st)) = Some (pm, phys)" and "phys \<noteq> NULL"
    and same: "total_pages pm = total_pages (vm_pmm (kvm st)) \<Longrightarrow> total_pages (vm_pmm (kvm st')) = total_pages (vm_pmm (kvm st))"
  shows "pager_phys_valid phys st'"
proof -
  let ?s = "vm_pmm (kvm st)"
  have a: "total_pages pm = total_pages ?s" "phys AND 4095 = 0" "page_no phys \<in> pmm_free ?s"
  proof -
    obtain s' p where l: "pmm_alloc_page ?s = Some (s', p)" "unat (total_pages s') = unat (total_pages ?s)" "p AND 4095 = 0"
      "p \<noteq> NULL \<longrightarrow> page_no p \<in> pmm_free ?s" using ps.alloc_law [OF assms(1)] by blast
    then have "s' = pm" "p = phys" using assms(2) by simp_all
    then show "total_pages pm = total_pages ?s" "phys AND 4095 = 0" "page_no phys \<in> pmm_free ?s"
      using l(2-4) assms(3) by (simp_all add: word_unat_eq_iff [THEN iffD2])
  qed
  have "unat phys div 4096 < unat (total_pages ?s)" using ps.avail_tracked [OF a(3)] by (simp add: page_no_eq)
  then have "unat phys < unat (total_pages ?s) * 4096" by linarith
  moreover have "unat (ucast (total_pages ?s) :: u64) = unat (total_pages ?s)"
    using unat_u32_less [of "total_pages ?s"] by (simp add: unsigned_ucast_eq take_bit_nat_eq_self)
  then have "unat (ucast (total_pages ?s) * PAGE_SIZE :: u64) = unat (total_pages ?s) * 4096"
    using unat_u32_less [of "total_pages ?s"] by (simp add: unat_word_ariths)
  ultimately have "phys < ucast (total_pages ?s) * PAGE_SIZE" by (simp add: word_less_nat_alt)
  then show ?thesis using a assms(3) same by (simp add: pager_phys_valid_def)
qed

lemma find_by_tid_first:
  assumes "i < PAGER_FAULTS_MAX" and "pf_valid (ft ! i)" and "blocked_tid (ft ! i) = tid"
    and "\<And>j. j < i \<Longrightarrow> \<not> (pf_valid (ft ! j) \<and> blocked_tid (ft ! j) = tid)"
  shows "pager_fault_find_by_tid tid ft = Some i"
  using assms by (auto simp: pager_fault_find_by_tid_def find_upt_Some_iff)

section \<open>Example states\<close>

definition no_fault :: pager_fault where
  "no_fault = \<lparr>blocked_tid = 0, reply_phys = 0, pf_valid = False\<rparr>"

text \<open>Threads 9 and 4 wait for their pages; thread 9 has the lower place.\<close>

definition fault_of_4 :: fault_table where
  "fault_of_4 = (replicate PAGER_FAULTS_MAX no_fault)[1 := \<lparr>blocked_tid = 9, reply_phys = 0, pf_valid = True\<rparr>,
     3 := \<lparr>blocked_tid = 4, reply_phys = 0, pf_valid = True\<rparr>]"

definition fault_sent :: kstate where
  "fault_sent = fst (the (port_send no_queue_mem 0x1000 (fault_req_msg 0x9000 0 1 4 0) 0x5000 ipc_example))"

lemma kvm_port_send: "port_send qmem port msg sender st = Some (st', r) \<Longrightarrow> kvm st' = kvm st \<and> known_threads st' = known_threads st"
  by (auto simp: port_send_def port_update_def emit_def case_prod_beta Option.bind_eq_Some_conv split: if_splits)

lemma fault_sent_facts:
  "\<exists>p. kinv fault_sent \<and> ports fault_sent = [0x1000 \<mapsto> p] \<and> magic p = PORT_MAGIC \<and>
    port_contents p = [(msg_payload (fault_req_msg 0x9000 0 1 4 0), 1)] \<and> kvm fault_sent = empty_vm \<and>
    known_threads fault_sent 4"
proof -
  let ?m = "fault_req_msg 0x9000 0 1 4 0" and ?t = "plain_task 1 holder_cspace"
  have e: "ports ipc_example = [0x1000 \<mapsto> example_port]" "magic example_port = PORT_MAGIC" "tasks ipc_example 0x5000 = Some ?t"
    "port_contents example_port = []" "\<not> queue_size example_port \<le> queue_count example_port" "task_id ?t = 1" "kvm ipc_example = empty_vm" "known_threads ipc_example 4"
    by (simp_all add: ipc_example_def empty_kstate_def example_port_def port_contents_def port_ring_def plain_task_def)
  have m: "msg_wf ?m" "may_send ?t ?m" by (simp_all add: msg_wf_def may_send_def fault_req_msg_def fault_req_data_def)
  have "queue_mem_ok no_queue_mem example_port" by (simp add: queue_mem_ok_def no_queue_mem_def)
  then obtain st' p' where st': "port_send no_queue_mem 0x1000 ?m 0x5000 ipc_example = Some (st', IPC_OK)" "kinv st'"
    "ports st' = (ports ipc_example)(0x1000 \<mapsto> p')" "magic p' = PORT_MAGIC" "port_contents p' = port_contents example_port @ [(msg_payload ?m, task_id ?t)]"
    using port_send_effect [OF ipc_example_inv _ e(2,3) m(1) _ m(2), of "0x1000" no_queue_mem] e(1,5) by auto
  then have "fault_sent = st'" by (simp add: fault_sent_def)
  then show ?thesis using st' e kvm_port_send [OF st'(1)] by auto
qed

section \<open>Properties\<close>

text \<open>
  C6. One round of the boot pager answers the oldest fault: when the request of a thread with a pending
  fault is at the head of the pager's queue, a page is available and the thread is alive, the round takes
  the request off the queue, removes the page from the allocator, stores its address (a page of RAM) in
  exactly one place of the table, the first valid one whose blocked thread is the thread the request names
  (whatever other threads wait in lower places), and makes that thread runnable.
\<close>
theorem boot_pager_resolves_fault:
  assumes inv: "kinv st" and p: "ports st port = Some p" "magic p = PORT_MAGIC"
    and q: "port_contents p = (msg_payload (fault_req_msg obj off prot tid reply), sender) # rest"
    and tid: "tid \<noteq> 0" "known_threads st tid"
    and pend: "length ft = PAGER_FAULTS_MAX" "i < PAGER_FAULTS_MAX" "pf_valid (ft ! i)" "blocked_tid (ft ! i) = tid"
      "\<And>j. j < i \<Longrightarrow> \<not> (pf_valid (ft ! j) \<and> blocked_tid (ft ! j) = tid)"
    and pg: "pmm_inv (vm_pmm (kvm st))" "pmm_alloc_page (vm_pmm (kvm st)) = Some (pm, phys)" "phys \<noteq> NULL"
  shows "\<exists>st' p'. boot_pager_round cmem thr NULL port (st, ft) = Some (st', ft[i := (ft ! i)\<lparr>reply_phys := phys\<rparr>]) \<and>
    ports st' = (ports st)(port \<mapsto> p') \<and> port_contents p' = rest \<and> pager_phys_valid phys st' \<and>
    vm_pmm (kvm st') = pm \<and> page_no phys \<notin> pmm_free pm \<and> sched_events st' = sched_events st @ [AddThread tid]"
proof -
  note pi = ports_invD(4) [OF kinvD(2) [OF inv] p(1)]
  have port: "port \<noteq> NULL" using ports_invD(3) [OF kinvD(2) [OF inv], of port] p(1) by auto
  have ne: "queue_count p \<noteq> 0" using q length_port_contents [of p] by auto
  have "msg_wf zero_msg" by (simp add: zero_msg_def msg_wf_def)
  then obtain m t p' where tk: "port_take zero_msg p = Some ((m, t), p')" "port_contents p = (msg_payload m, t) # port_contents p'"
    using port_take_correct [OF conjunct1 [OF pi], of zero_msg] ne by (auto simp: word_gt_0)
  have pay: "msg_id m = IPC_FAULT_REQ" "take (unat (data_size m)) (data m) = fault_req_data obj off prot tid reply"
    using q tk(2) by (auto simp: msg_payload_def fault_req_msg_def fault_req_data_def)
  have req: "req_fault_tid (data m) = tid" by (rule req_fault_tid_data [OF pay(2)])
  have find: "pager_fault_find_by_tid tid ft = Some i" by (rule find_by_tid_first [OF pend(2-5)])
  let ?st1 = "port_update port p' st"
  let ?st2 = "?st1\<lparr>kvm := (kvm ?st1)\<lparr>vm_pmm := pm\<rparr>\<rparr>"
  let ?st3 = "emit [AddThread tid] ?st2"
  have k1: "kvm ?st1 = kvm st" by (simp add: port_update_def)
  have valid: "pager_phys_valid phys ?st2" by (rule alloc_page_phys_valid [OF pg]) simp
  have cast: "(ucast (ucast tid :: u64) :: u32) = tid"
    by (rule bit_word_eqI) (auto simp: bit_simps dest: bit_imp_le_length)
  have nz: "(ucast tid :: u64) \<noteq> 0"
  proof
    assume "(ucast tid :: u64) = 0"
    then have "tid = 0" using cast by simp
    then show False using tid(1) by simp
  qed
  have "port_recv cmem thr NULL port zero_msg st = Some (?st1, IPC_OK, m)"
    using port p ne tk(1) by (simp add: port_recv_def Let_def)
  then have "boot_pager_round cmem thr NULL port (st, ft) = Some (?st3, ft[i := (ft ! i)\<lparr>reply_phys := phys\<rparr>])"
    using pay(1) req pg(2,3) k1 valid cast nz find tid(2)
    by (simp add: boot_pager_round_def vm_pager_handle_reply_def Let_def port_update_def)
  moreover have "page_no phys \<notin> pmm_free pm" using ps.alloc_law [OF pg(1)] pg(2) by auto
  moreover have "pager_phys_valid phys ?st3" using valid by (simp add: pager_phys_valid_def emit_def)
  ultimately show ?thesis
    using q tk(2) by (intro exI [of _ ?st3] exI [of _ p']) (simp add: emit_def port_update_def)
qed

theorem boot_pager_resolves_fault_witness:
  "\<exists>st' phys. boot_pager_round (\<lambda>_ _. no_mem) (Some 2) NULL 0x1000 (fault_sent, fault_of_4) =
      Some (st', fault_of_4[3 := (fault_of_4 ! 3)\<lparr>reply_phys := phys\<rparr>]) \<and> phys \<noteq> NULL \<and> pager_phys_valid phys st'"
proof -
  obtain p where p: "kinv fault_sent" "ports fault_sent 0x1000 = Some p" "magic p = PORT_MAGIC"
    "port_contents p = [(msg_payload (fault_req_msg 0x9000 0 1 4 0), 1)]" "kvm fault_sent = empty_vm" "known_threads fault_sent 4" using fault_sent_facts by auto
  have "map_option (\<lambda>x. snd x \<noteq> NULL) (pmm_alloc_page (vm_pmm empty_vm)) = Some True" by code_simp
  then obtain pm phys where pm: "pmm_alloc_page (vm_pmm (kvm fault_sent)) = Some (pm, phys)" "phys \<noteq> NULL" using p(5) by auto
  have f: "length fault_of_4 = PAGER_FAULTS_MAX" "pf_valid (fault_of_4 ! 3)" "blocked_tid (fault_of_4 ! 3) = 4"
    by code_simp+
  have g: "\<not> (pf_valid (fault_of_4 ! j) \<and> blocked_tid (fault_of_4 ! j) = 4)" if "j < 3" for j
  proof -
    have "list_all (\<lambda>f. \<not> (pf_valid f \<and> blocked_tid f = 4)) (take 3 fault_of_4)" by code_simp
    then show ?thesis using that f(1) by (simp add: list_all_length)
  qed
  have i: "pmm_inv (vm_pmm (kvm fault_sent))" using p(5) pmm_example_inv by (simp add: empty_vm_def)
  from boot_pager_resolves_fault [OF p(1-4) _ p(6) f(1) _ f(2,3) g i pm, of "\<lambda>_ _. no_mem" "Some 2"] pm(2)
  show ?thesis by auto
qed

text \<open>
  C7. A fault that has been answered cannot be completed safely: the slot of the reply port holds the
  port's only reference, the resume path frees the slot first, and the following \<^verbatim>\<open>port_destroy\<close> reads the
  port after it was freed.
\<close>
theorem pager_resume_use_after_free:
  assumes inv: "kinv st" and t: "tasks st cur = Some t" and c: "caps (task_cspace t) (nat (pf_reply_slot pf)) = Some c"
    and port: "cap_type c = CAP_PORT" "object_id c = pf_reply_port pf" "ports st (pf_reply_port pf) = Some p" "ref_count p = 1"
  shows "vm_pager_fault_resume cur pf (st, ft) = None"
proof -
  let ?i = "nat (pf_reply_slot pf)"
  have "0 < ?i" using caps_range [OF kinvD(3) [OF inv t] c] by blast
  then have slot: "int ?i = pf_reply_slot pf" by simp
  obtain cs' st' where f: "cspace_free_slot (task_cspace t) (int ?i) st = Some (cs', st', 0)" "port_release (object_id c) st = Some st'"
    using free_slot_held [OF kinvD(3) [OF inv t] c kinvD(2) [OF inv]] port(1) by auto
  have "ports st' (pf_reply_port pf) = None"
    using port_release_drop(3) [OF kinvD(2) [OF inv] f(2), of "pf_reply_port pf"] port by (simp add: drop_refs_def)
  moreover have "pf_reply_port pf \<noteq> NULL" using ports_invD(3) [OF kinvD(2) [OF inv], of "pf_reply_port pf"] port(3) by auto
  ultimately have "drop_reply_port cur (pf_reply_slot pf) (pf_reply_port pf) st = None"
    using t f(1) slot by (simp add: drop_reply_port_def free_caller_slot_def port_destroy_def put_task_def)
  then show ?thesis by (simp add: vm_pager_fault_resume_def)
qed

theorem pager_resume_use_after_free_witness:
  "vm_pager_fault_resume 0x5000 \<lparr>pf_slot = 3, pf_reply_slot = 1, pf_reply_port = 0x1000\<rparr> (caller_example, fault_of_4) = None"
proof -
  have "tasks caller_example 0x5000 = Some (plain_task 1 caller_cspace)" "ports caller_example 0x1000 = Some example_port" "ref_count example_port = 1"
    by (simp_all add: caller_example_def ipc_example_def example_port_def)
  then show ?thesis
    using pager_resume_use_after_free [OF caller_example_inv, of "0x5000" "plain_task 1 caller_cspace"
        "\<lparr>pf_slot = 3, pf_reply_slot = 1, pf_reply_port = 0x1000\<rparr>" _ example_port] caller_cspace_caps
    by (simp add: plain_task_def)
qed

end
