(* ===== verification/Udiv.thy ===== *)
theory Udiv
  imports Arc_Prelude "HOL-Library.Signed_Division"
begin

unbundle bit_operations_syntax

text \<open>
  The 64-bit division helpers of \<^verbatim>\<open>mk/lib/udivdi3.c\<close>, which the compiler calls on 32-bit targets: a
  shift-and-subtract loop over the quotient's bits.  Signed operands are words read as two's complement;
  the negation of the most negative value overflows, which C leaves undefined (\<open>None\<close>).
\<close>

section \<open>The model\<close>

text \<open>The loop that shifts the divisor up; it does not end for a divisor 0 (\<open>None\<close>).\<close>

partial_function (option) udiv_align :: "u64 \<Rightarrow> u64 \<Rightarrow> u64 \<Rightarrow> (u64 \<times> u64) option" where
  "udiv_align n d b =
     (if d < n \<and> drop_bit 63 d = 0 then udiv_align n (push_bit 1 d) (push_bit 1 b) else Some (d, b))"

lemma drop_bit_1_less: "b \<noteq> 0 \<Longrightarrow> unat (drop_bit 1 b) < unat b" for b :: u64
proof -
  assume "b \<noteq> 0"
  then have "0 < unat b" by (simp add: unat_gt_0)
  moreover have "unat (drop_bit 1 b) = unat b div 2" by (simp add: drop_bit_eq_div unat_div)
  ultimately show ?thesis by simp
qed

function udiv_loop :: "u64 \<Rightarrow> u64 \<Rightarrow> u64 \<Rightarrow> u64 \<Rightarrow> u64 \<times> u64" where
  "udiv_loop n d q b =
     (if b = 0 then (q, n)
      else if n \<ge> d then udiv_loop (n - d) (drop_bit 1 d) (q OR b) (drop_bit 1 b)
      else udiv_loop n (drop_bit 1 d) q (drop_bit 1 b))"
  by pat_completeness auto
termination by (relation "measure (\<lambda>(n, d, q, b). unat b)") (auto intro: drop_bit_1_less [unfolded One_nat_def])

declare udiv_loop.simps [simp del]

definition udiv_qr :: "u64 \<Rightarrow> u64 \<Rightarrow> (u64 \<times> u64) option" where
  "udiv_qr n d =
     (if d = 0 then Some (0, n)
      else do { (d, b) \<leftarrow> udiv_align n d 1; Some (udiv_loop n d 0 b) })"

definition udivdi3 :: "u64 \<Rightarrow> u64 \<Rightarrow> u64 option" where
  "udivdi3 n d = map_option fst (udiv_qr n d)"

text \<open>The remainder is stored when the caller passes a pointer for it.\<close>

definition udivmoddi4 :: "u64 \<Rightarrow> u64 \<Rightarrow> bool \<Rightarrow> (u64 \<times> u64 option) option" where
  "udivmoddi4 n d rem = do { (q, r) \<leftarrow> udiv_qr n d; Some (q, if rem then Some r else None) }"

definition umoddi3 :: "u64 \<Rightarrow> u64 \<Rightarrow> u64 option" where
  "umoddi3 n d = map_option snd (udiv_qr n d)"

definition magnitude :: "u64 \<Rightarrow> u64 option" where
  "magnitude a = (if sint a < 0 then if sint a = - (2 ^ 63) then None else Some (- a) else Some a)"

definition divdi3 :: "u64 \<Rightarrow> u64 \<Rightarrow> u64 option" where
  "divdi3 a b = do {
     let neg = (sint a < 0) \<noteq> (sint b < 0);
     ua \<leftarrow> magnitude a;
     ub \<leftarrow> magnitude b;
     (q, r) \<leftarrow> udiv_qr ua ub;
     Some (if neg then - q else q)
   }"

definition moddi3 :: "u64 \<Rightarrow> u64 \<Rightarrow> u64 option" where
  "moddi3 a b = do {
     ua \<leftarrow> magnitude a;
     ub \<leftarrow> magnitude b;
     (q, r) \<leftarrow> udiv_qr ua ub;
     Some (if sint a < 0 then - r else r)
   }"

section \<open>Shift and subtract divides\<close>

lemma unat_exp_less: "k < 64 \<Longrightarrow> unat (2 ^ k :: u64) = 2 ^ k"
proof -
  assume "k < 64"
  then have "(2 :: nat) ^ k < 2 ^ 64" by (intro power_strict_increasing) simp_all
  then have "unat (of_nat (2 ^ k) :: u64) = 2 ^ k" by (intro unat_of_nat_less) simp
  then show ?thesis by simp
qed

lemma top_bit_iff: "drop_bit 63 d = 0 \<longleftrightarrow> unat d < 2 ^ 63" for d :: u64
proof -
  have "unat (drop_bit 63 d) = unat d div 2 ^ 63" by (simp add: drop_bit_eq_div unat_div)
  then have "drop_bit 63 d = 0 \<longleftrightarrow> unat d div 2 ^ 63 = 0" by (simp add: word_unat_eq_iff)
  then show ?thesis by (simp only: div_eq_0_iff) simp
qed

lemma unat_double: "unat d < 2 ^ 63 \<Longrightarrow> unat (push_bit 1 d) = 2 * unat d" for d :: u64
  by (simp add: push_bit_eq_mult unat_word_ariths)

lemma udiv_align_returns:
  assumes "0 < unat d" and "2 ^ 63 \<le> unat d * 2 ^ m"
  shows "\<exists>d' k. udiv_align n d b = Some (d', push_bit k b) \<and> unat d' = unat d * 2 ^ k \<and> unat n < 2 * unat d'"
  using assms
proof (induction m arbitrary: d b)
  case 0
  then have "\<not> (d < n \<and> drop_bit 63 d = 0)" by (simp add: top_bit_iff)
  then have "udiv_align n d b = Some (d, push_bit 0 b)" by (subst udiv_align.simps) (simp only: if_False push_bit_0_id id_apply)
  moreover have "unat n < 2 * unat d" using 0 unat_u64_less [of n] by simp
  ultimately show ?case by (intro exI [of _ d] exI [of _ 0]) simp
next
  case (Suc m)
  show ?case
  proof (cases "d < n \<and> drop_bit 63 d = 0")
    case True
    then have d2: "unat (push_bit 1 d) = 2 * unat d" using unat_double top_bit_iff by blast
    then obtain d' k where "udiv_align n (push_bit 1 d) (push_bit 1 b) = Some (d', push_bit k (push_bit 1 b))"
      "unat d' = unat (push_bit 1 d) * 2 ^ k" "unat n < 2 * unat d'"
      using Suc.IH [of "push_bit 1 d" "push_bit 1 b"] Suc.prems by (auto simp: ac_simps)
    moreover from this(1) have "udiv_align n d b = Some (d', push_bit (Suc k) b)"
      using True by (subst udiv_align.simps) (simp add: push_bit_push_bit)
    ultimately show ?thesis using d2 by (intro exI [of _ d'] exI [of _ "Suc k"]) simp
  next
    case False
    then have "udiv_align n d b = Some (d, push_bit 0 b)" by (subst udiv_align.simps) (simp only: if_False push_bit_0_id id_apply)
    moreover have "unat n < 2 * unat d"
      using False Suc.prems(1) unat_u64_less [of n] by (auto simp: top_bit_iff word_less_nat_alt)
    ultimately show ?thesis by (intro exI [of _ d] exI [of _ 0]) simp
  qed
qed

lemma drop_push_bit: "k < 64 \<Longrightarrow> drop_bit 1 (push_bit (Suc k) 1 :: u64) = push_bit k 1" if "Suc k < 64"
  using that by (intro bit_word_eqI) (auto simp: bit_simps)

lemma unat_or_new_bit:
  fixes q :: u64
  assumes "\<not> bit q k" and "k < 64"
  shows "unat (q OR push_bit k 1) = unat q + 2 ^ k"
proof -
  have p: "unat (push_bit k 1 :: u64) = 2 ^ k" using assms(2) by (simp add: push_bit_eq_mult unat_exp_less)
  have "unat (q OR push_bit k 1) = unat q OR unat (push_bit k 1 :: u64)" by (simp only: unsigned_or_eq)
  also have "\<dots> = unat q OR 2 ^ k" by (simp only: p)
  also have "\<dots> = unat q + 2 ^ k"
    by (rule disjunctive_add [symmetric]) (use assms in \<open>auto simp: bit_exp_iff bit_unsigned_iff\<close>)
  finally show ?thesis .
qed

lemma udiv_loop_correct:
  assumes "0 < D" and "unat d = D * 2 ^ k" and "unat n < 2 * (D * 2 ^ k)" and "\<And>i. i \<le> k \<Longrightarrow> \<not> bit q i" and "k < 64"
  shows "unat (fst (udiv_loop n d q (push_bit k 1))) = unat q + unat n div D \<and> unat (snd (udiv_loop n d q (push_bit k 1))) = unat n mod D"
  using assms(2-5)
proof (induction k arbitrary: n d q)
  case 0
  have z: "drop_bit 1 (1 :: u64) = 0" by (rule bit_word_eqI) (simp add: bit_simps)
  have u: "udiv_loop n d q (push_bit 0 1) = (if n \<ge> d then (q OR 1, n - d) else (q, n))"
    by (simp add: udiv_loop.simps [of n d q 1] udiv_loop.simps [of _ _ _ 0] z)
  show ?case
  proof (cases "n \<ge> d")
    case True
    then have "unat (n - d) = unat n - D" "D \<le> unat n" using 0 by (simp_all add: unat_sub word_le_nat_alt)
    moreover have "unat n div D = 1" "unat n mod D = unat n - D"
      using calculation(2) 0(2) assms(1) by (simp_all add: div_nat_eqI mod_if le_mod_geq)
    ultimately show ?thesis using u True unat_or_new_bit [of q 0] 0(3) by simp
  next
    case False
    then show ?thesis using u 0 by (simp add: word_le_nat_alt)
  qed
next
  case (Suc k)
  have dd: "unat (drop_bit 1 d) = D * 2 ^ k" using Suc.prems(1) by (simp add: drop_bit_eq_div unat_div)
  have b: "drop_bit 1 (push_bit (Suc k) 1 :: u64) = push_bit k 1" using drop_push_bit [of k] Suc.prems(4) by simp
  have "unat (push_bit (Suc k) 1 :: u64) \<noteq> 0" using unat_exp_less [of "Suc k"] Suc.prems(4) by (simp add: push_bit_eq_mult)
  then have nz: "(push_bit (Suc k) 1 :: u64) \<noteq> 0" by (metis unat_0)
  show ?case
  proof (cases "n \<ge> d")
    case True
    then have n: "unat (n - d) = unat n - D * 2 ^ Suc k" "D * 2 ^ Suc k \<le> unat n"
      using Suc.prems(1) by (simp_all add: unat_sub word_le_nat_alt)
    have q: "unat (q OR push_bit (Suc k) 1) = unat q + 2 ^ Suc k" by (rule unat_or_new_bit) (use Suc.prems in auto)
    have "\<not> bit (q OR push_bit (Suc k) 1) i" if "i \<le> k" for i using that Suc.prems(3) [of i] by (simp add: bit_or_iff bit_push_bit_iff del: push_bit_of_1)
    then have IH: "unat (fst (udiv_loop (n - d) (drop_bit 1 d) (q OR push_bit (Suc k) 1) (push_bit k 1))) =
        unat (q OR push_bit (Suc k) 1) + unat (n - d) div D"
      "unat (snd (udiv_loop (n - d) (drop_bit 1 d) (q OR push_bit (Suc k) 1) (push_bit k 1))) = unat (n - d) mod D"
      using Suc.IH [OF dd, of "n - d" "q OR push_bit (Suc k) 1"] Suc.prems n by auto
    have "unat n = (unat n - D * 2 ^ Suc k) + 2 ^ Suc k * D" using n(2) by (simp add: mult.commute)
    then have "unat n div D = 2 ^ Suc k + (unat n - D * 2 ^ Suc k) div D" "unat n mod D = (unat n - D * 2 ^ Suc k) mod D"
      using assms(1) by (metis div_mult_self3 add.commute less_not_refl, metis mod_mult_self1)
    then show ?thesis using IH q n(1) True nz b by (simp add: udiv_loop.simps [of n d q])
  next
    case False
    then have "unat n < 2 * (D * 2 ^ k)" using Suc.prems(1) by (simp add: word_le_nat_alt)
    then show ?thesis
      using Suc.IH [OF dd, of n q] Suc.prems(3,4) False nz b by (simp add: udiv_loop.simps [of n d q])
  qed
qed

lemma udiv_align_shift: "udiv_align n d 1 = Some (d', push_bit k 1) \<Longrightarrow> 0 < unat d \<Longrightarrow> unat d' = unat d * 2 ^ k \<Longrightarrow> k < 64"
proof -
  assume "0 < unat d" "unat d' = unat d * 2 ^ k"
  then have "2 ^ k \<le> unat d'" by simp
  also have "unat d' < 2 ^ 64" using unat_u64_less [of d'] by simp
  finally have "(2 :: nat) ^ k < 2 ^ 64" .
  then show "k < 64" by (rule power_less_imp_less_exp [rotated]) simp
qed

text \<open>The common form of the results below: the routine returns, with quotient and remainder.\<close>

lemma udiv_qr_effect:
  assumes "d \<noteq> 0"
  shows "udiv_qr n d = Some (n div d, n mod d)"
proof -
  have d: "0 < unat d" using assms by (simp add: unat_gt_0)
  then have "2 ^ 63 \<le> unat d * 2 ^ 63" by simp
  from udiv_align_returns [OF d this, of n 1] obtain d' k where
    a: "udiv_align n d 1 = Some (d', push_bit k 1)" "unat d' = unat d * 2 ^ k" "unat n < 2 * unat d'" by blast
  have "unat (fst (udiv_loop n d' 0 (push_bit k 1))) = unat (0 :: u64) + unat n div unat d \<and>
      unat (snd (udiv_loop n d' 0 (push_bit k 1))) = unat n mod unat d"
    by (rule udiv_loop_correct) (use d a udiv_align_shift [OF a(1) d a(2)] in auto)
  then have "udiv_loop n d' 0 (push_bit k 1) = (n div d, n mod d)"
    by (simp add: prod_eq_iff word_unat_eq_iff unat_div unat_mod)
  then show ?thesis using assms a(1) by (simp add: udiv_qr_def)
qed

text \<open>
  C30. The division routines that the compiler calls for 64-bit integers on 32-bit targets compute what the
  division operators mean.  For every divisor other than 0 the alignment loop ends and the shift-and-subtract
  loop gives the exact quotient and remainder; a remainder is stored only through a pointer that is not
  null.  A divisor 0 does not trap: the quotient is 0 and the remainder the dividend.
\<close>

theorem udiv_routines_correct:
  "(d \<noteq> 0 \<longrightarrow> udivdi3 n d = Some (n div d) \<and> umoddi3 n d = Some (n mod d) \<and>
     udivmoddi4 n d rem = Some (n div d, if rem then Some (n mod d) else None)) \<and>
   udivdi3 n 0 = Some 0 \<and> umoddi3 n 0 = Some n"
  by (auto simp: udivdi3_def umoddi3_def udivmoddi4_def udiv_qr_effect) (simp_all add: udiv_qr_def)

theorem udiv_routines_correct_witness:
  "udivdi3 1000000000007 10 = Some 100000000000 \<and> umoddi3 1000000000007 10 = Some 7"
  using udiv_routines_correct [of 10 1000000000007 False] by simp

section \<open>Signed operands\<close>

lemma magnitude_abs:
  assumes "sint a \<noteq> - (2 ^ 63)"
  shows "magnitude a = Some (word_of_int \<bar>sint a\<bar>)"
  using assms by (simp add: magnitude_def abs_if of_int_minus)

lemma uint_magnitude: "uint (word_of_int \<bar>sint a\<bar> :: u64) = \<bar>sint a\<bar>" for a :: u64
  using sint_greater_eq [of a] sint_less [of a] by (simp add: uint_word_of_int_eq take_bit_int_eq_self)

lemma udiv_qr_magnitude:
  fixes a b :: u64
  assumes "b \<noteq> 0"
  shows "udiv_qr (word_of_int \<bar>sint a\<bar>) (word_of_int \<bar>sint b\<bar>) =
    Some (word_of_int (\<bar>sint a\<bar> div \<bar>sint b\<bar>), word_of_int (\<bar>sint a\<bar> mod \<bar>sint b\<bar>))"
proof -
  have "(word_of_int \<bar>sint b\<bar> :: u64) \<noteq> 0"
    using assms uint_magnitude [of b] by (metis abs_eq_0 signed_eq_0_iff unsigned_0)
  then show ?thesis
    by (simp add: udiv_qr_effect word_div_def word_mod_def uint_magnitude)
qed

text \<open>
  C31. The signed division routines truncate towards zero, as C demands: unless the divisor is 0 or an
  operand is the most negative number, they return the signed quotient and a remainder with the sign of the
  dividend.  With the most negative number as the dividend the negation overflows.
\<close>

theorem signed_division_truncates:
  assumes "b \<noteq> 0" and "sint a \<noteq> - (2 ^ 63)" and "sint b \<noteq> - (2 ^ 63)"
  shows "divdi3 a b = Some (word_of_int (sint a sdiv sint b)) \<and>
    moddi3 a b = Some (word_of_int (sint a smod sint b)) \<and>
    divdi3 (- (2 ^ 63)) b = None"
proof (intro conjI)
  note qr = udiv_qr_magnitude [OF assms(1), of a] and ab = magnitude_abs [OF assms(2)] magnitude_abs [OF assms(3)]
  have nb: "sint b \<noteq> 0" using assms(1) by (metis signed_eq_0_iff)
  have "divdi3 a b = Some (if (sint a < 0) \<noteq> (sint b < 0) then - word_of_int (\<bar>sint a\<bar> div \<bar>sint b\<bar>)
      else word_of_int (\<bar>sint a\<bar> div \<bar>sint b\<bar>))"
    by (simp only: divdi3_def qr ab Let_def bind.bind_lunit split_beta fst_conv)
  then show "divdi3 a b = Some (word_of_int (sint a sdiv sint b))"
    using nb by (auto simp: signed_divide_int_def sgn_if)
  have "moddi3 a b = Some (if sint a < 0 then - word_of_int (\<bar>sint a\<bar> mod \<bar>sint b\<bar>) else word_of_int (\<bar>sint a\<bar> mod \<bar>sint b\<bar>))"
    by (simp only: moddi3_def qr ab bind.bind_lunit split_beta snd_conv)
  then show "moddi3 a b = Some (word_of_int (sint a smod sint b))"
    by (auto simp: signed_modulo_int_def sgn_if)
  show "divdi3 (- (2 ^ 63)) b = None" by (simp add: divdi3_def magnitude_def)
qed

theorem signed_division_truncates_witness:
  "divdi3 (- 7) 2 = Some (- 3) \<and> moddi3 (- 7) 2 = Some (- 1)"
  using signed_division_truncates [of 2 "- 7"] by (simp add: signed_divide_int_def signed_modulo_int_def)

end
