(* ===== verification/KStrings.thy ===== *)
theory KStrings
  imports Arc_Prelude
begin

text \<open>
  The memory and string routines of \<^verbatim>\<open>mk/lib/string.c\<close> over a byte memory.  Loops with a length are
  folds over their indices in the order the code visits them; loops that run up to a terminating zero byte
  are partial functions, \<open>None\<close> when they never end.  Signed overflow in the number parsers is undefined
  (\<open>None\<close>).  The comparisons with character constants hold for no byte above 127 whether the type
  \<^verbatim>\<open>char\<close> is signed or not.
\<close>

section \<open>The model\<close>

type_synonym memory = "u64 \<Rightarrow> u8"

definition copy_byte :: "u64 \<Rightarrow> u64 \<Rightarrow> nat \<Rightarrow> memory \<Rightarrow> memory" where
  "copy_byte dest src i m = m(dest + of_nat i := m (src + of_nat i))"

definition memcpy :: "memory \<Rightarrow> u64 \<Rightarrow> u64 \<Rightarrow> u64 \<Rightarrow> memory" where
  "memcpy m dest src n = fold (copy_byte dest src) [0..<unat n] m"

definition memset :: "memory \<Rightarrow> u64 \<Rightarrow> u32 \<Rightarrow> u64 \<Rightarrow> memory" where
  "memset m s c n = fold (\<lambda>i m. m(s + of_nat i := ucast c)) [0..<unat n] m"

definition memmove :: "memory \<Rightarrow> u64 \<Rightarrow> u64 \<Rightarrow> u64 \<Rightarrow> memory" where
  "memmove m dest src n =
     (if dest \<le> src then fold (copy_byte dest src) [0..<unat n] m
      else fold (copy_byte dest src) (rev [0..<unat n]) m)"

definition byte_diff :: "u8 \<Rightarrow> u8 \<Rightarrow> int" where
  "byte_diff a b = uint a - uint b"

definition memcmp :: "memory \<Rightarrow> u64 \<Rightarrow> u64 \<Rightarrow> u64 \<Rightarrow> int" where
  "memcmp m s1 s2 n =
     (case List.find (\<lambda>i. m (s1 + of_nat i) \<noteq> m (s2 + of_nat i)) [0..<unat n] of
        Some i \<Rightarrow> byte_diff (m (s1 + of_nat i)) (m (s2 + of_nat i))
      | None \<Rightarrow> 0)"

subsection \<open>Number parsers\<close>

definition is_digit :: "u8 \<Rightarrow> bool" where
  "is_digit c \<longleftrightarrow> 0x30 \<le> c \<and> c \<le> 0x39"

text \<open>The value of a signed expression of \<open>w\<close> bits, if it does not overflow.\<close>

definition in_signed :: "nat \<Rightarrow> int \<Rightarrow> int option" where
  "in_signed w x = (if - (2 ^ (w - 1)) \<le> x \<and> x < 2 ^ (w - 1) then Some x else None)"

partial_function (option) atoi_blanks :: "memory \<Rightarrow> u64 \<Rightarrow> u64 option" where
  "atoi_blanks m s = (if m s = 0x20 \<or> m s = 0x09 then atoi_blanks m (s + 1) else Some s)"

definition skip_sign :: "memory \<Rightarrow> u64 \<Rightarrow> bool \<times> u64" where
  "skip_sign m s = (if m s = 0x2D then (True, s + 1) else if m s = 0x2B then (False, s + 1) else (False, s))"

partial_function (option) atoi_digits :: "memory \<Rightarrow> u64 \<Rightarrow> int \<Rightarrow> int option" where
  "atoi_digits m s n =
     (if is_digit (m s)
      then do { n \<leftarrow> in_signed 32 (n * 10 + (uint (m s) - 0x30)); atoi_digits m (s + 1) n }
      else Some n)"

definition atoi :: "memory \<Rightarrow> u64 \<Rightarrow> int option" where
  "atoi m s = do {
     s \<leftarrow> atoi_blanks m s;
     let (neg, s) = skip_sign m s;
     n \<leftarrow> atoi_digits m s 0;
     Some (n * (if neg then - 1 else 1))
   }"

partial_function (option) strtol_blanks :: "memory \<Rightarrow> u64 \<Rightarrow> u64 option" where
  "strtol_blanks m s = (if m s = 0x20 \<or> 0x09 \<le> m s \<and> m s \<le> 0x0D then strtol_blanks m (s + 1) else Some s)"

definition hex_prefix :: "memory \<Rightarrow> u64 \<Rightarrow> bool" where
  "hex_prefix m s \<longleftrightarrow> m s = 0x30 \<and> (m (s + 1) = 0x78 \<or> m (s + 1) = 0x58) \<and>
     (is_digit (m (s + 2)) \<or> 0x61 \<le> m (s + 2) \<and> m (s + 2) \<le> 0x66 \<or> 0x41 \<le> m (s + 2) \<and> m (s + 2) \<le> 0x46)"

definition strtol_digit :: "u8 \<Rightarrow> int option" where
  "strtol_digit c =
     (if is_digit c then Some (uint c - 0x30)
      else if 0x61 \<le> c \<and> c \<le> 0x7A then Some (uint c - 0x61 + 10)
      else if 0x41 \<le> c \<and> c \<le> 0x5A then Some (uint c - 0x41 + 10)
      else None)"

partial_function (option) strtol_digits :: "memory \<Rightarrow> u64 \<Rightarrow> int \<Rightarrow> int \<Rightarrow> (int \<times> u64) option" where
  "strtol_digits m s base n =
     (case strtol_digit (m s) of
        None \<Rightarrow> Some (n, s)
      | Some d \<Rightarrow>
          if d \<ge> base then Some (n, s)
          else do { n \<leftarrow> in_signed 64 (n * base + d); strtol_digits m (s + 1) base n })"

text \<open>The second result is what is stored through \<^verbatim>\<open>endptr\<close> when it is not null.\<close>

definition strtol :: "memory \<Rightarrow> u64 \<Rightarrow> int \<Rightarrow> (int \<times> u64) option" where
  "strtol m s base =
     (if base \<noteq> 0 \<and> (base < 2 \<or> base > 36) then Some (0, s)
      else do {
        s \<leftarrow> strtol_blanks m s;
        let (neg, s) = skip_sign m s;
        let (s, base) = (if (base = 0 \<or> base = 16) \<and> hex_prefix m s then (s + 2, 16) else (s, base));
        let base = (if base = 0 then if m s = 0x30 then 8 else 10 else base);
        (n, s) \<leftarrow> strtol_digits m s base 0;
        Some (if neg then - n else n, s)
      })"

subsection \<open>Zero-terminated strings\<close>

partial_function (option) strlen_from :: "memory \<Rightarrow> u64 \<Rightarrow> u64 \<Rightarrow> u64 option" where
  "strlen_from m s len = (if m (s + len) \<noteq> 0 then strlen_from m s (len + 1) else Some len)"

definition strlen :: "memory \<Rightarrow> u64 \<Rightarrow> u64 option" where
  "strlen m s = strlen_from m s 0"

partial_function (option) strcmp :: "memory \<Rightarrow> u64 \<Rightarrow> u64 \<Rightarrow> int option" where
  "strcmp m s1 s2 =
     (if m s1 \<noteq> 0 \<and> m s1 = m s2 then strcmp m (s1 + 1) (s2 + 1) else Some (byte_diff (m s1) (m s2)))"

primrec strncmp_loop :: "memory \<Rightarrow> u64 \<Rightarrow> u64 \<Rightarrow> nat list \<Rightarrow> int" where
  "strncmp_loop m s1 s2 [] = 0"
| "strncmp_loop m s1 s2 (i # is) =
     (if m (s1 + of_nat i) \<noteq> m (s2 + of_nat i) then byte_diff (m (s1 + of_nat i)) (m (s2 + of_nat i))
      else if m (s1 + of_nat i) = 0 then 0
      else strncmp_loop m s1 s2 is)"

definition strncmp :: "memory \<Rightarrow> u64 \<Rightarrow> u64 \<Rightarrow> u64 \<Rightarrow> int" where
  "strncmp m s1 s2 n = strncmp_loop m s1 s2 [0..<unat n]"

partial_function (option) copy_string :: "memory \<Rightarrow> u64 \<Rightarrow> u64 \<Rightarrow> memory option" where
  "copy_string m d s =
     (let m' = m(d := m s) in if m s \<noteq> 0 then copy_string m' (d + 1) (s + 1) else Some m')"

definition strcpy :: "memory \<Rightarrow> u64 \<Rightarrow> u64 \<Rightarrow> memory option" where
  "strcpy m dest src = copy_string m dest src"

primrec strncpy_copy :: "memory \<Rightarrow> u64 \<Rightarrow> u64 \<Rightarrow> nat list \<Rightarrow> memory \<times> nat list" where
  "strncpy_copy m dest src [] = (m, [])"
| "strncpy_copy m dest src (i # is) =
     (if m (src + of_nat i) \<noteq> 0 then strncpy_copy (copy_byte dest src i m) dest src is else (m, i # is))"

definition strncpy :: "memory \<Rightarrow> u64 \<Rightarrow> u64 \<Rightarrow> u64 \<Rightarrow> memory" where
  "strncpy m dest src n =
     (let (m, rest) = strncpy_copy m dest src [0..<unat n]
      in fold (\<lambda>i m. m(dest + of_nat i := 0)) rest m)"

partial_function (option) string_end :: "memory \<Rightarrow> u64 \<Rightarrow> u64 option" where
  "string_end m d = (if m d \<noteq> 0 then string_end m (d + 1) else Some d)"

definition strcat :: "memory \<Rightarrow> u64 \<Rightarrow> u64 \<Rightarrow> memory option" where
  "strcat m dest src = do { d \<leftarrow> string_end m dest; copy_string m d src }"

section \<open>Block moves\<close>

text \<open>The memory after a simultaneous copy of \<open>n\<close> bytes.\<close>

definition copied :: "memory \<Rightarrow> u64 \<Rightarrow> u64 \<Rightarrow> nat \<Rightarrow> memory" where
  "copied m dest src n = (\<lambda>a. if unat (a - dest) < n then m (src + (a - dest)) else m a)"

lemma offset_eq_iff:
  fixes a dest :: u64
  assumes "k < 2 ^ 64"
  shows "a = dest + of_nat k \<longleftrightarrow> unat (a - dest) = k"
proof -
  have "a = dest + of_nat k \<longleftrightarrow> a - dest = of_nat k" by (auto simp: algebra_simps)
  also have "\<dots> \<longleftrightarrow> unat (a - dest) = k" using assms by (simp add: word_unat_eq_iff unat_of_nat_less)
  finally show ?thesis .
qed

lemma copied_Suc:
  assumes "k < 2 ^ 64"
  shows "copied m dest src (Suc k) = (copied m dest src k)(dest + of_nat k := m (src + of_nat k))"
proof
  fix a
  show "copied m dest src (Suc k) a = ((copied m dest src k)(dest + of_nat k := m (src + of_nat k))) a"
  proof (cases "a = dest + of_nat k")
    case True
    then have "unat (a - dest) = k" using offset_eq_iff [OF assms] by simp
    then show ?thesis using True by (simp add: copied_def)
  next
    case False
    then have "unat (a - dest) \<noteq> k" using offset_eq_iff [OF assms] by simp
    then show ?thesis using False by (simp add: copied_def less_Suc_eq)
  qed
qed

lemma copy_forward:
  assumes "\<And>k. k < n \<Longrightarrow> k \<le> unat (src + of_nat k - dest)" and "n \<le> 2 ^ 64"
  shows "fold (copy_byte dest src) [0..<n] m = copied m dest src n"
  using assms
proof (induction n)
  case 0
  then show ?case by (simp add: copied_def)
next
  case (Suc n)
  have n: "n < 2 ^ 64" using Suc.prems by simp
  have "copied m dest src n (src + of_nat n) = m (src + of_nat n)"
    using Suc.prems(1) [of n] by (simp add: copied_def)
  then have "copy_byte dest src n (copied m dest src n) = copied m dest src (Suc n)"
    by (simp only: copied_Suc [OF n] copy_byte_def)
  then show ?case using Suc by simp
qed

lemma unat_offset: "unat src + k < 2 ^ 64 \<Longrightarrow> unat (src + of_nat k) = unat src + k" for src :: u64
  by (subst unat_add_less) (simp_all add: unat_of_nat_less)

lemma forward_from_above:
  fixes src dest :: u64
  assumes "dest \<le> src" and "unat src + k < 2 ^ 64"
  shows "k \<le> unat (src + of_nat k - dest)"
proof -
  have "dest \<le> src + of_nat k" using assms unat_offset [OF assms(2)] by (simp add: word_le_nat_alt)
  then show ?thesis using assms unat_offset [OF assms(2)] by (simp add: unat_sub word_le_nat_alt)
qed

lemma forward_from_below:
  fixes src dest :: u64
  assumes "unat src + k < unat dest" and "unat dest + k < 2 ^ 64"
  shows "k \<le> unat (src + of_nat k - dest)"
proof -
  have u: "unat (src + of_nat k) = unat src + k" using assms by (intro unat_offset) simp
  then have "src + of_nat k < dest" using assms(1) by (simp add: word_less_nat_alt)
  then have "unat (src + of_nat k - dest) = 2 ^ 64 + (unat src + k) - unat dest"
    using u unat_u64_less [of dest] by (simp add: unat_sub_if' word_less_nat_alt)
  then show ?thesis using assms by simp
qed

lemma copy_backward:
  assumes "src < dest" and "unat dest + n \<le> 2 ^ 64"
  shows "fold (copy_byte dest src) (rev [0..<n]) m = copied m dest src n"
  using assms(2)
proof (induction n arbitrary: m)
  case 0
  then show ?case by (simp add: copied_def)
next
  case (Suc n)
  have n: "n < 2 ^ 64" using Suc.prems by simp
  let ?m = "m(dest + of_nat n := m (src + of_nat n))"
  have "copied ?m dest src n a = ((copied m dest src n)(dest + of_nat n := m (src + of_nat n))) a" for a
  proof (cases "unat (a - dest) < n")
    case True
    have "unat (src + (a - dest)) \<le> unat src + unat (a - dest)" by (simp add: unat_word_ariths)
    then have "unat (src + (a - dest)) < unat dest + n" using True assms(1) by (simp add: word_less_nat_alt)
    moreover have "unat (dest + of_nat n) = unat dest + n"
      using Suc.prems n by (subst unat_add_less) (simp_all add: unat_of_nat_less)
    ultimately have "src + (a - dest) \<noteq> dest + of_nat n" by (metis less_irrefl)
    moreover have "a \<noteq> dest + of_nat n" using True offset_eq_iff [OF n] by auto
    ultimately show ?thesis using True by (simp add: copied_def)
  qed (simp add: copied_def)
  then have "copied ?m dest src n = copied m dest src (Suc n)" unfolding copied_Suc [OF n] by (rule ext)
  moreover have "copy_byte dest src n m = ?m" by (simp only: copy_byte_def)
  ultimately show ?case using Suc by simp
qed

text \<open>
  C33. A block move copies as if all source bytes were read first, however the two ranges overlap: byte
  \<open>a\<close> of the destination range becomes the old byte at the same offset of the source range, and no other
  byte changes.  A block copy does the same when the destination starts at or below the source or behind
  its end.  Neither range may wrap around the end of the address space.
\<close>

theorem memmove_correct:
  assumes "unat dest + unat n \<le> 2 ^ 64" and "unat src + unat n \<le> 2 ^ 64"
  shows "memmove m dest src n a = (if unat (a - dest) < unat n then m (src + (a - dest)) else m a) \<and>
    (dest \<le> src \<or> unat src + unat n \<le> unat dest \<longrightarrow> memcpy m dest src n = memmove m dest src n)"
proof -
  have up: "fold (copy_byte dest src) [0..<unat n] m = copied m dest src (unat n)" if "dest \<le> src"
    using assms that unat_u64_less [of n] by (intro copy_forward forward_from_above) simp_all
  have down: "fold (copy_byte dest src) (rev [0..<unat n]) m = copied m dest src (unat n)" if "\<not> dest \<le> src"
    using assms that by (intro copy_backward) simp_all
  have apart: "fold (copy_byte dest src) [0..<unat n] m = copied m dest src (unat n)"
    if "unat src + unat n \<le> unat dest"
    using assms that unat_u64_less [of n] by (intro copy_forward forward_from_below) simp_all
  have mv: "memmove m dest src n = copied m dest src (unat n)"
    using up down by (cases "dest \<le> src") (simp_all add: memmove_def)
  moreover have "memcpy m dest src n = copied m dest src (unat n)"
    if "dest \<le> src \<or> unat src + unat n \<le> unat dest"
    using that up apart unfolding memcpy_def by blast
  ultimately show ?thesis by (simp add: copied_def)
qed

theorem memmove_correct_witness:
  "map (memmove ((\<lambda>_. 0)(8 := 1, 9 := 2, 10 := 3)) 9 8 3) [8, 9, 10, 11, 12] = [1, 1, 2, 3, 0]"
  using memmove_correct [of 9 3 8 "(\<lambda>_. 0)(8 := 1, 9 := 2, 10 := 3)"] by (simp add: unsigned_minus_1_eq_mask mask_eq_exp_minus_1)

section \<open>Strings in memory\<close>

text \<open>The bytes \<open>xs\<close> stand at address \<open>s\<close>; a string is followed by a zero byte and contains none.\<close>

primrec bytes_at :: "memory \<Rightarrow> u64 \<Rightarrow> u8 list \<Rightarrow> bool" where
  "bytes_at m s [] \<longleftrightarrow> True"
| "bytes_at m s (x # xs) \<longleftrightarrow> m s = x \<and> bytes_at m (s + 1) xs"

definition string_at :: "memory \<Rightarrow> u64 \<Rightarrow> u8 list \<Rightarrow> bool" where
  "string_at m s xs \<longleftrightarrow> 0 \<notin> set xs \<and> bytes_at m s (xs @ [0])"

lemma string_at_Nil [simp]: "string_at m s [] \<longleftrightarrow> m s = 0"
  by (simp add: string_at_def)

lemma string_at_Cons [simp]: "string_at m s (x # xs) \<longleftrightarrow> x \<noteq> 0 \<and> m s = x \<and> string_at m (s + 1) xs"
  by (auto simp: string_at_def)

lemma strlen_from_string: "string_at m (s + len) xs \<Longrightarrow> strlen_from m s len = Some (len + of_nat (length xs))"
  by (induction xs arbitrary: len) (subst strlen_from.simps, simp add: ac_simps)+

lemma strlen_string: "string_at m s xs \<Longrightarrow> strlen m s = Some (of_nat (length xs))"
  using strlen_from_string [of m s 0] by (simp add: strlen_def)

lemma string_end_string: "string_at m d xs \<Longrightarrow> string_end m d = Some (d + of_nat (length xs))"
  by (induction xs arbitrary: d) (subst string_end.simps, simp add: ac_simps)+

lemma byte_diff_less [simp]: "byte_diff a b < 0 \<longleftrightarrow> a < b" "byte_diff a b = 0 \<longleftrightarrow> a = b"
  by (simp_all add: byte_diff_def word_less_def word_uint_eq_iff)

lemma strcmp_string:
  assumes "string_at m s1 xs" and "string_at m s2 ys"
  shows "\<exists>r. strcmp m s1 s2 = Some r \<and> (r = 0 \<longleftrightarrow> xs = ys) \<and> (r < 0 \<longleftrightarrow> ord_class.lexordp xs ys)"
  using assms
proof (induction xs arbitrary: ys s1 s2)
  case Nil
  then show ?case by (cases ys) (auto simp: strcmp.simps [of m s1 s2] word_neq_0_conv)
next
  case step: (Cons x xs)
  show ?case
  proof (cases ys)
    case Nil
    then show ?thesis using step.prems by (auto simp: strcmp.simps [of m s1 s2])
  next
    case (Cons y zs)
    then show ?thesis
      using step.prems step.IH [of "s1 + 1" "s2 + 1" zs]
      by (cases "x = y") (auto simp: strcmp.simps [of m s1 s2])
  qed
qed

text \<open>
  C34. String comparison is the lexicographic order of the bytes read as unsigned numbers: for any two
  zero-terminated strings it returns, with zero exactly for equal strings and a negative number exactly when
  the first comes before the second.  The length of a string is found as well.
\<close>

theorem strcmp_lexicographic:
  assumes "string_at m s1 xs" and "string_at m s2 ys"
  shows "strlen m s1 = Some (of_nat (length xs)) \<and>
    (\<exists>r. strcmp m s1 s2 = Some r \<and> (r = 0 \<longleftrightarrow> xs = ys) \<and> (r < 0 \<longleftrightarrow> ord_class.lexordp xs ys))"
  using strlen_string [OF assms(1)] strcmp_string [OF assms] by blast

theorem strcmp_lexicographic_witness:
  "\<exists>r. strcmp ((\<lambda>_. 0)(8 := 97, 9 := 200, 16 := 97, 17 := 98)) 8 16 = Some r \<and> \<not> r < 0"
  using strcmp_lexicographic [of "(\<lambda>_. 0)(8 := 97, 9 := 200, 16 := 97, 17 := 98)" 8 "[97, 200]" 16 "[97, 98]"] by force

lemma bytes_at_append: "bytes_at m s (xs @ ys) \<longleftrightarrow> bytes_at m s xs \<and> bytes_at m (s + of_nat (length xs)) ys"
  by (induction xs arbitrary: s) (simp_all add: ac_simps)

lemma string_at_unique: "string_at m s xs \<Longrightarrow> string_at m s ys \<Longrightarrow> xs = ys"
proof (induction xs arbitrary: ys s)
  case Nil
  then show ?case by (cases ys) simp_all
next
  case (Cons x xs)
  then show ?case by (cases ys) auto
qed

section \<open>Numbers in memory\<close>

text \<open>A number written with digits below \<open>base\<close>, most significant first.\<close>

definition digit_bytes :: "int \<Rightarrow> u8 list \<Rightarrow> bool" where
  "digit_bytes base bs \<longleftrightarrow> (\<forall>b \<in> set bs. \<exists>d. strtol_digit b = Some d \<and> 0 \<le> d \<and> d < base)"

definition digits_value :: "int \<Rightarrow> u8 list \<Rightarrow> int \<Rightarrow> int" where
  "digits_value base bs n = foldl (\<lambda>n b. n * base + the (strtol_digit b)) n bs"

lemma digit_bytes_simps [simp]:
  "digit_bytes base []"
  "digit_bytes base (b # bs) \<longleftrightarrow> (\<exists>d. strtol_digit b = Some d \<and> 0 \<le> d \<and> d < base) \<and> digit_bytes base bs"
  "digit_bytes base (xs @ ys) \<longleftrightarrow> digit_bytes base xs \<and> digit_bytes base ys"
  by (auto simp: digit_bytes_def)

lemma digits_value_simps [simp]:
  "digits_value base [] n = n"
  "digits_value base (b # bs) n = digits_value base bs (n * base + the (strtol_digit b))"
  "digits_value base (xs @ ys) n = digits_value base ys (digits_value base xs n)"
  by (simp_all add: digits_value_def)

lemma digits_value_mono: "digit_bytes base bs \<Longrightarrow> 1 \<le> base \<Longrightarrow> 0 \<le> n \<Longrightarrow> n \<le> digits_value base bs n"
proof (induction bs arbitrary: n)
  case (Cons b bs)
  then obtain d where d: "strtol_digit b = Some d" "0 \<le> d" by auto
  have "n * 1 \<le> n * base" using Cons.prems by (intro mult_left_mono) simp_all
  then have "n \<le> n * base + d" using d by simp
  also have "\<dots> \<le> digits_value base bs (n * base + d)" using Cons.IH [of "n * base + d"] Cons.prems d by simp
  finally show ?case using d by simp
qed simp

lemma strtol_digits_value:
  assumes "digit_bytes base bs" "1 \<le> base" "0 \<le> n" "digits_value base bs n < 2 ^ 63" "bytes_at m s (bs @ [0])"
  shows "strtol_digits m s base n = Some (digits_value base bs n, s + of_nat (length bs))"
  using assms
proof (induction bs arbitrary: n s)
  case Nil
  then show ?case by (subst strtol_digits.simps) (simp add: strtol_digit_def is_digit_def)
next
  case (Cons b bs)
  then obtain d where d: "strtol_digit b = Some d" "0 \<le> d" "d < base" by auto
  have nn: "0 \<le> n * base + d" using Cons.prems d by simp
  then have "n * base + d \<le> digits_value base bs (n * base + d)"
    using Cons.prems by (intro digits_value_mono) simp_all
  then have "in_signed 64 (n * base + d) = Some (n * base + d)" using Cons.prems(4) d nn by (simp add: in_signed_def)
  then show ?case
    using Cons.prems d Cons.IH [OF _ _ nn] by (subst strtol_digits.simps) (simp add: ac_simps)
qed

lemma strtol_digit_byte: "strtol_digit b = Some d \<Longrightarrow> 0x30 \<le> b \<and> (b = 0x78 \<or> b = 0x58 \<longrightarrow> d = 33)"
  by (auto simp: strtol_digit_def is_digit_def word_le_nat_alt split: if_splits)

lemma strtol_blanks_skip:
  "bytes_at m s (replicate k 0x20) \<Longrightarrow> strtol_blanks m s = strtol_blanks m (s + of_nat k)"
proof (induction k arbitrary: s)
  case (Suc k)
  then show ?case using strtol_blanks.simps [of m s] by (simp add: ac_simps)
qed simp

lemma strtol_unpadded:
  assumes bs: "digit_bytes base bs" "bs \<noteq> []" and base: "2 \<le> base" "base \<le> 33"
    and v: "digits_value base bs 0 < 2 ^ 63" and m: "bytes_at m s (bs @ [0])"
  shows "strtol_blanks m s = Some s \<and> skip_sign m s = (False, s) \<and> \<not> hex_prefix m s \<and>
    strtol_digits m s base 0 = Some (digits_value base bs 0, s + of_nat (length bs))"
proof -
  obtain b cs where b: "bs = b # cs" using bs(2) by (cases bs) auto
  then obtain d where d: "strtol_digit b = Some d" "m s = b" using bs m by auto
  then have "0x30 \<le> m s" using strtol_digit_byte by blast
  then have "strtol_blanks m s = Some s" "skip_sign m s = (False, s)"
    by (subst strtol_blanks.simps, auto simp: skip_sign_def word_le_nat_alt)
  moreover have "m (s + 1) \<noteq> 0x78 \<and> m (s + 1) \<noteq> 0x58"
  proof (cases cs)
    case Nil
    then show ?thesis using b m by simp
  next
    case (Cons c cs')
    then obtain e where "strtol_digit c = Some e" "e < base" "m (s + 1) = c" using b bs m by auto
    then show ?thesis using strtol_digit_byte [of c e] base by auto
  qed
  ultimately show ?thesis
    using strtol_digits_value [OF bs(1) _ _ v m] base by (simp add: hex_prefix_def)
qed

lemma strtol_padded:
  assumes bs: "digit_bytes base bs" "bs \<noteq> []" and base: "2 \<le> base" "base \<le> 33"
    and v: "digits_value base bs 0 < 2 ^ 63" and m: "bytes_at m s (replicate k 0x20 @ bs @ [0])"
  shows "strtol m s base = Some (digits_value base bs 0, s + of_nat (k + length bs))"
proof -
  let ?s = "s + of_nat k"
  have "bytes_at m s (replicate k 0x20)" "bytes_at m ?s (bs @ [0])" using m by (simp_all add: bytes_at_append)
  then show ?thesis
    using strtol_blanks_skip [of m s k] strtol_unpadded [OF bs base v, of m ?s] base
    by (simp add: strtol_def ac_simps)
qed

lemma zero_digit: "strtol_digit 0x30 = Some 0"
  by (simp add: strtol_digit_def is_digit_def)

lemma leading_zeros [simp]:
  "1 \<le> base \<Longrightarrow> digit_bytes base (replicate k 0x30)" "digits_value base (replicate k 0x30) 0 = 0"
  by (induction k) (simp_all add: zero_digit)

end
