(* ===== verification/KPrint.thy ===== *)
theory KPrint
  imports KStrings
begin

unbundle bit_operations_syntax

text \<open>
  The kernel's console output, \<^verbatim>\<open>mk/lib/debug.c\<close>.  Each routine is modelled by the bytes it passes to the
  serial port, in their order; the lock around a call keeps them together.  Variable arguments are given by
  their size: on amd64 \<^verbatim>\<open>int\<close> has 32 bits, \<^verbatim>\<open>long\<close>, \<^verbatim>\<open>long long\<close>, \<^verbatim>\<open>size_t\<close> and pointers have 64.
  Taking a missing argument, or one of another size, is undefined (\<open>None\<close>), as is a write past a digit
  buffer.
\<close>

section \<open>Raw output\<close>

partial_function (option) print_raw :: "memory \<Rightarrow> u64 \<Rightarrow> u8 list option" where
  "print_raw m s = (if m s \<noteq> 0 then do { rest \<leftarrow> print_raw m (s + 1); Some (m s # rest) } else Some [])"

definition hex_table :: "bool \<Rightarrow> u8 list" where
  "hex_table upper = map (\<lambda>i. 0x30 + of_nat i) [0..<10] @ map (\<lambda>i. (if upper then 0x41 else 0x61) + of_nat i) [0..<6]"

definition print_hex8_raw :: "u8 \<Rightarrow> u8 list" where
  "print_hex8_raw v = [hex_table True ! unat (drop_bit 4 v AND 0xF), hex_table True ! unat (v AND 0xF)]"

definition print_hex16_raw :: "u16 \<Rightarrow> u8 list" where
  "print_hex16_raw v = print_hex8_raw (ucast (drop_bit 8 v)) @ print_hex8_raw (ucast v)"

definition print_hex32_raw :: "u32 \<Rightarrow> u8 list" where
  "print_hex32_raw v = print_hex8_raw (ucast (drop_bit 24 v)) @ print_hex8_raw (ucast (drop_bit 16 v)) @
     print_hex8_raw (ucast (drop_bit 8 v)) @ print_hex8_raw (ucast v)"

definition print_hex64_raw :: "u64 \<Rightarrow> u8 list" where
  "print_hex64_raw v = print_hex32_raw (ucast (drop_bit 32 v)) @ print_hex32_raw (ucast v)"

text \<open>A digit buffer of \<open>cap\<close> bytes, in the order in which it is printed.\<close>

definition push_digit :: "nat \<Rightarrow> u64 \<Rightarrow> u64 \<Rightarrow> u8 list \<Rightarrow> u8 list option" where
  "push_digit cap base v buf = (if length buf < cap then Some (ucast (0x30 + v mod base) # buf) else None)"

partial_function (option) digits_loop :: "nat \<Rightarrow> u64 \<Rightarrow> u64 \<Rightarrow> u8 list \<Rightarrow> u8 list option" where
  "digits_loop cap base v buf =
     (if v > 0 then do { buf \<leftarrow> push_digit cap base v buf; digits_loop cap base (v div base) buf } else Some buf)"

definition print_dec_raw :: "u32 \<Rightarrow> u8 list option" where
  "print_dec_raw v = (if v = 0 then Some [0x30] else digits_loop 12 10 (ucast v) [])"

definition padding :: "nat \<Rightarrow> int \<Rightarrow> bool \<Rightarrow> u8 list" where
  "padding nd width zero_pad = replicate (nat (width - int nd)) (if zero_pad then 0x30 else 0x20)"

partial_function (option) hex_count :: "u64 \<Rightarrow> nat \<Rightarrow> nat option" where
  "hex_count t nd =
     (let nd = nd + 1; t = drop_bit 4 t in if t \<noteq> 0 then hex_count t nd else Some nd)"

definition print_hex_digits_raw :: "u64 \<Rightarrow> int \<Rightarrow> bool \<Rightarrow> bool \<Rightarrow> u8 list option" where
  "print_hex_digits_raw v width zero_pad upper = do {
     nd \<leftarrow> hex_count v 0;
     Some (padding nd width zero_pad @ map (\<lambda>i. hex_table upper ! unat (drop_bit (i * 4) v AND 0xF)) (rev [0..<nd]))
   }"

definition print_dec_digits_raw :: "u64 \<Rightarrow> int \<Rightarrow> bool \<Rightarrow> u8 list option" where
  "print_dec_digits_raw v width zero_pad = do {
     buf \<leftarrow> push_digit 24 10 v [];
     buf \<leftarrow> digits_loop 24 10 (v div 10) buf;
     Some (padding (length buf) width zero_pad @ buf)
   }"

definition print_oct_digits_raw :: "u64 \<Rightarrow> int \<Rightarrow> bool \<Rightarrow> u8 list option" where
  "print_oct_digits_raw v width zero_pad = do {
     buf \<leftarrow> push_digit 24 8 v [];
     buf \<leftarrow> digits_loop 24 8 (v div 8) buf;
     Some (padding (length buf) width zero_pad @ buf)
   }"

definition debug_putchar :: "u8 \<Rightarrow> u8 list" where
  "debug_putchar c = [c]"

definition debug_write :: "memory \<Rightarrow> u64 \<Rightarrow> u32 \<Rightarrow> u8 list" where
  "debug_write m buf n = map (\<lambda>i. m (buf + of_nat i)) [0..<unat n]"

definition debug_print :: "memory \<Rightarrow> u64 \<Rightarrow> u8 list option" where
  "debug_print m s = print_raw m s"

definition debug_println :: "memory \<Rightarrow> u64 \<Rightarrow> u8 list option" where
  "debug_println m s = do { out \<leftarrow> print_raw m s; Some (out @ [0x0D, 0x0A]) }"

definition debug_print_hex8 :: "u8 \<Rightarrow> u8 list" where
  "debug_print_hex8 v = print_hex8_raw v"

definition debug_print_hex16 :: "u16 \<Rightarrow> u8 list" where
  "debug_print_hex16 v = print_hex16_raw v"

definition debug_print_hex32 :: "u32 \<Rightarrow> u8 list" where
  "debug_print_hex32 v = print_hex32_raw v"

definition debug_print_hex64 :: "u64 \<Rightarrow> u8 list" where
  "debug_print_hex64 v = print_hex64_raw v"

definition debug_print_dec :: "u32 \<Rightarrow> u8 list option" where
  "debug_print_dec v = print_dec_raw v"

section \<open>Formatted output\<close>

datatype va_arg = Arg32 u32 | Arg64 u64

datatype length_mod = NoMod | Mod_l | Mod_ll | Mod_z

fun take32 :: "va_arg list \<Rightarrow> (u32 \<times> va_arg list) option" where
  "take32 (Arg32 w # args) = Some (w, args)"
| "take32 _ = None"

fun take64 :: "va_arg list \<Rightarrow> (u64 \<times> va_arg list) option" where
  "take64 (Arg64 w # args) = Some (w, args)"
| "take64 _ = None"

definition signed_arg :: "length_mod \<Rightarrow> va_arg list \<Rightarrow> (u64 \<times> va_arg list) option" where
  "signed_arg md args =
     (if md = NoMod then do { (w, args) \<leftarrow> take32 args; Some (scast w, args) } else take64 args)"

definition unsigned_arg :: "length_mod \<Rightarrow> va_arg list \<Rightarrow> (u64 \<times> va_arg list) option" where
  "unsigned_arg md args =
     (if md = NoMod then do { (w, args) \<leftarrow> take32 args; Some (ucast w, args) } else take64 args)"

partial_function (option) fmt_width :: "memory \<Rightarrow> u64 \<Rightarrow> int \<Rightarrow> (int \<times> u64) option" where
  "fmt_width m p width =
     (if is_digit (m p)
      then do { width \<leftarrow> in_signed 32 (width * 10 + (uint (m p) - 0x30)); fmt_width m (p + 1) width }
      else Some (width, p))"

definition fmt_modifier :: "memory \<Rightarrow> u64 \<Rightarrow> length_mod \<times> u64" where
  "fmt_modifier m p =
     (if m p = 0x6C then if m (p + 1) = 0x6C then (Mod_ll, p + 2) else (Mod_l, p + 1)
      else if m p = 0x7A then (Mod_z, p + 1)
      else (NoMod, p))"

definition fmt_convert :: "memory \<Rightarrow> u8 \<Rightarrow> length_mod \<Rightarrow> int \<Rightarrow> bool \<Rightarrow> va_arg list \<Rightarrow> (u8 list \<times> va_arg list) option" where
  "fmt_convert m c md width zero_pad args =
     (if c = 0x64 then do {
        (v, args) \<leftarrow> signed_arg md args;
        if sint v < 0
        then if sint v = - (2 ^ 63) then None
             else do { out \<leftarrow> print_dec_digits_raw (- v) width zero_pad; Some (0x2D # out, args) }
        else do { out \<leftarrow> print_dec_digits_raw v width zero_pad; Some (out, args) }
      }
      else if c = 0x75 then do {
        (v, args) \<leftarrow> unsigned_arg md args;
        out \<leftarrow> print_dec_digits_raw v width zero_pad;
        Some (out, args)
      }
      else if c = 0x78 \<or> c = 0x58 then do {
        (v, args) \<leftarrow> unsigned_arg md args;
        out \<leftarrow> print_hex_digits_raw v width zero_pad (c = 0x58);
        Some (out, args)
      }
      else if c = 0x6F then do {
        (v, args) \<leftarrow> unsigned_arg md args;
        out \<leftarrow> print_oct_digits_raw v width zero_pad;
        Some (out, args)
      }
      else if c = 0x70 then do {
        (v, args) \<leftarrow> take64 args;
        out \<leftarrow> print_hex_digits_raw v 0 False False;
        Some (out, args)
      }
      else if c = 0x73 then do {
        (s, args) \<leftarrow> take64 args;
        out \<leftarrow> print_raw m s;
        Some (out, args)
      }
      else if c = 0x63 then do { (v, args) \<leftarrow> take32 args; Some ([ucast v], args) }
      else if c = 0x25 then Some ([0x25], args)
      else Some ([0x25, c], args))"

partial_function (option) vprintf_locked :: "memory \<Rightarrow> u64 \<Rightarrow> va_arg list \<Rightarrow> u8 list option" where
  "vprintf_locked m p args =
     (if m p = 0 then Some []
      else if m p \<noteq> 0x25 then do { rest \<leftarrow> vprintf_locked m (p + 1) args; Some (m p # rest) }
      else do {
        let p = p + 1;
        let (zero_pad, p) = (if m p = 0x30 then (True, p + 1) else (False, p));
        (width, p) \<leftarrow> fmt_width m p 0;
        let (md, p) = fmt_modifier m p;
        (out, args) \<leftarrow> fmt_convert m (m p) md width zero_pad args;
        rest \<leftarrow> vprintf_locked m (p + 1) args;
        Some (out @ rest)
      })"

definition debug_printf :: "memory \<Rightarrow> u64 \<Rightarrow> va_arg list \<Rightarrow> u8 list option" where
  "debug_printf m fmt args = vprintf_locked m fmt args"

definition debug_print_raw :: "memory \<Rightarrow> u64 \<Rightarrow> u8 list option" where
  "debug_print_raw m s = print_raw m s"

definition debug_printf_raw :: "memory \<Rightarrow> u64 \<Rightarrow> va_arg list \<Rightarrow> u8 list option" where
  "debug_printf_raw m fmt args = vprintf_locked m fmt args"

section \<open>Log levels\<close>

text \<open>Levels are 0 (error), 1 (warn), 2 (info) and 3 (debug).\<close>

definition log_print :: "memory \<Rightarrow> nat \<Rightarrow> nat \<Rightarrow> u64 \<Rightarrow> u8 list option" where
  "log_print m g_log_level level s = (if level > g_log_level then Some [] else debug_print m s)"

definition log_printf :: "memory \<Rightarrow> nat \<Rightarrow> nat \<Rightarrow> u64 \<Rightarrow> va_arg list \<Rightarrow> u8 list option" where
  "log_printf m g_log_level level fmt args = (if level > g_log_level then Some [] else vprintf_locked m fmt args)"

definition ascii :: "string \<Rightarrow> u8 list" where
  "ascii cs = map of_char cs"

text \<open>Comparison with a string constant: the bytes up to and including the terminator agree.\<close>

definition str_eq :: "memory \<Rightarrow> u64 \<Rightarrow> string \<Rightarrow> bool" where
  "str_eq m v cs \<longleftrightarrow> bytes_at m v (ascii cs @ [0])"

definition is_separator :: "u8 \<Rightarrow> bool" where
  "is_separator c \<longleftrightarrow> c = 0x20 \<or> c = 0x09 \<or> c = 0x2C"

partial_function (option) token_start :: "memory \<Rightarrow> u64 \<Rightarrow> u64 option" where
  "token_start m p = (if is_separator (m p) then token_start m (p + 1) else Some p)"

partial_function (option) token_end :: "memory \<Rightarrow> u64 \<Rightarrow> u64 option" where
  "token_end m p = (if m p \<noteq> 0 \<and> \<not> is_separator (m p) then token_end m (p + 1) else Some p)"

definition parse_level :: "memory \<Rightarrow> u64 \<Rightarrow> nat \<Rightarrow> nat" where
  "parse_level m v level =
     (if m v = 0 then level
      else if 0x30 \<le> m v \<and> m v \<le> 0x33 \<and> m (v + 1) = 0 then unat (m v - 0x30)
      else if str_eq m v ''error'' then 0
      else if str_eq m v ''warn'' \<or> str_eq m v ''warning'' then 1
      else if str_eq m v ''info'' then 2
      else if str_eq m v ''debug'' then 3
      else level)"

partial_function (option) log_scan :: "memory \<Rightarrow> u64 \<Rightarrow> nat \<Rightarrow> nat option" where
  "log_scan m p level =
     (if m p = 0 then Some level
      else do {
        tok \<leftarrow> token_start m p;
        if m tok = 0 then Some level
        else do {
          p \<leftarrow> token_end m tok;
          if unat (p - tok) \<ge> 9 \<and> bytes_at m tok (ascii ''loglevel='')
          then Some (parse_level m (tok + 9) level)
          else log_scan m p level
        }
      })"

definition log_parse_cmdline :: "memory \<Rightarrow> u64 \<Rightarrow> nat \<Rightarrow> nat option" where
  "log_parse_cmdline m cmdline level = (if cmdline = NULL then Some level else log_scan m cmdline level)"

section \<open>Printed numbers\<close>

lemma uint_pos: "0 < unat w \<Longrightarrow> 0 < uint w" for w :: u64
  by (metis of_nat_0_less_iff uint_nat)

lemma uint_less_63: "unat w < 2 ^ 63 \<Longrightarrow> uint w < 2 ^ 63" for w :: u64
  by (metis of_nat_less_iff of_nat_numeral of_nat_power uint_nat)

lemma dec_digit:
  fixes base v :: u64
  assumes "2 \<le> unat base" "unat base \<le> 10"
  shows "strtol_digit (ucast (0x30 + v mod base)) = Some (uint v mod uint base)"
proof -
  have "unat v mod unat base < unat base" using assms(1) by (intro mod_less_divisor) simp
  then have "unat (v mod base) < 10" using assms(2) by (simp add: unat_mod)
  then have "unat (0x30 + v mod base) = 0x30 + unat (v mod base)"
    by (subst unat_add_less) simp_all
  then have u: "unat (ucast (0x30 + v mod base) :: u8) = 0x30 + unat (v mod base)"
    using \<open>unat (v mod base) < 10\<close> by (simp add: unsigned_ucast_eq take_bit_nat_eq_self)
  then have "is_digit (ucast (0x30 + v mod base))"
    using \<open>unat (v mod base) < 10\<close> by (simp add: is_digit_def word_le_nat_alt)
  moreover have "uint (ucast (0x30 + v mod base) :: u8) = 0x30 + uint (v mod base)"
    unfolding uint_nat u by simp
  ultimately show ?thesis by (simp add: strtol_digit_def uint_mod)
qed

lemma digits_loop_value:
  assumes base: "2 \<le> unat base" "unat base \<le> 10"
  shows "unat v < unat base ^ k \<Longrightarrow> length buf + k \<le> cap \<Longrightarrow>
    \<exists>bs. digits_loop cap base v buf = Some (bs @ buf) \<and> digit_bytes (uint base) bs \<and>
      digits_value (uint base) bs 0 = uint v"
proof (induction k arbitrary: v buf)
  case 0
  then have "v = 0" by (simp add: unat_eq_zero)
  then show ?case by (subst digits_loop.simps) simp
next
  case (Suc k)
  show ?case
  proof (cases "v = 0")
    case True
    then show ?thesis by (subst digits_loop.simps) simp
  next
    case False
    let ?c = "ucast (0x30 + v mod base) :: u8"
    have "unat (v div base) < unat base ^ k"
      using Suc.prems(1) base by (simp add: unat_div less_mult_imp_div_less mult.commute)
    then obtain bs where bs: "digits_loop cap base (v div base) (?c # buf) = Some (bs @ ?c # buf)"
      "digit_bytes (uint base) bs" "digits_value (uint base) bs 0 = uint (v div base)"
      using Suc.IH [of "v div base" "?c # buf"] Suc.prems(2) by auto
    have "0 < uint base" using base(1) by (intro uint_pos) simp
    then have "digit_bytes (uint base) (bs @ [?c])" "digits_value (uint base) (bs @ [?c]) 0 = uint v"
      using bs dec_digit [OF base] by (simp_all add: uint_div)
    moreover have "digits_loop cap base v buf = Some ((bs @ [?c]) @ buf)"
      using False Suc.prems(2) bs(1) by (subst digits_loop.simps) (simp add: push_digit_def word_neq_0_conv)
    ultimately show ?thesis by blast
  qed
qed

text \<open>What a printed number is: padding, followed by digits of the number.\<close>

definition prints :: "int \<Rightarrow> u64 \<Rightarrow> int \<Rightarrow> bool \<Rightarrow> u8 list \<Rightarrow> bool" where
  "prints base v width zero_pad out \<longleftrightarrow>
     (\<exists>bs. bs \<noteq> [] \<and> digit_bytes base bs \<and> digits_value base bs 0 = uint v \<and> out = padding (length bs) width zero_pad @ bs)"

lemma do_digits_value:
  assumes base: "2 \<le> unat base" "unat base \<le> 10" and "unat v div unat base < unat base ^ 23"
  shows "\<exists>bs. bs \<noteq> [] \<and> do { buf \<leftarrow> push_digit 24 base v []; digits_loop 24 base (v div base) buf } = Some bs \<and>
    digit_bytes (uint base) bs \<and> digits_value (uint base) bs 0 = uint v"
proof -
  let ?c = "ucast (0x30 + v mod base) :: u8"
  obtain bs where bs: "digits_loop 24 base (v div base) [?c] = Some (bs @ [?c])" "digit_bytes (uint base) bs"
    "digits_value (uint base) bs 0 = uint (v div base)"
    using digits_loop_value [OF base, of "v div base" 23 "[?c]" 24] assms(3) by (auto simp: unat_div)
  have "0 < uint base" using base(1) by (intro uint_pos) simp
  then have "digit_bytes (uint base) (bs @ [?c])" "digits_value (uint base) (bs @ [?c]) 0 = uint v"
    using bs dec_digit [OF base] by (simp_all add: uint_div)
  then show ?thesis using bs(1) by (intro exI [of _ "bs @ [?c]"]) (simp add: push_digit_def)
qed

lemma print_dec_prints: "\<exists>out. print_dec_digits_raw v width zero_pad = Some out \<and> prints 10 v width zero_pad out"
proof -
  have "unat v div 10 < 10 ^ 23" using unat_u64_less [of v] by simp
  then have "\<exists>bs. bs \<noteq> [] \<and> do { buf \<leftarrow> push_digit 24 10 v []; digits_loop 24 10 (v div 10) buf } = Some bs \<and>
      digit_bytes 10 bs \<and> digits_value 10 bs 0 = uint v"
    using do_digits_value [of 10 v] by simp
  then obtain bs where bs: "bs \<noteq> []" "do { buf \<leftarrow> push_digit 24 10 v []; digits_loop 24 10 (v div 10) buf } = Some bs"
    "digit_bytes 10 bs" "digits_value 10 bs 0 = uint v" by blast
  have "print_dec_digits_raw v width zero_pad = Some (padding (length bs) width zero_pad @ bs)"
    using bs(2) by (simp add: print_dec_digits_raw_def push_digit_def)
  then show ?thesis using bs(1,3,4) unfolding prints_def by blast
qed

lemma print_oct_prints: "\<exists>out. print_oct_digits_raw v width zero_pad = Some out \<and> prints 8 v width zero_pad out"
proof -
  have "unat v div 8 < 8 ^ 23" using unat_u64_less [of v] by simp
  then have "\<exists>bs. bs \<noteq> [] \<and> do { buf \<leftarrow> push_digit 24 8 v []; digits_loop 24 8 (v div 8) buf } = Some bs \<and>
      digit_bytes 8 bs \<and> digits_value 8 bs 0 = uint v"
    using do_digits_value [of 8 v] by simp
  then obtain bs where bs: "bs \<noteq> []" "do { buf \<leftarrow> push_digit 24 8 v []; digits_loop 24 8 (v div 8) buf } = Some bs"
    "digit_bytes 8 bs" "digits_value 8 bs 0 = uint v" by blast
  have "print_oct_digits_raw v width zero_pad = Some (padding (length bs) width zero_pad @ bs)"
    using bs(2) by (simp add: print_oct_digits_raw_def push_digit_def)
  then show ?thesis using bs(1,3,4) unfolding prints_def by blast
qed

lemma hex_count_value:
  "unat t < 16 ^ Suc k \<Longrightarrow> \<exists>j. hex_count t nd = Some (nd + j) \<and> 0 < j \<and> unat t < 16 ^ j"
proof (induction k arbitrary: t nd)
  case 0
  then have "drop_bit 4 t = 0" by (simp add: drop_bit_eq_div word_unat_eq_iff unat_div)
  then show ?case using 0 by (subst hex_count.simps) (auto intro: exI [of _ 1])
next
  case (Suc k)
  have d: "unat (drop_bit 4 t) = unat t div 16" by (simp add: drop_bit_eq_div unat_div)
  show ?case
  proof (cases "drop_bit 4 t = 0")
    case True
    then have "unat t < 16" using d by simp
    then show ?thesis using True by (subst hex_count.simps) (auto intro: exI [of _ 1])
  next
    case False
    have "unat (drop_bit 4 t) < 16 ^ Suc k" using Suc.prems d by (simp add: less_mult_imp_div_less)
    then obtain j where j: "hex_count (drop_bit 4 t) (nd + 1) = Some (nd + 1 + j)" "0 < j" "unat t div 16 < 16 ^ j"
      using Suc.IH [of "drop_bit 4 t" "nd + 1"] d by auto
    then have "unat t < 16 ^ Suc j" by (simp add: div_less_iff_less_mult)
    then show ?thesis using j False by (subst hex_count.simps) (auto simp: Let_def intro: exI [of _ "Suc j"])
  qed
qed

lemma hex_digit:
  assumes "n < 16"
  shows "strtol_digit (hex_table upper ! n) = Some (int n)"
proof -
  have l: "list_all (\<lambda>n. strtol_digit (hex_table False ! n) = Some (int n)) [0..<16]"
    "list_all (\<lambda>n. strtol_digit (hex_table True ! n) = Some (int n)) [0..<16]" by code_simp+
  have n: "n \<in> set [0..<16]" using assms by (simp only: set_upt atLeastLessThan_iff) simp
  show ?thesis
    using bspec [OF l(1) [unfolded list_all_iff] n] bspec [OF l(2) [unfolded list_all_iff] n] by (cases upper) simp_all
qed

lemma nibble: "unat (drop_bit (i * 4) v AND 0xF) = unat v div 16 ^ i mod 16" for v :: u64
proof -
  have "drop_bit (i * 4) v AND 0xF = take_bit 4 (drop_bit (i * 4) v)" by (simp add: take_bit_eq_mask mask_eq_exp_minus_1)
  moreover have "unat (drop_bit (i * 4) v) = unat v div 16 ^ i"
  proof -
    have "unat (drop_bit (i * 4) v) = drop_bit (i * 4) (unat v)" by (rule unat_drop_bit_eq)
    also have "\<dots> = unat v div 16 ^ i" by (simp add: drop_bit_eq_div mult.commute [of i] power_mult)
    finally show ?thesis .
  qed
  ultimately show ?thesis by (simp add: take_bit_eq_mod unat_mod)
qed

lemma hex_digits_value:
  fixes v :: u64 and upper :: bool
  defines "ds \<equiv> \<lambda>nd. map (\<lambda>i. hex_table upper ! unat (drop_bit (i * 4) v AND 0xF)) (rev [0..<nd])"
  shows "digit_bytes 16 (ds nd) \<and> digits_value 16 (ds nd) n = n * 16 ^ nd + int (unat v mod 16 ^ nd)"
proof (induction nd arbitrary: n)
  case 0
  then show ?case by (simp add: ds_def)
next
  case (Suc nd)
  let ?x = "unat v div 16 ^ nd mod 16"
  have s: "ds (Suc nd) = hex_table upper ! ?x # ds nd" by (simp add: ds_def nibble)
  have d: "strtol_digit (hex_table upper ! ?x) = Some (int ?x)" by (rule hex_digit) simp
  have "unat v mod 16 ^ Suc nd = 16 ^ nd * ?x + unat v mod 16 ^ nd"
    by (simp only: power_Suc2 mod_mult2_eq)
  then have "(n * 16 + int ?x) * 16 ^ nd + int (unat v mod 16 ^ nd) = n * 16 ^ Suc nd + int (unat v mod 16 ^ Suc nd)"
    by (simp add: algebra_simps)
  then show ?case using s d Suc.IH [of "n * 16 + int ?x"] by simp
qed

lemma print_hex_prints: "\<exists>out. print_hex_digits_raw v width zero_pad upper = Some out \<and> prints 16 v width zero_pad out"
proof -
  have "unat v < 16 ^ Suc 15" using unat_u64_less [of v] by simp
  then obtain nd where nd: "hex_count v 0 = Some nd" "0 < nd" "unat v < 16 ^ nd"
    using hex_count_value [of v 15 0] by auto
  let ?ds = "map (\<lambda>i. hex_table upper ! unat (drop_bit (i * 4) v AND 0xF)) (rev [0..<nd])"
  have "digit_bytes 16 ?ds" "digits_value 16 ?ds 0 = uint v"
    using hex_digits_value [of upper v nd 0] nd(3) by simp_all
  moreover have "?ds \<noteq> []" "length ?ds = nd" using nd(2) by simp_all
  moreover have "print_hex_digits_raw v width zero_pad upper = Some (padding nd width zero_pad @ ?ds)"
    using nd(1) by (simp add: print_hex_digits_raw_def)
  ultimately show ?thesis unfolding prints_def by metis
qed

lemma prints_strtol:
  assumes "prints base v width zero_pad out" and "2 \<le> base" and "base \<le> 33" and "unat v < 2 ^ 63"
    and "bytes_at m s (out @ [0])"
  shows "strtol m s base = Some (uint v, s + of_nat (length out))"
proof -
  obtain bs where bs: "bs \<noteq> []" "digit_bytes base bs" "digits_value base bs 0 = uint v"
    "out = padding (length bs) width zero_pad @ bs" using assms(1) unfolding prints_def by blast
  note v = uint_less_63 [OF assms(4)]
  show ?thesis
  proof (cases zero_pad)
    case True
    define zs where "zs = replicate (nat (width - int (length bs))) (0x30 :: u8) @ bs"
    have "digit_bytes base zs" "zs \<noteq> []" "digits_value base zs 0 = uint v" "out = zs"
      using True bs assms(2) by (simp_all add: zs_def padding_def)
    then show ?thesis using strtol_padded [of base zs m s 0] assms v by simp
  next
    case False
    then show ?thesis
      using strtol_padded [of base bs m s "nat (width - int (length bs))"] bs assms v by (simp add: padding_def)
  qed
qed

text \<open>
  C32. What the kernel prints as a number, its number parser reads back: the decimal, hexadecimal and octal
  output of any value below \<open>2 ^ 63\<close>, at any field width and with either kind of padding, is
  produced without overrunning the digit buffer, and parsed in the same base it gives the value and stops
  behind the last digit.
\<close>

theorem printed_number_round_trip:
  assumes "unat v < 2 ^ 63"
  shows "(\<exists>out. print_dec_digits_raw v width zero_pad = Some out \<and>
      (\<forall>m s. bytes_at m s (out @ [0]) \<longrightarrow> strtol m s 10 = Some (uint v, s + of_nat (length out)))) \<and>
    (\<exists>out. print_hex_digits_raw v width zero_pad upper = Some out \<and>
      (\<forall>m s. bytes_at m s (out @ [0]) \<longrightarrow> strtol m s 16 = Some (uint v, s + of_nat (length out)))) \<and>
    (\<exists>out. print_oct_digits_raw v width zero_pad = Some out \<and>
      (\<forall>m s. bytes_at m s (out @ [0]) \<longrightarrow> strtol m s 8 = Some (uint v, s + of_nat (length out))))"
proof -
  have r: "\<forall>m s. bytes_at m s (out @ [0]) \<longrightarrow> strtol m s base = Some (uint v, s + of_nat (length out))"
    if "prints base v width zero_pad out" "2 \<le> base" "base \<le> 33" for base out
    using prints_strtol [OF that assms] by blast
  show ?thesis
    using print_dec_prints [of v width zero_pad] print_hex_prints [of v width zero_pad upper]
      print_oct_prints [of v width zero_pad] r [of 10] r [of 16] r [of 8] by fastforce
qed

theorem printed_number_round_trip_witness:
  "\<exists>out. print_dec_digits_raw 42 5 False = Some out \<and>
    (\<forall>m s. bytes_at m s (out @ [0]) \<longrightarrow> strtol m s 10 = Some (42, s + of_nat (length out)))"
  using printed_number_round_trip [of 42 5 False False] by simp

section \<open>Formats\<close>

lemma printf_plain_prefix:
  "bytes_at m p xs \<Longrightarrow> 0 \<notin> set xs \<Longrightarrow> 0x25 \<notin> set xs \<Longrightarrow>
    vprintf_locked m p args = map_option (\<lambda>rest. xs @ rest) (vprintf_locked m (p + of_nat (length xs)) args)"
proof (induction xs arbitrary: p)
  case Nil
  then show ?case by (simp add: option.map_ident)
next
  case (Cons x xs)
  then have "vprintf_locked m p args = map_option (\<lambda>rest. x # rest) (vprintf_locked m (p + 1) args)"
    by (subst vprintf_locked.simps) (auto simp: map_option_case split: option.splits bind_splits)
  then show ?case using Cons by (simp add: option.map_comp comp_def ac_simps)
qed

text \<open>
  C36. A format without conversions is printed as it stands.  A format that ends in a lone percent sign makes
  the formatter leave the string: it prints the percent sign and the terminating zero byte and goes on with
  whatever memory follows the terminator.
\<close>

theorem printf_trailing_percent:
  assumes "string_at m p (xs @ [0x25])" and "0x25 \<notin> set xs"
  shows "debug_printf m p args =
    map_option (\<lambda>rest. xs @ [0x25, 0] @ rest) (debug_printf m (p + of_nat (length xs) + 2) args)"
proof -
  define q where "q = p + of_nat (length xs)"
  have x: "bytes_at m p xs" "0 \<notin> set xs" "m q = 0x25" "m (q + 1) = 0"
    using assms(1) by (auto simp: string_at_def bytes_at_append q_def)
  have "fmt_width m (q + 1) 0 = Some (0, q + 1)" using x(4) by (subst fmt_width.simps) (simp add: is_digit_def)
  moreover have "fmt_modifier m (q + 1) = (NoMod, q + 1)" using x(4) by (simp add: fmt_modifier_def)
  moreover have "fmt_convert m 0 NoMod 0 False args = Some ([0x25, 0], args)" by (simp add: fmt_convert_def)
  ultimately have "vprintf_locked m q args = do { rest \<leftarrow> vprintf_locked m (q + 1 + 1) args; Some ([0x25, 0] @ rest) }"
    using x(3,4) by (subst vprintf_locked.simps) (simp add: Let_def)
  also have "\<dots> = map_option (\<lambda>rest. [0x25, 0] @ rest) (vprintf_locked m (q + 2) args)"
    by (simp add: map_conv_bind_option comp_def add.commute [of q])
  finally show ?thesis
    using printf_plain_prefix [OF x(1,2) assms(2), of args]
    by (simp add: debug_printf_def option.map_comp comp_def flip: q_def)
qed

theorem printf_trailing_percent_witness:
  "debug_printf ((\<lambda>_. 0)(1 := 0x25, 3 := 0x41)) 1 [] = Some [0x25, 0, 0x41]"
  using printf_trailing_percent [of "(\<lambda>_. 0)(1 := 0x25, 3 := 0x41)" 1 "[]" "[]"]
  by (simp add: debug_printf_def vprintf_locked.simps [of _ 3] vprintf_locked.simps [of _ 4])

section \<open>The boot option\<close>

lemma token_end_at:
  "bytes_at m p (xs @ [c]) \<Longrightarrow> \<forall>x \<in> set xs. x \<noteq> 0 \<and> \<not> is_separator x \<Longrightarrow> c = 0 \<or> is_separator c \<Longrightarrow>
    token_end m p = Some (p + of_nat (length xs))"
proof (induction xs arbitrary: p)
  case Nil
  then show ?case by (subst token_end.simps) auto
next
  case (Cons x xs)
  then have "token_end m p = token_end m (p + 1)" by (subst token_end.simps) simp
  then show ?case using Cons by (simp add: ac_simps)
qed

lemma log_scan_option:
  assumes "string_at m p (ascii ''loglevel='' @ val @ rest)" and "rest = [] \<or> is_separator (List.hd rest)"
    and "\<forall>x \<in> set val. \<not> is_separator x" and "length val < 2 ^ 63"
  shows "log_scan m p level = Some (parse_level m (p + 9) level)"
proof -
  let ?tok = "ascii ''loglevel='' @ val"
  have n: "length ?tok = 9 + length val" by (simp add: ascii_def)
  have b: "bytes_at m p ?tok" "bytes_at m p (?tok @ [List.hd (rest @ [0])])" "0 \<notin> set ?tok"
    using assms(1) by (cases rest; simp add: string_at_def bytes_at_append)+
  have key: "bytes_at m p (ascii ''loglevel='')" using b(1) by (simp only: bytes_at_append)
  then have "m p = 0x6C" by (simp add: ascii_def)
  then have start: "token_start m p = Some p" "m p \<noteq> 0" by (subst token_start.simps, simp_all add: is_separator_def)
  have "\<forall>x \<in> set ?tok. x \<noteq> 0 \<and> \<not> is_separator x"
    using assms(3) b(3) by (auto simp: ascii_def is_separator_def)
  moreover have "List.hd (rest @ [0]) = 0 \<or> is_separator (List.hd (rest @ [0]))" using assms(2) by (cases rest) auto
  ultimately have stop: "token_end m p = Some (p + of_nat (length ?tok))" using token_end_at [OF b(2)] by blast
  have "unat (of_nat (length ?tok) :: u64) = 9 + length val"
    unfolding n using assms(4) by (intro unat_of_nat_less) simp
  then have "9 \<le> unat (p + of_nat (length ?tok) - p)" by simp
  then show ?thesis using start stop key by (subst log_scan.simps) simp
qed

lemma str_eq_string: "string_at m v xs \<Longrightarrow> 0 \<notin> set (ascii cs) \<Longrightarrow> str_eq m v cs \<longleftrightarrow> xs = ascii cs"
  using string_at_unique [of m v xs "ascii cs"] by (auto simp: str_eq_def string_at_def)

lemma parse_level_more:
  assumes "string_at m v (val @ c # rest)" and "val \<noteq> []" and "is_separator c"
  shows "parse_level m v level = level"
proof -
  have ne: "\<not> str_eq m v cs" if "0 \<notin> set (ascii cs)" "\<forall>x \<in> set (ascii cs). \<not> is_separator x" for cs
    using str_eq_string [OF assms(1) that(1)] that(2) assms(3) by (metis in_set_conv_decomp)
  have "m (v + 1) \<noteq> 0" using assms(1,2) by (cases val; cases "tl val") auto
  moreover have "\<not> str_eq m v ''error''" "\<not> str_eq m v ''warn''" "\<not> str_eq m v ''warning''" "\<not> str_eq m v ''info''"
    "\<not> str_eq m v ''debug''" by (rule ne; simp add: ascii_def is_separator_def)+
  ultimately show ?thesis by (simp add: parse_level_def)
qed

definition level_names :: "(string \<times> nat) list" where
  "level_names = [(''0'', 0), (''1'', 1), (''2'', 2), (''3'', 3), (''error'', 0), (''warn'', 1), (''warning'', 1),
     (''info'', 2), (''debug'', 3)]"

lemma parse_level_name:
  assumes "string_at m v (ascii nm)" and "(nm, l) \<in> set level_names"
  shows "parse_level m v level = l"
proof -
  have s: "str_eq m v cs \<longleftrightarrow> ascii nm = ascii cs" if "0 \<notin> set (ascii cs)" for cs
    using str_eq_string [OF assms(1) that] .
  have e: "str_eq m v ''error'' \<longleftrightarrow> ascii nm = ascii ''error''" "str_eq m v ''warn'' \<longleftrightarrow> ascii nm = ascii ''warn''"
    "str_eq m v ''warning'' \<longleftrightarrow> ascii nm = ascii ''warning''" "str_eq m v ''info'' \<longleftrightarrow> ascii nm = ascii ''info''"
    "str_eq m v ''debug'' \<longleftrightarrow> ascii nm = ascii ''debug''" by (rule s; simp add: ascii_def)+
  show ?thesis using assms unfolding parse_level_def e level_names_def by (auto simp: ascii_def)
qed

text \<open>
  C35. The boot option that sets the log level takes the documented names and numbers only at the very end of
  the command line.  Followed by anything else, even a single blank, a correct option is ignored, because the
  value is compared with the rest of the line and not with its token.
\<close>

theorem log_level_must_end_line:
  assumes "string_at m p (ascii ''loglevel='' @ ascii nm @ rest)" and "(nm, l) \<in> set level_names"
    and "rest = [] \<or> is_separator (List.hd rest)" and "p \<noteq> NULL"
  shows "log_parse_cmdline m p level = Some (if rest = [] then l else level)"
proof -
  have nm: "\<forall>x \<in> set (ascii nm). \<not> is_separator x" "length (ascii nm) < 2 ^ 63" "ascii nm \<noteq> []"
    using assms(2) by (auto simp: level_names_def ascii_def is_separator_def)
  have "string_at m (p + 9) (ascii nm @ rest)"
    using assms(1) bytes_at_append [of m p "ascii ''loglevel=''" "ascii nm @ rest @ [0]"]
    by (simp add: string_at_def) (simp add: ascii_def)
  then have "parse_level m (p + 9) level = (if rest = [] then l else level)"
    using parse_level_name [OF _ assms(2)] parse_level_more [OF _ nm(3)] assms(3) by (cases rest) auto
  then show ?thesis
    using log_scan_option [OF assms(1,3) nm(1,2)] assms(4) by (simp add: log_parse_cmdline_def)
qed

theorem log_level_must_end_line_witness:
  "let m = (\<lambda>a. if a \<ge> 1 \<and> a \<le> 11 then (ascii ''loglevel=3 '') ! unat (a - 1) else 0)
   in log_parse_cmdline m 1 2 = Some 2"
  using log_level_must_end_line
    [of "\<lambda>a. if a \<ge> 1 \<and> a \<le> 11 then (ascii ''loglevel=3 '') ! unat (a - 1) else 0" 1 "''3''" "[0x20]" 3 2]
  by (simp add: ascii_def level_names_def is_separator_def)

end
