(* ===== verification/Spec2Isabelle.thy ===== *)
theory Spec2Isabelle
  imports PmmInit IoChannel VmPager Udiv KPrint
begin

text \<open>
  A verification of the arc kernel, a hybrid microkernel in C with a BSD personality on top.  The
  development follows the sources under \<^verbatim>\<open>src/\<close>; file names below are relative to it.

  \<^bold>\<open>The program and its parts.\<close>  The microkernel (\<^verbatim>\<open>mk/\<close>) owns physical pages, address spaces, tasks and message
  ports.  A task has a capability space, whose slots name ports and memory objects, and an address map, whose
  entries map ranges to memory objects.  Tasks talk by messages through ports; a message can carry
  capabilities, which move from the sender's space to the receiver's when the message is received.  A page
  fault is resolved by the memory object behind the address; an object can leave this to a pager in user
  space, which answers by message.  I/O work is handed to drivers through request rings.

  \<^bold>\<open>Theories.\<close>
  \<^item> \<open>Arc_Prelude\<close>: machine integers as words, scans, partial results.  \<open>Bitmaps\<close>, \<open>RingBuf\<close> and
    \<open>PageSource\<close> hold the interfaces: the locales \<open>bitmap\<close> (interpreted by the page bitmap in \<open>Pmm\<close> and the
    slot bitmap in \<open>Cspace\<close>), \<open>drain\<close> and its extension \<open>fifo\<close> (the request rings of \<open>IoChannel\<close> and the message
    queue of \<open>Ports\<close>) and \<open>page_source\<close> (the allocator of \<open>Pmm\<close>).
  \<^item> \<open>Pmm\<close>, \<open>PmmInit\<close>: the physical page allocator \<^verbatim>\<open>mk/vm/pmm.c\<close> and its initialisation from the boot loader's
    memory map.  Allocation returns a free page, first-fit for runs, release gives exactly the pages back,
    and after start-up exactly the RAM pages outside kernel, modules and bitmap are free.
  \<^item> \<open>Ports\<close>: port table, reference counts and message ring of \<^verbatim>\<open>mk/vm/port.c\<close>.  The ring refines a bounded FIFO
    queue across growth; a port is freed with its last reference and never before.
  \<^item> \<open>Cspace\<close>: capability spaces \<^verbatim>\<open>mk/vm/cspace.c\<close>.  Allocation, revocation and the move of a capability between
    spaces change exactly the named slots; allocation is described by what later lookups return.
  \<^item> \<open>VmObject\<close>, \<open>VmMap\<close>: memory objects \<^verbatim>\<open>mk/vm/vm_object.c\<close> and address maps \<^verbatim>\<open>mk/vm/vm_map.c\<close>.  The sorted
    entry array is related to the partial function from addresses to object offsets; mapping, unmapping,
    protection, fault resolution and destruction are described on that function.
  \<^item> \<open>Tasks\<close>: \<^verbatim>\<open>mk/vm/task.c\<close>, the hash table of tasks, creation and destruction, and the kernel state \<open>kstate\<close> with
    its invariant \<open>kinv\<close>, on which everything below works.
  \<^item> \<open>Ipc\<close>: sending and receiving with capability transfer and the port system calls (\<^verbatim>\<open>mk/vm/port.c\<close>).
  \<^item> \<open>VmSyscall\<close>, \<open>VmPager\<close>: the memory system calls \<^verbatim>\<open>mk/vm/vm_syscall.c\<close> and the pager protocol \<^verbatim>\<open>mk/vm/vm_pager.c\<close>.
  \<^item> \<open>IoChannel\<close>: the request rings of \<^verbatim>\<open>mk/vm/io_channel.c\<close>, with the step relation \<open>io_step\<close> of all operations.
  \<^item> \<open>Udiv\<close>, \<open>KStrings\<close>, \<open>KPrint\<close>: the kernel library (\<^verbatim>\<open>mk/lib/udivdi3.c\<close>, \<^verbatim>\<open>string.c\<close>, \<^verbatim>\<open>debug.c\<close>): division, memory
    and string routines over a byte memory, and formatted output as the bytes sent to the console.

  \<^bold>\<open>How state and operations correspond.\<close>  A C structure is a record with the source's field names; objects
  behind pointers live in partial maps from addresses to records, so that an access to a freed object is
  visible.  One definition models one C function, with every guard and early return; static helpers
  and loop bodies have definitions of their own.  A result \<open>None\<close> is undefined behaviour or a call that never
  returns; error numbers are ordinary results.  Results of \<^verbatim>\<open>kmalloc\<close>, hardware page-table operations and
  the running thread are arguments.  Calls into the scheduler are recorded as a list of events.  A system
  call that blocks is split where the thread gives up the processor.

  \<^bold>\<open>Bounds and termination.\<close>  Loops over arrays are structural or bounded scans.  Chains (hash buckets, the
  shift loop of the division, strings) are partial functions; that they return is proved where the
  invariant gives it.  No fuel is used.  Integers keep their width wherever the code can overflow.

  \<^bold>\<open>Not modelled.\<close>  Preemption and, with one exception, locks: each operation is one atomic step.  The exception is
  the move of a capability, which takes the locks of two spaces: \<open>lock_spaces\<close> in \<open>Ipc\<close> takes them in the code's
  order, and taking a lock that the call already holds does not return.  The reference counts of ports and
  memory objects are unbounded integers, so their overflow at 2 to the power 31 is not covered.  Memory from
  \<^verbatim>\<open>kmalloc\<close> has arbitrary contents; theorems that need cleared memory say so.  Page tables, interrupts, context switches, processor start-up,
  timers and drivers work on hardware registers and assembly.  Boot code, ACPI and device-tree parsing read
  firmware tables.  The network stack is third-party code.  The heap, the scheduler, and of the BSD
  personality (\<^verbatim>\<open>bsd/\<close>) processes, signals, terminals, sockets and file systems are not modelled: they are large
  separate systems on top of the interfaces above.  Tests and tools are not part of the kernel.
\<close>

end
